(* ===== verification/C_Prelude.thy ===== *)
theory C_Prelude
  imports Main "HOL-Library.Word"
begin

text \<open>
  Shared ground of the development: the machine types of the target (LP64 Linux, as the
  sources assume), the ways a C statement can fail, the result type every fallible operation
  of the model returns, sequencing of statements, loops over lists with early exit, and the
  generic invariant argument for step relations.
\<close>

section \<open>Machine types\<close>

type_synonym u8 = "8 word"
type_synonym u32 = "32 word"
type_synonym u64 = "64 word"

text \<open>An address. \<open>NULL\<close> is never a valid object.\<close>

type_synonym ptr = "64 word"

abbreviation NULL :: ptr where
  "NULL \<equiv> 0"

section \<open>Faults and results\<close>

text \<open>
  \<open>SegFault\<close>: a dereference of an address that holds no object (NULL, poison, freed memory).
  \<open>BugOn\<close>: \<open>BUG_ON\<close>, \<open>BUG\<close> or \<open>assert\<close> fired.
  \<open>Deadlock\<close>: a thread takes a lock it already holds.
  \<open>Diverge\<close>: the fuel of a loop ran out.
\<close>

datatype fault = SegFault | BugOn | Deadlock | Diverge

type_synonym 'a res = "fault + 'a"

named_theorems res_simps \<open>evaluation rules of the result type\<close>

definition bindR :: "'a res \<Rightarrow> ('a \<Rightarrow> 'b res) \<Rightarrow> 'b res" where
  "bindR m f = (case m of Inl e \<Rightarrow> Inl e | Inr x \<Rightarrow> f x)"

lemma bindR_Inl [simp, res_simps]: "bindR (Inl e) f = Inl e"
  by (simp add: bindR_def)

lemma bindR_Inr [simp, res_simps]: "bindR (Inr x) f = f x"
  by (simp add: bindR_def)

lemma bindR_eq_Inr: "bindR m f = Inr y \<longleftrightarrow> (\<exists>x. m = Inr x \<and> f x = Inr y)"
  by (cases m) auto

lemma bindR_assoc: "bindR (bindR m f) g = bindR m (\<lambda>x. bindR (f x) g)"
  by (cases m) auto

text \<open>\<open>BUG_ON(c)\<close> before the rest of a block.\<close>

definition bug_on :: "bool \<Rightarrow> 'a res \<Rightarrow> 'a res" where
  "bug_on c m = (if c then Inl BugOn else m)"

lemma bug_on_simps [simp, res_simps]:
  "bug_on True m = Inl BugOn"
  "bug_on False m = m"
  by (simp_all add: bug_on_def)

text \<open>A block of statements, each a state transformer that may fault.\<close>

fun seqR :: "('s \<Rightarrow> 's res) list \<Rightarrow> 's \<Rightarrow> 's res" where
  "seqR [] s = Inr s"
| "seqR (c # cs) s = bindR (c s) (seqR cs)"

lemma seqR_append: "seqR (cs @ ds) s = bindR (seqR cs s) (seqR ds)"
  by (induction cs arbitrary: s) (simp_all add: bindR_assoc bindR_def split: sum.splits)

text \<open>
  What a loop body says: go on with the loop or leave it (\<open>break\<close>). \<open>foldF\<close> is the
  loop over a list of values that the macros of \<open>list.h\<close> unroll to.
\<close>

datatype 's flow = Go 's | Stop 's

fun flow_state :: "'s flow \<Rightarrow> 's" where
  "flow_state (Go s) = s"
| "flow_state (Stop s) = s"

fun foldF :: "('a \<Rightarrow> 's \<Rightarrow> 's flow res) \<Rightarrow> 'a list \<Rightarrow> 's \<Rightarrow> 's res" where
  "foldF body [] s = Inr s"
| "foldF body (x # xs) s =
     bindR (body x s) (\<lambda>r. case r of Stop s' \<Rightarrow> Inr s' | Go s' \<Rightarrow> foldF body xs s')"

section \<open>Invariants of step relations\<close>

text \<open>
  A component with several threads is a start predicate and a step relation. The invariant
  argument is made once here: what holds at the start and is kept by every step holds in
  every state that can be reached.
\<close>

locale machine_invariant =
  fixes start :: "'s \<Rightarrow> bool"
    and step :: "'s \<Rightarrow> 's \<Rightarrow> bool"
    and inv :: "'s \<Rightarrow> bool"
  assumes start_inv: "start s \<Longrightarrow> inv s"
    and step_inv: "step s t \<Longrightarrow> inv s \<Longrightarrow> inv t"
begin

lemma steps_inv:
  assumes "step\<^sup>*\<^sup>* s t" and "inv s"
  shows "inv t"
  using assms by (induction rule: rtranclp_induct) (auto intro: step_inv)

lemma reachable_inv: "start s \<Longrightarrow> step\<^sup>*\<^sup>* s t \<Longrightarrow> inv t"
  using steps_inv start_inv by blast

end

section \<open>Lists\<close>

lemma list_all2_update_notin:
  "list_all2 P xs ys \<Longrightarrow> (\<And>x y. x \<in> set xs \<Longrightarrow> P x y \<Longrightarrow> Q x y) \<Longrightarrow> list_all2 Q xs ys"
  by (auto simp: list_all2_conv_all_nth)

lemma last_Cons_append_in: "last (x # xs) \<in> set (x # xs)"
  by (rule last_in_set) simp

lemma hd_append_single_in: "hd (xs @ [x]) \<in> set (x # xs)"
  by (cases xs) auto

text \<open>A list of distinct non-null addresses is shorter than the address space.\<close>

lemma distinct_ptrs_bound:
  fixes xs :: "ptr list"
  assumes "distinct xs" and "NULL \<notin> set xs"
  shows "length xs < 2 ^ 64"
proof -
  have "card (insert NULL (set xs)) \<le> card (UNIV :: ptr set)"
    by (rule card_mono) auto
  moreover have "card (insert NULL (set xs)) = Suc (length xs)"
    using assms by (simp add: distinct_card)
  moreover have "card (UNIV :: ptr set) = 2 ^ 64"
    by (simp add: card_word)
  ultimately show ?thesis by simp
qed

section \<open>Words\<close>

lemma unat_ucast_u32_u64 [simp]: "unat (ucast (w :: u32) :: u64) = unat w"
proof -
  have "unat w < 2 ^ 64" using unsigned_less[of w] by (rule less_trans) simp
  then show ?thesis by (simp add: unsigned_ucast_eq take_bit_nat_eq_self)
qed

lemma word_eq_of_unat: "unat (w :: 'a::len word) = n \<Longrightarrow> w = of_nat n"
  by auto

lemma unat_succ:
  assumes "unat (a :: 'a::len word) < unat (b :: 'a word)"
  shows "unat (a + 1) = Suc (unat a)"
proof -
  have "Suc (unat a) \<le> unat b" using assms by simp
  also have "unat b < 2 ^ LENGTH('a)" by (rule unsigned_less)
  finally have "Suc (unat a) < 2 ^ LENGTH('a)" .
  then show ?thesis by (simp add: unat_word_ariths)
qed

end
