(* ===== verification/Intrusive_List.thy ===== *)
theory Intrusive_List
  imports C_Prelude
begin

text \<open>
  The contract of the intrusive list: what a client such as the memory pool may rely on when
  it links its own objects into lists, without seeing the pointers. A store of type
  \<open>'h\<close> \<open>holds\<close>, at a list head, a list of nodes; \<open>same S\<close> relates two stores that
  agree outside the nodes \<open>S\<close>. The lemmas of the locale are the client's: a list used as
  a stack, filling a list from either end, draining it.
\<close>

locale intrusive_list =
  fixes holds :: "'h \<Rightarrow> ptr \<Rightarrow> ptr list \<Rightarrow> bool"
    and alive :: "'h \<Rightarrow> ptr set"
    and same :: "ptr set \<Rightarrow> 'h \<Rightarrow> 'h \<Rightarrow> bool"
    and add :: "ptr \<Rightarrow> ptr \<Rightarrow> 'h \<Rightarrow> 'h res"
    and add_tail :: "ptr \<Rightarrow> ptr \<Rightarrow> 'h \<Rightarrow> 'h res"
    and del :: "ptr \<Rightarrow> 'h \<Rightarrow> 'h res"
    and empty :: "ptr \<Rightarrow> 'h \<Rightarrow> bool res"
    and first :: "ptr \<Rightarrow> ptr \<Rightarrow> 'h \<Rightarrow> ptr res"
  assumes holds_distinct: "holds h L xs \<Longrightarrow> distinct (L # xs)"
    and holds_alive: "holds h L xs \<Longrightarrow> set (L # xs) \<subseteq> alive h"
    and same_refl: "same S h h"
    and same_trans: "same S h h' \<Longrightarrow> same T h' h'' \<Longrightarrow> same (S \<union> T) h h''"
    and same_mono: "same S h h' \<Longrightarrow> S \<subseteq> T \<Longrightarrow> same T h h'"
    and same_alive: "same S h h' \<Longrightarrow> alive h' = alive h"
    and same_holds: "same S h h' \<Longrightarrow> S \<inter> set (L # xs) = {} \<Longrightarrow> holds h' L xs = holds h L xs"
    and add_law: "holds h L xs \<Longrightarrow> x \<in> alive h \<Longrightarrow> x \<notin> set (L # xs)
      \<Longrightarrow> \<exists>h'. add x L h = Inr h' \<and> holds h' L (x # xs) \<and> same (set (x # L # xs)) h h'"
    and add_tail_law: "holds h L xs \<Longrightarrow> x \<in> alive h \<Longrightarrow> x \<notin> set (L # xs)
      \<Longrightarrow> \<exists>h'. add_tail x L h = Inr h' \<and> holds h' L (xs @ [x]) \<and> same (set (x # L # xs)) h h'"
    and del_law: "holds h L (as @ x # bs)
      \<Longrightarrow> \<exists>h'. del x h = Inr h' \<and> holds h' L (as @ bs) \<and> same (set (L # as @ x # bs)) h h'"
    and empty_law: "holds h L xs \<Longrightarrow> empty L h = Inr (xs = [])"
    and first_law: "holds h L (x # xs) \<Longrightarrow> first L off h = Inr (x - off)"
begin

text \<open>The list as a stack.\<close>

lemma push:
  assumes "holds h L xs" and "x \<in> alive h" and "x \<notin> set (L # xs)"
  obtains h' where "add x L h = Inr h'" and "holds h' L (x # xs)"
    and "same (set (x # L # xs)) h h'" and "alive h' = alive h"
  using add_law[OF assms] same_alive by blast

lemma pop:
  assumes "holds h L (x # xs)"
  obtains h' where "empty L h = Inr False" and "first L off h = Inr (x - off)"
    and "del x h = Inr h'" and "holds h' L xs" and "same (set (L # x # xs)) h h'"
    and "alive h' = alive h"
  using del_law[of h L "[]" x xs] empty_law[OF assms] first_law[OF assms] assms same_alive
  by auto

lemma push_pop:
  assumes "holds h L xs" and "x \<in> alive h" and "x \<notin> set (L # xs)"
  obtains h1 h2 where "add x L h = Inr h1" and "first L off h1 = Inr (x - off)"
    and "del x h1 = Inr h2" and "holds h2 L xs" and "same (set (L # x # xs)) h h2"
proof -
  obtain h1 where h1: "add x L h = Inr h1" "holds h1 L (x # xs)" "same (set (x # L # xs)) h h1"
    using push[OF assms] by metis
  obtain h2 where h2: "first L off h1 = Inr (x - off)" "del x h1 = Inr h2" "holds h2 L xs"
      "same (set (L # x # xs)) h1 h2"
    using pop[OF h1(2)] by metis
  have "same (set (L # x # xs)) h h2"
    by (rule same_mono[OF same_trans[OF h1(3) h2(4)]]) auto
  with h1(1) h2(1,2,3) show ?thesis by (rule that)
qed

text \<open>Filling a list one node at a time, from the front and from the back.\<close>

lemma push_all:
  assumes "holds h L xs" and "distinct ys" and "set ys \<subseteq> alive h" and "set ys \<inter> set (L # xs) = {}"
  shows "\<exists>h'. foldF (\<lambda>x s. bindR (add x L s) (\<lambda>s'. Inr (Go s'))) ys h = Inr h'
    \<and> holds h' L (rev ys @ xs) \<and> same (set (L # ys @ xs)) h h'"
  using assms
proof (induction ys arbitrary: h xs)
  case Nil
  then show ?case using same_refl by auto
next
  case (Cons y ys)
  obtain h1 where h1: "add y L h = Inr h1" "holds h1 L (y # xs)" "same (set (y # L # xs)) h h1"
      "alive h1 = alive h"
    using push[of h L xs y] Cons.prems by auto
  obtain h2 where "foldF (\<lambda>x s. bindR (add x L s) (\<lambda>s'. Inr (Go s'))) ys h1 = Inr h2"
      "holds h2 L (rev ys @ y # xs)" "same (set (L # ys @ y # xs)) h1 h2"
    using Cons.IH[OF h1(2)] Cons.prems h1(4) by auto
  then show ?case
    using h1 same_mono[OF same_trans[OF h1(3)], of "set (L # ys @ y # xs)" h2 "set (L # (y # ys) @ xs)"]
    by auto
qed

lemma append_all:
  assumes "holds h L xs" and "distinct ys" and "set ys \<subseteq> alive h" and "set ys \<inter> set (L # xs) = {}"
  shows "\<exists>h'. foldF (\<lambda>x s. bindR (add_tail x L s) (\<lambda>s'. Inr (Go s'))) ys h = Inr h'
    \<and> holds h' L (xs @ ys) \<and> same (set (L # ys @ xs)) h h'"
  using assms
proof (induction ys arbitrary: h xs)
  case Nil
  then show ?case using same_refl by auto
next
  case (Cons y ys)
  obtain h1 where h1: "add_tail y L h = Inr h1" "holds h1 L (xs @ [y])" "same (set (y # L # xs)) h h1"
    using add_tail_law[of h L xs y] Cons.prems by auto
  have al: "alive h1 = alive h" using same_alive h1(3) .
  obtain h2 where "foldF (\<lambda>x s. bindR (add_tail x L s) (\<lambda>s'. Inr (Go s'))) ys h1 = Inr h2"
      "holds h2 L ((xs @ [y]) @ ys)" "same (set (L # ys @ xs @ [y])) h1 h2"
    using Cons.IH[OF h1(2)] Cons.prems al by auto
  then show ?case
    using h1 same_mono[OF same_trans[OF h1(3)], of "set (L # ys @ xs @ [y])" h2 "set (L # (y # ys) @ xs)"]
    by auto
qed

text \<open>Draining a list from the front empties it.\<close>

lemma drain:
  assumes "holds h L xs"
  shows "\<exists>h'. foldF (\<lambda>x s. bindR (del x s) (\<lambda>s'. Inr (Go s'))) xs h = Inr h'
    \<and> holds h' L [] \<and> same (set (L # xs)) h h'"
  using assms
proof (induction xs arbitrary: h)
  case Nil
  then show ?case using same_refl by auto
next
  case (Cons x xs)
  obtain h1 where h1: "del x h = Inr h1" "holds h1 L xs" "same (set (L # x # xs)) h h1"
    using pop[OF Cons.prems] by metis
  obtain h2 where "foldF (\<lambda>x s. bindR (del x s) (\<lambda>s'. Inr (Go s'))) xs h1 = Inr h2"
      "holds h2 L []" "same (set (L # xs)) h1 h2"
    using Cons.IH[OF h1(2)] by auto
  then show ?case
    using h1 same_mono[OF same_trans[OF h1(3)], of "set (L # xs)" h2 "set (L # x # xs)"]
    by auto
qed

end

end
