(* ===== verification/List_Head.thy ===== *)
theory List_Head
  imports Intrusive_List
begin

text \<open>
  \<open>lgu/list/list.h\<close>: the intrusive circular doubly linked list. The store maps the address
  of every allocated \<open>struct list_head\<close> to its two pointers; every operation is the C
  statement sequence over that store, and an access to an address outside it is a
  \<open>SegFault\<close>. \<open>dlist h hd xs\<close> says that the store \<open>h\<close> holds, at the list head
  \<open>hd\<close>, the list of the nodes \<open>xs\<close>; the lemmas give what each operation does to that list.
\<close>

section \<open>Data and primitive accesses\<close>

record list_head =
  lh_next :: ptr
  lh_prev :: ptr

type_synonym lheap = "ptr \<Rightarrow> list_head option"

definition LIST_POISON1 :: ptr where
  "LIST_POISON1 = 0x00100100"

definition LIST_POISON2 :: ptr where
  "LIST_POISON2 = 0x00200200"

definition get_next :: "lheap \<Rightarrow> ptr \<Rightarrow> ptr res" where
  "get_next h p = (case h p of None \<Rightarrow> Inl SegFault | Some n \<Rightarrow> Inr (lh_next n))"

definition get_prev :: "lheap \<Rightarrow> ptr \<Rightarrow> ptr res" where
  "get_prev h p = (case h p of None \<Rightarrow> Inl SegFault | Some n \<Rightarrow> Inr (lh_prev n))"

definition set_next :: "ptr \<Rightarrow> ptr \<Rightarrow> lheap \<Rightarrow> lheap res" where
  "set_next p v h =
     (case h p of None \<Rightarrow> Inl SegFault | Some n \<Rightarrow> Inr (h(p \<mapsto> n\<lparr>lh_next := v\<rparr>)))"

definition set_prev :: "ptr \<Rightarrow> ptr \<Rightarrow> lheap \<Rightarrow> lheap res" where
  "set_prev p v h =
     (case h p of None \<Rightarrow> Inl SegFault | Some n \<Rightarrow> Inr (h(p \<mapsto> n\<lparr>lh_prev := v\<rparr>)))"

section \<open>The operations\<close>

definition INIT_LIST_HEAD :: "ptr \<Rightarrow> lheap \<Rightarrow> lheap res" where
  "INIT_LIST_HEAD p = seqR [set_next p p, set_prev p p]"

text \<open>\<open>__list_add\<close>\<close>

definition raw_list_add :: "ptr \<Rightarrow> ptr \<Rightarrow> ptr \<Rightarrow> lheap \<Rightarrow> lheap res" where
  "raw_list_add new prv nxt =
     seqR [set_prev nxt new, set_next new nxt, set_prev new prv, set_next prv new]"

definition list_add :: "ptr \<Rightarrow> ptr \<Rightarrow> lheap \<Rightarrow> lheap res" where
  "list_add new head h = bindR (get_next h head) (\<lambda>n. raw_list_add new head n h)"

definition list_add_tail :: "ptr \<Rightarrow> ptr \<Rightarrow> lheap \<Rightarrow> lheap res" where
  "list_add_tail new head h = bindR (get_prev h head) (\<lambda>p. raw_list_add new p head h)"

text \<open>\<open>__list_del\<close>, and the call of it on an entry's own neighbours\<close>

definition raw_list_del :: "ptr \<Rightarrow> ptr \<Rightarrow> lheap \<Rightarrow> lheap res" where
  "raw_list_del prv nxt = seqR [set_prev nxt prv, set_next prv nxt]"

definition unlink :: "ptr \<Rightarrow> lheap \<Rightarrow> lheap res" where
  "unlink entry h =
     bindR (get_prev h entry) (\<lambda>p. bindR (get_next h entry) (\<lambda>n. raw_list_del p n h))"

definition list_del :: "ptr \<Rightarrow> lheap \<Rightarrow> lheap res" where
  "list_del entry =
     seqR [unlink entry, set_next entry LIST_POISON1, set_prev entry LIST_POISON2]"

definition list_del_init :: "ptr \<Rightarrow> lheap \<Rightarrow> lheap res" where
  "list_del_init entry = seqR [unlink entry, INIT_LIST_HEAD entry]"

definition list_move :: "ptr \<Rightarrow> ptr \<Rightarrow> lheap \<Rightarrow> lheap res" where
  "list_move entry head = seqR [unlink entry, list_add entry head]"

definition list_move_tail :: "ptr \<Rightarrow> ptr \<Rightarrow> lheap \<Rightarrow> lheap res" where
  "list_move_tail entry head = seqR [unlink entry, list_add_tail entry head]"

definition list_is_last :: "ptr \<Rightarrow> ptr \<Rightarrow> lheap \<Rightarrow> bool res" where
  "list_is_last entry head h = bindR (get_next h entry) (\<lambda>n. Inr (n = head))"

definition list_empty :: "ptr \<Rightarrow> lheap \<Rightarrow> bool res" where
  "list_empty head h = bindR (get_next h head) (\<lambda>n. Inr (n = head))"

text \<open>\<open>__list_splice\<close>\<close>

definition raw_list_splice :: "ptr \<Rightarrow> ptr \<Rightarrow> lheap \<Rightarrow> lheap res" where
  "raw_list_splice lst head h =
     bindR (get_next h lst) (\<lambda>first. bindR (get_prev h lst) (\<lambda>last.
     bindR (get_next h head) (\<lambda>at.
       seqR [set_prev first head, set_next head first, set_next last at, set_prev at last] h)))"

definition list_splice :: "ptr \<Rightarrow> ptr \<Rightarrow> lheap \<Rightarrow> lheap res" where
  "list_splice lst head h =
     bindR (list_empty lst h) (\<lambda>e. if \<not> e then raw_list_splice lst head h else Inr h)"

definition list_splice_init :: "ptr \<Rightarrow> ptr \<Rightarrow> lheap \<Rightarrow> lheap res" where
  "list_splice_init lst head h =
     bindR (list_empty lst h)
       (\<lambda>e. if \<not> e then seqR [raw_list_splice lst head, INIT_LIST_HEAD lst] h else Inr h)"

text \<open>
  \<open>container_of\<close>: from the address of the embedded \<open>list_head\<close> back to the object, at the
  member's offset.
\<close>

definition container_of :: "ptr \<Rightarrow> ptr \<Rightarrow> ptr" where
  "container_of p off = p - off"

definition list_first_entry :: "ptr \<Rightarrow> ptr \<Rightarrow> lheap \<Rightarrow> ptr res" where
  "list_first_entry head off h = bindR (get_next h head) (\<lambda>n. Inr (container_of n off))"

section \<open>The iteration macros\<close>

text \<open>
  The loops run a body on a state from which \<open>hp\<close> reads the store. A store whose links do
  not lead back to the head would loop for ever, so they take fuel; \<open>Diverge\<close> is running
  out of it. \<open>pos\<close> and \<open>n\<close> are the macros' variables, \<open>lnk\<close> the direction
  (\<open>get_next\<close> or \<open>get_prev\<close>), \<open>off\<close> the offset of the member in the entry.
\<close>

type_synonym 's body = "ptr \<Rightarrow> 's \<Rightarrow> 's flow res"

fun node_loop ::
  "(lheap \<Rightarrow> ptr \<Rightarrow> ptr res) \<Rightarrow> nat \<Rightarrow> ('s \<Rightarrow> lheap) \<Rightarrow> ptr \<Rightarrow> 's body \<Rightarrow> ptr \<Rightarrow> 's \<Rightarrow> 's res"
where
  "node_loop lnk 0 hp head body pos s = Inl Diverge"
| "node_loop lnk (Suc k) hp head body pos s =
     (if pos = head then Inr s
      else bindR (body pos s) (\<lambda>r. case r of Stop s' \<Rightarrow> Inr s' | Go s' \<Rightarrow>
        bindR (lnk (hp s') pos) (\<lambda>p. node_loop lnk k hp head body p s')))"

definition list_for_each :: "nat \<Rightarrow> ('s \<Rightarrow> lheap) \<Rightarrow> ptr \<Rightarrow> 's body \<Rightarrow> 's \<Rightarrow> 's res" where
  "list_for_each fuel hp head body s =
     bindR (get_next (hp s) head) (\<lambda>p. node_loop get_next fuel hp head body p s)"

definition list_for_each_prev :: "nat \<Rightarrow> ('s \<Rightarrow> lheap) \<Rightarrow> ptr \<Rightarrow> 's body \<Rightarrow> 's \<Rightarrow> 's res" where
  "list_for_each_prev fuel hp head body s =
     bindR (get_prev (hp s) head) (\<lambda>p. node_loop get_prev fuel hp head body p s)"

text \<open>The safe loops read the successor before the body runs, so the body may delete \<open>pos\<close>.\<close>

fun safe_loop :: "nat \<Rightarrow> ('s \<Rightarrow> lheap) \<Rightarrow> ptr \<Rightarrow> 's body \<Rightarrow> ptr \<Rightarrow> ptr \<Rightarrow> 's \<Rightarrow> 's res" where
  "safe_loop 0 hp head body pos n s = Inl Diverge"
| "safe_loop (Suc k) hp head body pos n s =
     (if pos = head then Inr s
      else bindR (body pos s) (\<lambda>r. case r of Stop s' \<Rightarrow> Inr s' | Go s' \<Rightarrow>
        bindR (get_next (hp s') n) (\<lambda>p. safe_loop k hp head body n p s')))"

definition list_for_each_safe :: "nat \<Rightarrow> ('s \<Rightarrow> lheap) \<Rightarrow> ptr \<Rightarrow> 's body \<Rightarrow> 's \<Rightarrow> 's res" where
  "list_for_each_safe fuel hp head body s =
     bindR (get_next (hp s) head) (\<lambda>pos. bindR (get_next (hp s) pos) (\<lambda>n.
       safe_loop fuel hp head body pos n s))"

text \<open>The loops over entries: \<open>pos\<close> is the containing object.\<close>

fun entry_loop ::
  "(lheap \<Rightarrow> ptr \<Rightarrow> ptr res) \<Rightarrow> nat \<Rightarrow> ('s \<Rightarrow> lheap) \<Rightarrow> ptr \<Rightarrow> ptr \<Rightarrow> 's body \<Rightarrow> ptr \<Rightarrow> 's \<Rightarrow> 's res"
where
  "entry_loop lnk 0 hp head off body pos s = Inl Diverge"
| "entry_loop lnk (Suc k) hp head off body pos s =
     (if pos + off = head then Inr s
      else bindR (body pos s) (\<lambda>r. case r of Stop s' \<Rightarrow> Inr s' | Go s' \<Rightarrow>
        bindR (lnk (hp s') (pos + off)) (\<lambda>p.
          entry_loop lnk k hp head off body (container_of p off) s')))"

definition list_for_each_entry ::
  "nat \<Rightarrow> ('s \<Rightarrow> lheap) \<Rightarrow> ptr \<Rightarrow> ptr \<Rightarrow> 's body \<Rightarrow> 's \<Rightarrow> 's res" where
  "list_for_each_entry fuel hp head off body s =
     bindR (get_next (hp s) head) (\<lambda>p.
       entry_loop get_next fuel hp head off body (container_of p off) s)"

definition list_for_each_entry_reverse ::
  "nat \<Rightarrow> ('s \<Rightarrow> lheap) \<Rightarrow> ptr \<Rightarrow> ptr \<Rightarrow> 's body \<Rightarrow> 's \<Rightarrow> 's res" where
  "list_for_each_entry_reverse fuel hp head off body s =
     bindR (get_prev (hp s) head) (\<lambda>p.
       entry_loop get_prev fuel hp head off body (container_of p off) s)"

definition list_prepare_entry :: "ptr \<Rightarrow> ptr \<Rightarrow> ptr \<Rightarrow> ptr" where
  "list_prepare_entry pos head off = (if pos \<noteq> NULL then pos else container_of head off)"

definition list_for_each_entry_continue ::
  "nat \<Rightarrow> ('s \<Rightarrow> lheap) \<Rightarrow> ptr \<Rightarrow> ptr \<Rightarrow> 's body \<Rightarrow> ptr \<Rightarrow> 's \<Rightarrow> 's res" where
  "list_for_each_entry_continue fuel hp head off body pos s =
     bindR (get_next (hp s) (pos + off)) (\<lambda>p.
       entry_loop get_next fuel hp head off body (container_of p off) s)"

fun entry_safe_loop ::
  "(lheap \<Rightarrow> ptr \<Rightarrow> ptr res) \<Rightarrow> nat \<Rightarrow> ('s \<Rightarrow> lheap) \<Rightarrow> ptr \<Rightarrow> ptr \<Rightarrow> 's body
    \<Rightarrow> ptr \<Rightarrow> ptr \<Rightarrow> 's \<Rightarrow> 's res" where
  "entry_safe_loop lnk 0 hp head off body pos n s = Inl Diverge"
| "entry_safe_loop lnk (Suc k) hp head off body pos n s =
     (if pos + off = head then Inr s
      else bindR (body pos s) (\<lambda>r. case r of Stop s' \<Rightarrow> Inr s' | Go s' \<Rightarrow>
        bindR (lnk (hp s') (n + off)) (\<lambda>p.
          entry_safe_loop lnk k hp head off body n (container_of p off) s')))"

definition list_for_each_entry_safe ::
  "nat \<Rightarrow> ('s \<Rightarrow> lheap) \<Rightarrow> ptr \<Rightarrow> ptr \<Rightarrow> 's body \<Rightarrow> 's \<Rightarrow> 's res" where
  "list_for_each_entry_safe fuel hp head off body s =
     bindR (get_next (hp s) head) (\<lambda>p. let pos = container_of p off in
     bindR (get_next (hp s) (pos + off)) (\<lambda>q.
       entry_safe_loop get_next fuel hp head off body pos (container_of q off) s))"

definition list_for_each_entry_safe_continue ::
  "nat \<Rightarrow> ('s \<Rightarrow> lheap) \<Rightarrow> ptr \<Rightarrow> ptr \<Rightarrow> 's body \<Rightarrow> ptr \<Rightarrow> 's \<Rightarrow> 's res" where
  "list_for_each_entry_safe_continue fuel hp head off body pos0 s =
     bindR (get_next (hp s) (pos0 + off)) (\<lambda>p. let pos = container_of p off in
     bindR (get_next (hp s) (pos + off)) (\<lambda>q.
       entry_safe_loop get_next fuel hp head off body pos (container_of q off) s))"

text \<open>
  \<open>list_for_each_entry_safe_reverse\<close> starts towards \<open>prev\<close>, and advances \<open>n\<close> by
  \<open>n->member.prev\<close>.
\<close>

definition list_for_each_entry_safe_reverse ::
  "nat \<Rightarrow> ('s \<Rightarrow> lheap) \<Rightarrow> ptr \<Rightarrow> ptr \<Rightarrow> 's body \<Rightarrow> 's \<Rightarrow> 's res" where
  "list_for_each_entry_safe_reverse fuel hp head off body s =
     bindR (get_prev (hp s) head) (\<lambda>p. let pos = container_of p off in
     bindR (get_prev (hp s) (pos + off)) (\<lambda>q.
       entry_safe_loop get_prev fuel hp head off body pos (container_of q off) s))"

section \<open>The field views of a store\<close>

definition nx :: "lheap \<Rightarrow> ptr \<Rightarrow> ptr option" where
  "nx h p = map_option lh_next (h p)"

definition pv :: "lheap \<Rightarrow> ptr \<Rightarrow> ptr option" where
  "pv h p = map_option lh_prev (h p)"

definition with_next :: "lheap \<Rightarrow> ptr \<Rightarrow> ptr \<Rightarrow> lheap" where
  "with_next h p v = h(p \<mapsto> (the (h p))\<lparr>lh_next := v\<rparr>)"

definition with_prev :: "lheap \<Rightarrow> ptr \<Rightarrow> ptr \<Rightarrow> lheap" where
  "with_prev h p v = h(p \<mapsto> (the (h p))\<lparr>lh_prev := v\<rparr>)"

lemma dom_with [simp]:
  "dom (with_next h p v) = insert p (dom h)"
  "dom (with_prev h p v) = insert p (dom h)"
  by (auto simp: with_next_def with_prev_def)

lemma with_other [simp]:
  "q \<noteq> p \<Longrightarrow> with_next h p v q = h q"
  "q \<noteq> p \<Longrightarrow> with_prev h p v q = h q"
  by (simp_all add: with_next_def with_prev_def)

lemma nx_with [simp]:
  "nx (with_next h p v) = (nx h)(p \<mapsto> v)"
  "p \<in> dom h \<Longrightarrow> nx (with_prev h p v) = nx h"
  by (auto simp: nx_def with_next_def with_prev_def fun_eq_iff)

lemma pv_with [simp]:
  "pv (with_prev h p v) = (pv h)(p \<mapsto> v)"
  "p \<in> dom h \<Longrightarrow> pv (with_next h p v) = pv h"
  by (auto simp: pv_def with_next_def with_prev_def fun_eq_iff)

lemma nx_dom: "nx h p = Some q \<Longrightarrow> p \<in> dom h"
  by (auto simp: nx_def)

lemma pv_dom: "pv h p = Some q \<Longrightarrow> p \<in> dom h"
  by (auto simp: pv_def)

lemma get_next_nx: "nx h p = Some q \<Longrightarrow> get_next h p = Inr q"
  by (auto simp: nx_def get_next_def)

lemma get_prev_pv: "pv h p = Some q \<Longrightarrow> get_prev h p = Inr q"
  by (auto simp: pv_def get_prev_def)

lemma set_next_run: "p \<in> dom h \<Longrightarrow> set_next p v h = Inr (with_next h p v)"
  by (auto simp: set_next_def with_next_def)

lemma set_prev_run: "p \<in> dom h \<Longrightarrow> set_prev p v h = Inr (with_prev h p v)"
  by (auto simp: set_prev_def with_prev_def)

text \<open>\<open>frame S h h'\<close>: the same objects are allocated and only those in \<open>S\<close> may differ.\<close>

definition frame :: "ptr set \<Rightarrow> lheap \<Rightarrow> lheap \<Rightarrow> bool" where
  "frame S h h' \<longleftrightarrow> dom h' = dom h \<and> (\<forall>q. q \<notin> S \<longrightarrow> h' q = h q)"

lemma frameI: "dom h' = dom h \<Longrightarrow> (\<And>q. q \<notin> S \<Longrightarrow> h' q = h q) \<Longrightarrow> frame S h h'"
  by (simp add: frame_def)

lemma frame_dom: "frame S h h' \<Longrightarrow> dom h' = dom h"
  by (simp add: frame_def)

lemma frame_other: "frame S h h' \<Longrightarrow> q \<notin> S \<Longrightarrow> h' q = h q"
  by (simp add: frame_def)

lemma frame_refl: "frame S h h"
  by (simp add: frame_def)

lemma frame_trans: "frame S h h' \<Longrightarrow> frame T h' h'' \<Longrightarrow> frame (S \<union> T) h h''"
  by (simp add: frame_def)

lemma frame_mono: "frame S h h' \<Longrightarrow> S \<subseteq> T \<Longrightarrow> frame T h h'"
  by (auto simp: frame_def)

lemma frame_with:
  "frame S h h' \<Longrightarrow> p \<in> S \<Longrightarrow> p \<in> dom h' \<Longrightarrow> frame S h (with_next h' p v)"
  "frame S h h' \<Longrightarrow> p \<in> S \<Longrightarrow> p \<in> dom h' \<Longrightarrow> frame S h (with_prev h' p v)"
  by (simp_all add: frame_def insert_absorb with_next_def with_prev_def)

lemma frame_upd: "frame S h h' \<Longrightarrow> p \<in> S \<Longrightarrow> p \<in> dom h' \<Longrightarrow> frame S h (h'(p \<mapsto> v))"
  by (simp add: frame_def insert_absorb)

lemma INIT_LIST_HEAD_run:
  "p \<in> dom h \<Longrightarrow> INIT_LIST_HEAD p h = Inr (with_prev (with_next h p p) p p)"
  by (simp add: INIT_LIST_HEAD_def set_next_run set_prev_run)

lemma raw_list_add_run:
  "\<lbrakk>new \<in> dom h; prv \<in> dom h; nxt \<in> dom h\<rbrakk> \<Longrightarrow> raw_list_add new prv nxt h =
     Inr (with_next (with_prev (with_next (with_prev h nxt new) new nxt) new prv) prv new)"
  by (simp add: raw_list_add_def set_next_run set_prev_run)

lemma raw_list_del_run:
  "\<lbrakk>prv \<in> dom h; nxt \<in> dom h\<rbrakk> \<Longrightarrow>
     raw_list_del prv nxt h = Inr (with_next (with_prev h nxt prv) prv nxt)"
  by (simp add: raw_list_del_def set_next_run set_prev_run)

section \<open>The list a store holds at a head\<close>

definition dlist :: "lheap \<Rightarrow> ptr \<Rightarrow> ptr list \<Rightarrow> bool" where
  "dlist h L xs \<longleftrightarrow> distinct (L # xs)
     \<and> map (nx h) (L # xs) = map Some (xs @ [L])
     \<and> map (pv h) (xs @ [L]) = map Some (L # xs)"

lemma dlist_cut:
  assumes "L # as = ps @ [p]" and "bs @ [L] = n # ns"
  shows "dlist h L (as @ bs) \<longleftrightarrow> distinct (L # as @ bs)
     \<and> map (nx h) ps = map Some as \<and> nx h p = Some n \<and> map (nx h) bs = map Some ns
     \<and> map (pv h) as = map Some ps \<and> pv h n = Some p \<and> map (pv h) ns = map Some bs"
proof -
  have l: "length ps = length as" using assms(1) by (metis length_append_singleton length_Cons nat.inject)
  have e: "L # as @ bs = ps @ p # bs" "(as @ bs) @ [L] = as @ n # ns"
    using assms by (metis Cons_eq_appendI append_assoc append_Cons append_Nil)+
  show ?thesis
    unfolding dlist_def e using l by auto
qed


lemma dlist_cut_node:
  assumes "L # as = ps @ [p]" and "bs @ [L] = n # ns"
  shows "dlist h L (as @ x # bs) \<longleftrightarrow> distinct (L # as @ x # bs)
     \<and> map (nx h) ps = map Some as \<and> nx h p = Some x \<and> nx h x = Some n
     \<and> map (nx h) bs = map Some ns
     \<and> map (pv h) as = map Some ps \<and> pv h x = Some p \<and> pv h n = Some x
     \<and> map (pv h) ns = map Some bs"
proof -
  have l: "length ps = length as" using assms(1) by (metis length_append_singleton length_Cons nat.inject)
  have e: "L # as @ x # bs = ps @ p # x # bs" "(as @ x # bs) @ [L] = as @ x # n # ns"
    using assms by (metis Cons_eq_appendI append_assoc append_Cons append_Nil)+
  show ?thesis
    unfolding dlist_def e using l by auto
qed

text \<open>Every position of a circular list has a node before and a node after it.\<close>

lemma cut_ends:
  obtains ps p n ns where "L # as = ps @ [p]" and "bs @ [L] = n # ns"
    and "p \<in> set (L # as)" and "n \<in> set (bs @ [L])"
    and "p = last (L # as)" and "n = List.hd (bs @ [L])"
proof -
  obtain ps p where "L # as = ps @ [p]" by (cases "L # as" rule: rev_cases) auto
  moreover obtain n ns where "bs @ [L] = n # ns" by (cases "bs @ [L]") auto
  ultimately show ?thesis using that
    by (metis last_snoc list.sel(1) list.set_intros(1) in_set_conv_decomp)
qed

lemma dlist_distinct: "dlist h L xs \<Longrightarrow> distinct (L # xs)"
  by (simp add: dlist_def)

lemma dlist_dom: "dlist h L xs \<Longrightarrow> set (L # xs) \<subseteq> dom h"
proof -
  assume "dlist h L xs"
  then have "map (nx h) (L # xs) = map Some (xs @ [L])" by (simp add: dlist_def)
  then have "\<And>q. q \<in> set (L # xs) \<Longrightarrow> nx h q \<in> Some ` set (xs @ [L])"
    by (metis image_eqI list.set_map)
  then show ?thesis by (auto dest!: nx_dom)
qed

lemma dlist_cong:
  assumes "\<And>q. q \<in> set (L # xs) \<Longrightarrow> h' q = h q"
  shows "dlist h' L xs \<longleftrightarrow> dlist h L xs"
proof -
  have "map (nx h') (L # xs) = map (nx h) (L # xs)" "map (pv h') (xs @ [L]) = map (pv h) (xs @ [L])"
    using assms by (simp_all add: nx_def pv_def)
  then show ?thesis unfolding dlist_def by (simp only:)
qed

lemma dlist_Nil [simp]: "dlist h L [] \<longleftrightarrow> nx h L = Some L \<and> pv h L = Some L"
  by (auto simp: dlist_def)

lemma dlist_next_last: "dlist h L (as @ [x]) \<Longrightarrow> nx h x = Some L \<and> pv h L = Some x"
  by (simp add: dlist_def append_eq_append_conv)

lemma dlist_first: "dlist h L xs \<Longrightarrow> nx h L = Some (List.hd (xs @ [L]))"
  by (cases xs) (auto simp: dlist_def)

lemma dlist_last: "dlist h L xs \<Longrightarrow> pv h L = Some (last (L # xs))"
  by (cases xs rule: rev_cases) (auto simp: dlist_def)

text \<open>The two changes every operation is made of: a node goes in, a node goes out.\<close>

lemma cut_eqs:
  assumes "L # as = ps @ [p]" and "bs @ [L] = n # ns"
  shows "ps @ p # bs = L # as @ bs" and "as @ n # ns = (as @ bs) @ [L]"
  using assms by simp_all

lemma dlist_insert:
  assumes d: "dlist h L (as @ bs)" and new: "new \<in> dom h" "new \<notin> set (L # as @ bs)"
    and p: "p = last (L # as)" and n: "n = List.hd (bs @ [L])"
  obtains h' where "raw_list_add new p n h = Inr h'" and "dlist h' L (as @ new # bs)"
    and "frame (set (new # L # as @ bs)) h h'"
proof -
  obtain ps ns where c: "L # as = ps @ [p]" "bs @ [L] = n # ns"
    and pn: "p \<in> set (L # as)" "n \<in> set (bs @ [L])"
    using cut_ends[of L as bs] p n by metis
  have dm: "p \<in> dom h" "n \<in> dom h" using dlist_dom[OF d] pn by auto
  have ds: "distinct (ps @ p # bs)" "distinct (as @ n # ns)" "new \<notin> set (ps @ p # bs)" "new \<notin> set (as @ n # ns)"
    unfolding cut_eqs[OF c] using dlist_distinct[OF d] new by auto
  let ?h = "with_next (with_prev (with_next (with_prev h n new) new n) new p) p new"
  have run: "raw_list_add new p n h = Inr ?h"
    using dm new by (simp add: raw_list_add_run)
  have old: "map (nx h) ps = map Some as" "nx h p = Some n" "map (nx h) bs = map Some ns"
     "map (pv h) as = map Some ps" "pv h n = Some p" "map (pv h) ns = map Some bs"
    using d unfolding dlist_cut[OF c] by auto
  have "nx ?h = (nx h)(new \<mapsto> n, p \<mapsto> new)" "pv ?h = (pv h)(n \<mapsto> new, new \<mapsto> p)"
    using dm new by simp_all
  then have "dlist ?h L (as @ new # bs)"
    unfolding dlist_cut_node[OF c] using old ds new dlist_distinct[OF d] by auto
  moreover have "frame (set (new # L # as @ bs)) h ?h"
    using dm new pn by (intro frame_with frame_refl) auto
  ultimately show ?thesis using that run by blast
qed

lemma dlist_remove:
  assumes d: "dlist h L (as @ x # bs)"
  obtains h' where "unlink x h = Inr h'" and "dlist h' L (as @ bs)"
    and "frame (set (L # as @ bs)) h h'"
proof -
  obtain ps p n ns where c: "L # as = ps @ [p]" "bs @ [L] = n # ns"
    and pn: "p \<in> set (L # as)" "n \<in> set (bs @ [L])"
    using cut_ends[of L as bs] by metis
  have dm: "p \<in> dom h" "n \<in> dom h" using dlist_dom[OF d] pn by auto
  have ds: "distinct (ps @ p # bs)" "distinct (as @ n # ns)"
    unfolding cut_eqs[OF c] using dlist_distinct[OF d] by auto
  have old: "map (nx h) ps = map Some as" "nx h p = Some x" "nx h x = Some n"
     "map (nx h) bs = map Some ns" "map (pv h) as = map Some ps" "pv h x = Some p"
     "pv h n = Some x" "map (pv h) ns = map Some bs"
    using d unfolding dlist_cut_node[OF c] by auto
  let ?h = "with_next (with_prev h n p) p n"
  have run: "unlink x h = Inr ?h"
    using dm old by (simp add: unlink_def get_next_nx get_prev_pv raw_list_del_run)
  have "nx ?h = (nx h)(p \<mapsto> n)" "pv ?h = (pv h)(n \<mapsto> p)"
    using dm by simp_all
  then have "dlist ?h L (as @ bs)"
    unfolding dlist_cut[OF c] using old ds dlist_distinct[OF d] by auto
  moreover have "frame (set (L # as @ bs)) h ?h"
    using dm pn by (intro frame_with frame_refl) auto
  ultimately show ?thesis using that run by blast
qed

section \<open>What each operation does to the list\<close>

lemma frame_dlist: "frame S h h' \<Longrightarrow> S \<inter> set (L # xs) = {} \<Longrightarrow> dlist h' L xs \<longleftrightarrow> dlist h L xs"
  by (rule dlist_cong) (auto simp: frame_def)

lemma list_add_dlist:
  assumes d: "dlist h L xs" and new: "new \<in> dom h" "new \<notin> set (L # xs)"
  obtains h' where "list_add new L h = Inr h'" and "dlist h' L (new # xs)"
    and "frame (set (new # L # xs)) h h'"
proof -
  obtain h' where "raw_list_add new L (List.hd (xs @ [L])) h = Inr h'" "dlist h' L (new # xs)"
      "frame (set (new # L # xs)) h h'"
    using dlist_insert[of h L "[]" xs new L "List.hd (xs @ [L])"] d new by auto
  then show ?thesis
    using that dlist_first[OF d] by (auto simp: list_add_def get_next_nx)
qed

lemma list_add_tail_dlist:
  assumes d: "dlist h L xs" and new: "new \<in> dom h" "new \<notin> set (L # xs)"
  obtains h' where "list_add_tail new L h = Inr h'" and "dlist h' L (xs @ [new])"
    and "frame (set (new # L # xs)) h h'"
proof -
  obtain h' where "raw_list_add new (last (L # xs)) L h = Inr h'" "dlist h' L (xs @ [new])"
      "frame (set (new # L # xs)) h h'"
    using dlist_insert[of h L xs "[]" new "last (L # xs)" L] d new by auto
  then show ?thesis
    using that dlist_last[OF d] by (auto simp: list_add_tail_def get_prev_pv)
qed

text \<open>The entry itself keeps its links in \<open>__list_del\<close>; what follows writes them.\<close>

lemma with_both: "p \<in> dom h \<Longrightarrow>
    with_prev (with_next h p a) p b = h(p \<mapsto> \<lparr>lh_next = a, lh_prev = b\<rparr>)"
  by (auto simp: with_prev_def with_next_def)

lemma unlink_then_write:
  assumes d: "dlist h L (as @ x # bs)"
  obtains h' where "unlink x h = Inr h'" and "dlist (h'(x \<mapsto> v)) L (as @ bs)"
    and "x \<in> dom h'" and "frame (set (L # as @ x # bs)) h (h'(x \<mapsto> v))"
proof -
  obtain h' where h': "unlink x h = Inr h'" "dlist h' L (as @ bs)"
      "frame (set (L # as @ bs)) h h'"
    using dlist_remove[OF d] .
  have x: "x \<notin> set (L # as @ bs)" using dlist_distinct[OF d] by auto
  have xd: "x \<in> dom h'" using dlist_dom[OF d] frame_dom[OF h'(3)] by auto
  have "dlist (h'(x \<mapsto> v)) L (as @ bs)"
    using h'(2) x by (subst dlist_cong[of _ _ _ h']) auto
  moreover have "frame (set (L # as @ x # bs)) h (h'(x \<mapsto> v))"
    using xd by (intro frame_upd frame_mono[OF h'(3)]) auto
  ultimately show ?thesis using that h'(1) xd by blast
qed

definition poisoned :: list_head where
  "poisoned = \<lparr>lh_next = LIST_POISON1, lh_prev = LIST_POISON2\<rparr>"

lemma list_del_dlist:
  assumes d: "dlist h L (as @ x # bs)"
  obtains h' where "list_del x h = Inr h'" and "dlist h' L (as @ bs)"
    and "h' x = Some poisoned" and "frame (set (L # as @ x # bs)) h h'"
proof -
  obtain h' where h': "unlink x h = Inr h'" "dlist (h'(x \<mapsto> poisoned)) L (as @ bs)"
      "x \<in> dom h'" "frame (set (L # as @ x # bs)) h (h'(x \<mapsto> poisoned))"
    using unlink_then_write[OF d] by metis
  have "list_del x h = Inr (h'(x \<mapsto> poisoned))"
    using h'(1,3) by (simp add: list_del_def set_next_run set_prev_run with_both poisoned_def)
  then show ?thesis using that h' by simp
qed

lemma list_del_init_dlist:
  assumes d: "dlist h L (as @ x # bs)"
  obtains h' where "list_del_init x h = Inr h'" and "dlist h' L (as @ bs)"
    and "dlist h' x []" and "frame (set (L # as @ x # bs)) h h'"
proof -
  let ?v = "\<lparr>lh_next = x, lh_prev = x\<rparr>"
  obtain h' where h': "unlink x h = Inr h'" "dlist (h'(x \<mapsto> ?v)) L (as @ bs)"
      "x \<in> dom h'" "frame (set (L # as @ x # bs)) h (h'(x \<mapsto> ?v))"
    using unlink_then_write[OF d] by metis
  have "list_del_init x h = Inr (h'(x \<mapsto> ?v))"
    using h'(1,3) by (simp add: list_del_init_def INIT_LIST_HEAD_run with_both)
  moreover have "dlist (h'(x \<mapsto> ?v)) x []" by (simp add: nx_def pv_def)
  ultimately show ?thesis using that h' by blast
qed

text \<open>Moving an entry: within its list, and to another list whose nodes are apart.\<close>

lemma unlink_dlist:
  assumes "dlist h L (as @ x # bs)"
  obtains h' where "unlink x h = Inr h'" and "dlist h' L (as @ bs)" and "x \<in> dom h'"
    and "frame (set (L # as @ bs)) h h'"
proof -
  obtain h' where h': "unlink x h = Inr h'" "dlist h' L (as @ bs)" "frame (set (L # as @ bs)) h h'"
    using dlist_remove[OF assms] .
  moreover have "x \<in> dom h'" using dlist_dom[OF assms] frame_dom[OF h'(3)] by auto
  ultimately show ?thesis using that by blast
qed

lemma list_move_same:
  assumes d: "dlist h L (as @ x # bs)"
  obtains h' where "list_move x L h = Inr h'" and "dlist h' L (x # as @ bs)"
    and "frame (set (L # as @ x # bs)) h h'"
proof -
  obtain h1 where h1: "unlink x h = Inr h1" "dlist h1 L (as @ bs)" "x \<in> dom h1"
      "frame (set (L # as @ bs)) h h1" using unlink_dlist[OF d] .
  have "x \<notin> set (L # as @ bs)" using dlist_distinct[OF d] by auto
  then obtain h2 where h2: "list_add x L h1 = Inr h2" "dlist h2 L (x # as @ bs)"
      "frame (set (x # L # as @ bs)) h1 h2" using list_add_dlist[OF h1(2,3)] by metis
  then show ?thesis
    using that[of h2] h1 h2 frame_mono[OF frame_trans[OF h1(4) h2(3)], of "set (L # as @ x # bs)"]
    by (auto simp: list_move_def)
qed

lemma list_move_tail_same:
  assumes d: "dlist h L (as @ x # bs)"
  obtains h' where "list_move_tail x L h = Inr h'" and "dlist h' L (as @ bs @ [x])"
    and "frame (set (L # as @ x # bs)) h h'"
proof -
  obtain h1 where h1: "unlink x h = Inr h1" "dlist h1 L (as @ bs)" "x \<in> dom h1"
      "frame (set (L # as @ bs)) h h1" using unlink_dlist[OF d] .
  have "x \<notin> set (L # as @ bs)" using dlist_distinct[OF d] by auto
  then obtain h2 where h2: "list_add_tail x L h1 = Inr h2" "dlist h2 L ((as @ bs) @ [x])"
      "frame (set (x # L # as @ bs)) h1 h2" using list_add_tail_dlist[OF h1(2,3)] by metis
  then show ?thesis
    using that[of h2] h1 h2 frame_mono[OF frame_trans[OF h1(4) h2(3)], of "set (L # as @ x # bs)"]
    by (auto simp: list_move_tail_def)
qed

lemma list_move_across:
  assumes d: "dlist h L (as @ x # bs)" and e: "dlist h M ys"
    and disj: "set (L # as @ x # bs) \<inter> set (M # ys) = {}"
  obtains h' where "list_move x M h = Inr h'" and "dlist h' L (as @ bs)" and "dlist h' M (x # ys)"
    and "frame (set (L # as @ x # bs) \<union> set (M # ys)) h h'"
proof -
  obtain h1 where h1: "unlink x h = Inr h1" "dlist h1 L (as @ bs)" "x \<in> dom h1"
      "frame (set (L # as @ bs)) h h1" using unlink_dlist[OF d] .
  have e1: "dlist h1 M ys" using frame_dlist[OF h1(4)] disj e by auto
  have x: "x \<notin> set (M # ys)" "x \<notin> set (L # as @ bs)" using disj dlist_distinct[OF d] by auto
  obtain h2 where h2: "list_add x M h1 = Inr h2" "dlist h2 M (x # ys)"
      "frame (set (x # M # ys)) h1 h2" using list_add_dlist[OF e1 h1(3) x(1)] .
  have "dlist h2 L (as @ bs)" using frame_dlist[OF h2(3), of L "as @ bs"] disj x h1(2) by auto
  then show ?thesis
    using that[of h2] h1 h2 frame_mono[OF frame_trans[OF h1(4) h2(3)],
        of "set (L # as @ x # bs) \<union> set (M # ys)"]
    by (auto simp: list_move_def)
qed

lemma list_empty_dlist: "dlist h L xs \<Longrightarrow> list_empty L h = Inr (xs = [])"
  using dlist_distinct[of h L xs] dlist_first[of h L xs]
  by (cases xs) (auto simp: list_empty_def get_next_nx)

lemma list_is_last_dlist: "dlist h L (as @ x # bs) \<Longrightarrow> list_is_last x L h = Inr (bs = [])"
proof -
  assume d: "dlist h L (as @ x # bs)"
  obtain ps p n ns where c: "L # as = ps @ [p]" "bs @ [L] = n # ns" using cut_ends[of L as bs] .
  then have "nx h x = Some n" using d dlist_cut_node by blast
  moreover have "n = L \<longleftrightarrow> bs = []" using c(2) dlist_distinct[OF d] by (cases bs) auto
  ultimately show ?thesis by (simp add: list_is_last_def get_next_nx)
qed

lemma list_first_entry_dlist:
  "dlist h L (x # xs) \<Longrightarrow> list_first_entry L off h = Inr (container_of x off)"
  using dlist_first[of h L "x # xs"] by (simp add: list_first_entry_def get_next_nx)

lemma container_of_add [simp]: "container_of p off + off = p" "container_of (p + off) off = p"
  by (simp_all add: container_of_def)

section \<open>Joining lists\<close>

lemma raw_list_splice_dlist:
  assumes d: "dlist h M ys" and e: "dlist h L xs" and disj: "set (M # ys) \<inter> set (L # xs) = {}"
    and ne: "ys \<noteq> []"
  obtains h' where "raw_list_splice M L h = Inr h'" and "dlist h' L (ys @ xs)"
    and "frame (set (L # ys @ xs)) h h'"
proof -
  obtain y yr where y: "ys = y # yr" using ne by (cases ys) auto
  obtain yi z where z: "ys = yi @ [z]" using ne by (cases ys rule: rev_cases) auto
  obtain n ns where n: "xs @ [L] = n # ns" by (cases "xs @ [L]") auto
  have my: "map (nx h) yi = map Some yr" "map (pv h) yr = map Some yi" "nx h M = Some y" "pv h M = Some z"
  proof -
    have e: "M # ys = (M # yi) @ [z]" "ys @ [M] = (y # yr) @ [M]" using y z by simp_all
    have "map (nx h) ((M # yi) @ [z]) = map Some ((y # yr) @ [M])"
      using d unfolding dlist_def e by blast
    then show "map (nx h) yi = map Some yr" "nx h M = Some y" by simp_all
    have "map (pv h) ((y # yr) @ [M]) = map Some ((M # yi) @ [z])"
      using d unfolding dlist_def e by blast
    then show "map (pv h) yr = map Some yi" "pv h M = Some z" by simp_all
  qed
  have ml: "nx h L = Some n" "map (nx h) xs = map Some ns" "pv h n = Some L" "map (pv h) ns = map Some xs"
    using e unfolding dlist_def n list.map list.inject by blast+
  have dm: "set (M # ys) \<subseteq> dom h" "set (L # xs) \<subseteq> dom h"
    using dlist_dom d e by blast+
  have yz: "y \<in> set ys" "z \<in> set ys" by (simp add: y) (simp add: z)
  have nin: "n \<in> set (L # xs)" using n hd_append_single_in[of xs L] by auto
  have dis: "distinct (M # ys)" "distinct (L # xs)" using dlist_distinct d e by blast+
  let ?h = "with_prev (with_next (with_next (with_prev h y L) L y) z n) n z"
  have in_h: "y \<in> dom h" "z \<in> dom h" "n \<in> dom h" "L \<in> dom h"
    using dm yz nin by auto
  have run: "raw_list_splice M L h = Inr ?h"
    using my ml in_h by (simp add: raw_list_splice_def get_next_nx get_prev_pv set_next_run set_prev_run)
  have f: "nx ?h = (nx h)(L \<mapsto> y, z \<mapsto> n)" "pv ?h = (pv h)(y \<mapsto> L, n \<mapsto> z)"
    using in_h by simp_all
  have e1: "L # ys @ xs = L # yi @ z # xs" by (simp add: z)
  have e2: "(ys @ xs) @ [L] = y # yr @ n # ns" using n by (simp add: y)
  have dj: "distinct (L # ys @ xs)" using dis disj by auto
  then have dj1: "distinct (L # yi @ z # xs)" unfolding e1 .
  have "distinct ((ys @ xs) @ [L])" using dj by simp
  then have dj2: "distinct (y # yr @ n # ns)" unfolding e2 .
  have "map (nx ?h) (L # yi @ z # xs) = map Some (y # yr @ n # ns)"
    unfolding f using dj1 my ml by auto
  moreover have "map (pv ?h) (y # yr @ n # ns) = map Some (L # yi @ z # xs)"
    unfolding f using dj2 my ml by auto
  ultimately have "dlist ?h L (ys @ xs)"
    unfolding dlist_def e1 e2 using dj1 by blast
  moreover have "frame (set (L # ys @ xs)) h ?h"
    using in_h yz nin by (intro frame_with frame_refl) auto
  ultimately show ?thesis using that run by blast
qed

lemma list_splice_dlist:
  assumes d: "dlist h M ys" and e: "dlist h L xs" and disj: "set (M # ys) \<inter> set (L # xs) = {}"
  obtains h' where "list_splice M L h = Inr h'" and "dlist h' L (ys @ xs)"
    and "frame (set (L # ys @ xs)) h h'"
proof (cases "ys = []")
  case True
  then show ?thesis using that[of h] e list_empty_dlist[OF d] by (simp add: list_splice_def frame_refl)
next
  case False
  obtain h' where "raw_list_splice M L h = Inr h'" "dlist h' L (ys @ xs)" "frame (set (L # ys @ xs)) h h'"
    using raw_list_splice_dlist[OF d e disj False] .
  then show ?thesis using that False list_empty_dlist[OF d] by (simp add: list_splice_def)
qed

lemma list_splice_init_dlist:
  assumes d: "dlist h M ys" and e: "dlist h L xs" and disj: "set (M # ys) \<inter> set (L # xs) = {}"
  obtains h' where "list_splice_init M L h = Inr h'" and "dlist h' L (ys @ xs)" and "dlist h' M []"
    and "frame (set (M # L # ys @ xs)) h h'"
proof (cases "ys = []")
  case True
  then show ?thesis using that[of h] d e list_empty_dlist[OF d] by (simp add: list_splice_init_def frame_refl)
next
  case False
  obtain h' where h': "raw_list_splice M L h = Inr h'" "dlist h' L (ys @ xs)" "frame (set (L # ys @ xs)) h h'"
    using raw_list_splice_dlist[OF d e disj False] .
  have M: "M \<in> dom h'" "M \<notin> set (L # ys @ xs)"
    using dlist_dom[OF d] frame_dom[OF h'(3)] disj dlist_distinct[OF d] by auto
  let ?h = "h'(M \<mapsto> \<lparr>lh_next = M, lh_prev = M\<rparr>)"
  have run: "list_splice_init M L h = Inr ?h"
    using h'(1) M(1) False list_empty_dlist[OF d]
    by (simp add: list_splice_init_def INIT_LIST_HEAD_run with_both)
  have "dlist ?h L (ys @ xs)" using h'(2) M(2) by (subst dlist_cong[of _ _ _ h']) auto
  moreover have "dlist ?h M []" by (simp add: nx_def pv_def)
  moreover have "frame (set (M # L # ys @ xs)) h ?h"
    using M by (intro frame_upd frame_mono[OF h'(3)]) auto
  ultimately show ?thesis using that run by blast
qed

section \<open>A node taken out is out\<close>

text \<open>A second \<open>list_del\<close> of the same entry follows the poison pointers and faults.\<close>

lemma list_del_poisoned:
  assumes "h x = Some poisoned" and "LIST_POISON1 \<notin> dom h"
  shows "list_del x h = Inl SegFault"
proof -
  have "set_prev LIST_POISON1 LIST_POISON2 h = Inl SegFault"
    using assms(2) by (simp add: set_prev_def domIff)
  then show ?thesis
    using assms(1)
    by (simp add: list_del_def unlink_def get_prev_def get_next_def poisoned_def raw_list_del_def)
qed

lemma heap_eqI: "nx h = nx h' \<Longrightarrow> pv h = pv h' \<Longrightarrow> h = h'"
proof (rule ext)
  fix p assume a: "nx h = nx h'" "pv h = pv h'"
  show "h p = h' p"
    using fun_cong[OF a(1), of p] fun_cong[OF a(2), of p]
    by (auto simp: nx_def pv_def map_option_case split: option.splits)
qed

lemma add_then_del:
  assumes d: "dlist h L xs" and x: "x \<in> dom h" "x \<notin> set (L # xs)"
  shows "bindR (list_add x L h) (list_del x) = Inr (h(x \<mapsto> poisoned))"
proof -
  obtain n where n: "nx h L = Some n" "pv h n = Some L" "n \<in> set (L # xs)"
    using d by (cases xs) (auto simp: dlist_def)
  let ?h1 = "with_next (with_prev (with_next (with_prev h n x) x n) x L) L x"
  have in_h: "L \<in> dom h" "n \<in> dom h" and ne: "x \<noteq> L" "x \<noteq> n" using dlist_dom[OF d] n(3) x by auto
  have add: "list_add x L h = Inr ?h1"
    using in_h x n by (simp add: list_add_def get_next_nx raw_list_add_run)
  have l: "nx ?h1 x = Some n" "pv ?h1 x = Some L" using in_h x ne by simp_all
  let ?h2 = "with_next (with_prev ?h1 n L) L n"
  have "list_del x ?h1 = Inr (?h2(x \<mapsto> poisoned))"
    using l in_h x
    by (simp add: list_del_def unlink_def get_next_nx get_prev_pv raw_list_del_run
        set_next_run set_prev_run with_both poisoned_def)
  moreover have "?h2(x \<mapsto> poisoned) = h(x \<mapsto> poisoned)"
  proof -
    have "nx ?h2 = (nx h)(x \<mapsto> n, L \<mapsto> n)" "pv ?h2 = (pv h)(x \<mapsto> L, n \<mapsto> L)"
      using in_h x ne by (auto simp: fun_eq_iff)
    moreover have "nx (g(x \<mapsto> v)) = (nx g)(x \<mapsto> lh_next v)" "pv (g(x \<mapsto> v)) = (pv g)(x \<mapsto> lh_prev v)" for g v
      by (auto simp: nx_def pv_def fun_eq_iff)
    ultimately show ?thesis using n ne by (intro heap_eqI) (auto simp: fun_eq_iff)
  qed
  ultimately show ?thesis using add by simp
qed

section \<open>The loops visit the list\<close>

lemma foldF_map: "foldF body (map f xs) s = foldF (body \<circ> f) xs s"
  by (induction xs arbitrary: s) (auto simp: bindR_def split: sum.splits flow.splits)

text \<open>The entry loops are the node loops seen through \<open>container_of\<close>.\<close>

lemma entry_loop_node:
  "entry_loop lnk k hp L off body (container_of p off) s
     = node_loop lnk k hp L (body \<circ> (\<lambda>q. container_of q off)) p s"
proof (induction k arbitrary: p s)
  case (Suc k)
  then show ?case by (simp add: bindR_def cong: sum.case_cong flow.case_cong)
qed simp

lemma entry_safe_loop_node:
  "entry_safe_loop get_next k hp L off body (container_of p off) (container_of n off) s
     = safe_loop k hp L (body \<circ> (\<lambda>q. container_of q off)) p n s"
proof (induction k arbitrary: p n s)
  case (Suc k)
  then show ?case by (simp add: bindR_def cong: sum.case_cong flow.case_cong)
qed simp

lemma list_for_each_entry_node:
  "list_for_each_entry fuel hp L off body = list_for_each fuel hp L (body \<circ> (\<lambda>q. container_of q off))"
  by (rule ext) (simp add: list_for_each_entry_def list_for_each_def entry_loop_node)

lemma list_for_each_entry_reverse_node:
  "list_for_each_entry_reverse fuel hp L off body
     = list_for_each_prev fuel hp L (body \<circ> (\<lambda>q. container_of q off))"
  by (rule ext) (simp add: list_for_each_entry_reverse_def list_for_each_prev_def entry_loop_node)

lemma list_for_each_entry_safe_node:
  "list_for_each_entry_safe fuel hp L off body
     = list_for_each_safe fuel hp L (body \<circ> (\<lambda>q. container_of q off))"
  by (rule ext) (simp add: list_for_each_entry_safe_def list_for_each_safe_def entry_safe_loop_node Let_def)

text \<open>More fuel never changes what a loop returns.\<close>

lemma node_loop_mono:
  "node_loop lnk k hp L body p s = Inr t \<Longrightarrow> k \<le> k' \<Longrightarrow> node_loop lnk k' hp L body p s = Inr t"
proof (induction k arbitrary: k' p s)
  case (Suc k)
  obtain j where "k' = Suc j" "k \<le> j" using Suc.prems(2) by (cases k') auto
  then show ?case
    using Suc.prems(1) Suc.IH by (auto simp: bindR_def split: sum.splits flow.splits if_splits)
qed simp

lemma safe_loop_mono:
  "safe_loop k hp L body p n s = Inr t \<Longrightarrow> k \<le> k' \<Longrightarrow> safe_loop k' hp L body p n s = Inr t"
proof (induction k arbitrary: k' p n s)
  case (Suc k)
  obtain j where "k' = Suc j" "k \<le> j" using Suc.prems(2) by (cases k') auto
  then show ?case
    using Suc.prems(1) Suc.IH by (auto simp: bindR_def split: sum.splits flow.splits if_splits)
qed simp

lemma list_for_each_safe_mono:
  "list_for_each_safe k hp L body s = Inr t \<Longrightarrow> k \<le> k' \<Longrightarrow> list_for_each_safe k' hp L body s = Inr t"
  by (auto simp: list_for_each_safe_def bindR_eq_Inr intro: safe_loop_mono)

lemma list_for_each_entry_safe_mono:
  "list_for_each_entry_safe k hp L off body s = Inr t \<Longrightarrow> k \<le> k'
    \<Longrightarrow> list_for_each_entry_safe k' hp L off body s = Inr t"
  unfolding list_for_each_entry_safe_node by (rule list_for_each_safe_mono)

text \<open>Every node of a list leads to the one after it, and back to the one before it.\<close>

lemma dlist_nx_at: "dlist h L (as @ x # bs) \<Longrightarrow> nx h x = Some (List.hd (bs @ [L]))"
  using cut_ends[of L as bs] dlist_cut_node by (metis (no_types, lifting))

lemma dlist_pv_at: "dlist h L (as @ x # bs) \<Longrightarrow> pv h x = Some (last (L # as))"
  using cut_ends[of L as bs] dlist_cut_node by (metis (no_types, lifting))

lemma hd_append_tail: "List.hd ((x # bs) @ [L]) = x"
  by simp

lemma node_loop_next:
  assumes keep: "\<And>x s s'. x \<in> set xs \<Longrightarrow> dlist (hp s) L xs \<Longrightarrow> body x s = Inr (Go s') \<Longrightarrow> dlist (hp s') L xs"
    and "dlist (hp s) L xs" and "xs = as @ bs" and "length bs < fuel"
  shows "node_loop get_next fuel hp L body (List.hd (bs @ [L])) s = foldF body bs s"
  using assms(2-)
proof (induction bs arbitrary: as s fuel)
  case Nil
  then show ?case by (cases fuel) auto
next
  case (Cons x bs)
  obtain k where k: "fuel = Suc k" "length bs < k" using Cons.prems(3) by (cases fuel) auto
  have "x \<noteq> L" using dlist_distinct[OF Cons.prems(1)] Cons.prems(2) by auto
  moreover have "bindR (get_next (hp s') x) (\<lambda>p. node_loop get_next k hp L body p s') = foldF body bs s'"
    if "body x s = Inr (Go s')" for s'
  proof -
    have d: "dlist (hp s') L xs" using keep Cons.prems(1,2) that by auto
    then have "nx (hp s') x = Some (List.hd (bs @ [L]))"
      using dlist_nx_at Cons.prems(2) by blast
    then show ?thesis
      using Cons.IH[OF d, of "as @ [x]" k] Cons.prems(2) k(2) by (simp add: get_next_nx)
  qed
  ultimately show ?case
    using k(1) by (auto simp: bindR_def split: sum.splits flow.splits)
qed

lemma list_for_each_visits:
  assumes "\<And>x s s'. x \<in> set xs \<Longrightarrow> dlist (hp s) L xs \<Longrightarrow> body x s = Inr (Go s') \<Longrightarrow> dlist (hp s') L xs"
    and "dlist (hp s) L xs" and "length xs < fuel"
  shows "list_for_each fuel hp L body s = foldF body xs s"
proof -
  have "node_loop get_next fuel hp L body (List.hd (xs @ [L])) s = foldF body xs s"
    by (rule node_loop_next[where as = "[]" and xs = xs]) (use assms in auto)
  then show ?thesis
    using dlist_first[OF assms(2)] by (simp add: list_for_each_def get_next_nx)
qed

lemma node_loop_prev:
  assumes keep: "\<And>x s s'. x \<in> set xs \<Longrightarrow> dlist (hp s) L xs \<Longrightarrow> body x s = Inr (Go s') \<Longrightarrow> dlist (hp s') L xs"
    and "dlist (hp s) L xs" and "xs = as @ bs" and "length as < fuel"
  shows "node_loop get_prev fuel hp L body (last (L # as)) s = foldF body (rev as) s"
  using assms(2-)
proof (induction as arbitrary: bs s fuel rule: rev_induct)
  case Nil
  then show ?case by (cases fuel) auto
next
  case (snoc x as)
  obtain k where k: "fuel = Suc k" "length as < k" using snoc.prems(3) by (cases fuel) auto
  have "x \<noteq> L" using dlist_distinct[OF snoc.prems(1)] snoc.prems(2) by auto
  moreover have "bindR (get_prev (hp s') x) (\<lambda>p. node_loop get_prev k hp L body p s') = foldF body (rev as) s'"
    if "body x s = Inr (Go s')" for s'
  proof -
    have d: "dlist (hp s') L xs" using keep snoc.prems(1,2) that by auto
    then have "pv (hp s') x = Some (last (L # as))"
      using dlist_pv_at[of _ L as x bs] snoc.prems(2) by simp
    then show ?thesis
      using snoc.IH[OF d, of "x # bs" k] snoc.prems(2) k(2) by (simp add: get_prev_pv)
  qed
  ultimately show ?case
    using k(1) by (auto simp: bindR_def split: sum.splits flow.splits)
qed

lemma list_for_each_prev_visits:
  assumes "\<And>x s s'. x \<in> set xs \<Longrightarrow> dlist (hp s) L xs \<Longrightarrow> body x s = Inr (Go s') \<Longrightarrow> dlist (hp s') L xs"
    and "dlist (hp s) L xs" and "length xs < fuel"
  shows "list_for_each_prev fuel hp L body s = foldF body (rev xs) s"
proof -
  have "node_loop get_prev fuel hp L body (last (L # xs)) s = foldF body (rev xs) s"
    by (rule node_loop_prev[where bs = "[]" and xs = xs]) (use assms in auto)
  then show ?thesis
    using dlist_last[OF assms(2)] by (simp add: list_for_each_prev_def get_prev_pv)
qed

lemma list_for_each_entry_continue_visits:
  assumes "\<And>x s s'. x \<in> set (as @ x0 # bs) \<Longrightarrow> dlist (hp s) L (as @ x0 # bs)
      \<Longrightarrow> body (container_of x off) s = Inr (Go s') \<Longrightarrow> dlist (hp s') L (as @ x0 # bs)"
    and "dlist (hp s) L (as @ x0 # bs)" and "length bs < fuel"
  shows "list_for_each_entry_continue fuel hp L off body (container_of x0 off) s
    = foldF body (map (\<lambda>q. container_of q off) bs) s"
proof -
  have "node_loop get_next fuel hp L (body \<circ> (\<lambda>q. container_of q off)) (List.hd (bs @ [L])) s
      = foldF (body \<circ> (\<lambda>q. container_of q off)) bs s"
    by (rule node_loop_next[where as = "as @ [x0]" and xs = "as @ x0 # bs"]) (use assms in auto)
  then show ?thesis
    using dlist_nx_at[OF assms(2)]
    by (simp add: list_for_each_entry_continue_def get_next_nx entry_loop_node foldF_map)
qed

text \<open>
  The safe loop asks less: after the body has run at a node, the rest of the list must still
  be linked. \<open>R rest s\<close> is any relation that says so; the body may unlink its node.
\<close>

fun tail_links :: "lheap \<Rightarrow> ptr \<Rightarrow> ptr list \<Rightarrow> bool" where
  "tail_links h L [] \<longleftrightarrow> L \<in> dom h"
| "tail_links h L (x # xs) \<longleftrightarrow> x \<noteq> L \<and> nx h x = Some (List.hd (xs @ [L])) \<and> tail_links h L xs"

lemma dlist_tail_links: "dlist h L (as @ bs) \<Longrightarrow> tail_links h L bs"
proof (induction bs arbitrary: as)
  case Nil
  then show ?case using dlist_dom by fastforce
next
  case (Cons x bs)
  then show ?case
    using dlist_nx_at[OF Cons.prems] dlist_distinct[OF Cons.prems] Cons.IH[of "as @ [x]"] by auto
qed

lemma safe_loop_visits:
  assumes links: "\<And>bs s. R bs s \<Longrightarrow> tail_links (hp s) L bs"
    and keep: "\<And>x bs s s'. R (x # bs) s \<Longrightarrow> body x s = Inr (Go s') \<Longrightarrow> R bs s'"
    and "R bs s" and "length bs < fuel" and "bs \<noteq> [] \<Longrightarrow> n = List.hd (tl bs @ [L])"
  shows "safe_loop fuel hp L body (List.hd (bs @ [L])) n s = foldF body bs s"
  using assms(3-)
proof (induction bs arbitrary: s fuel n)
  case Nil
  then show ?case by (cases fuel) auto
next
  case (Cons x bs)
  obtain k where k: "fuel = Suc k" "length bs < k" using Cons.prems(2) by (cases fuel) auto
  have "x \<noteq> L" using links[OF Cons.prems(1)] by simp
  moreover have n: "n = List.hd (bs @ [L])" using Cons.prems(3) by simp
  moreover have "bindR (get_next (hp s') n) (\<lambda>p. safe_loop k hp L body n p s') = foldF body bs s'"
    if "body x s = Inr (Go s')" for s'
  proof -
    have r: "R bs s'" using keep[OF Cons.prems(1) that] .
    then have t: "tail_links (hp s') L bs" by (rule links)
    then have "n \<in> dom (hp s')" unfolding n by (cases bs) (auto dest: nx_dom)
    then obtain p where p: "nx (hp s') n = Some p" by (auto simp: nx_def)
    have "bs \<noteq> [] \<Longrightarrow> p = List.hd (tl bs @ [L])"
      using t p n by (cases bs) auto
    then show ?thesis
      using Cons.IH[OF r k(2), of p] p n by (simp add: get_next_nx)
  qed
  ultimately show ?case
    using k(1) by (auto simp: bindR_def split: sum.splits flow.splits)
qed

lemma list_for_each_safe_visits:
  assumes "\<And>bs s. R bs s \<Longrightarrow> tail_links (hp s) L bs"
    and "\<And>x bs s s'. R (x # bs) s \<Longrightarrow> body x s = Inr (Go s') \<Longrightarrow> R bs s'"
    and r: "R xs s" and fuel: "length xs < fuel" and first: "nx (hp s) L = Some (List.hd (xs @ [L]))"
  shows "list_for_each_safe fuel hp L body s = foldF body xs s"
proof -
  have t: "tail_links (hp s) L xs" using assms(1) r .
  then have "List.hd (xs @ [L]) \<in> dom (hp s)" by (cases xs) (auto dest: nx_dom)
  then obtain n where n: "nx (hp s) (List.hd (xs @ [L])) = Some n" by (auto simp: nx_def)
  then have "xs \<noteq> [] \<Longrightarrow> n = List.hd (tl xs @ [L])" using t by (cases xs) auto
  then have "safe_loop fuel hp L body (List.hd (xs @ [L])) n s = foldF body xs s"
    using safe_loop_visits[of R hp L body xs s fuel n] assms by blast
  then show ?thesis
    using first n by (simp add: list_for_each_safe_def get_next_nx)
qed

lemma list_for_each_entry_safe_visits:
  assumes "\<And>bs s. R bs s \<Longrightarrow> tail_links (hp s) L bs"
    and "\<And>x bs s s'. R (x # bs) s \<Longrightarrow> body (container_of x off) s = Inr (Go s') \<Longrightarrow> R bs s'"
    and "R xs s" and "length xs < fuel" and "nx (hp s) L = Some (List.hd (xs @ [L]))"
  shows "list_for_each_entry_safe fuel hp L off body s
    = foldF body (map (\<lambda>q. container_of q off) xs) s"
  unfolding list_for_each_entry_safe_node foldF_map
  by (rule list_for_each_safe_visits[where R = R]) (use assms in auto)

section \<open>The contract of the intrusive list, met by \<open>list.h\<close>\<close>

interpretation list_h: intrusive_list dlist dom frame list_add list_add_tail list_del list_empty
  list_first_entry
proof (unfold_locales, goal_cases)
  case (1 h L xs)
  then show ?case by (rule dlist_distinct)
next
  case (2 h L xs)
  then show ?case by (rule dlist_dom)
next
  case (3 S h)
  then show ?case by (rule frame_refl)
next
  case (4 S h h' T h'')
  then show ?case by (rule frame_trans)
next
  case (5 S h h' T)
  then show ?case by (rule frame_mono)
next
  case (6 S h h')
  then show ?case by (rule frame_dom)
next
  case (7 S h h' L xs)
  then show ?case by (rule frame_dlist)
next
  case (8 h L xs x)
  then show ?case using list_add_dlist by metis
next
  case (9 h L xs x)
  then show ?case using list_add_tail_dlist by metis
next
  case (10 h L as x bs)
  then show ?case using list_del_dlist by metis
next
  case (11 h L xs)
  then show ?case by (rule list_empty_dlist)
next
  case (12 h L x xs off)
  then show ?case using list_first_entry_dlist by (simp add: container_of_def)
qed

section \<open>Concrete lists\<close>

text \<open>Two lists, at 100 the nodes 200 and 300, at 500 the node 600, and a loose node 400.\<close>

definition demo_heap :: lheap where
  "demo_heap = [100 \<mapsto> \<lparr>lh_next = 200, lh_prev = 300\<rparr>, 200 \<mapsto> \<lparr>lh_next = 300, lh_prev = 100\<rparr>,
     300 \<mapsto> \<lparr>lh_next = 100, lh_prev = 200\<rparr>, 500 \<mapsto> \<lparr>lh_next = 600, lh_prev = 600\<rparr>,
     600 \<mapsto> \<lparr>lh_next = 500, lh_prev = 500\<rparr>, 400 \<mapsto> \<lparr>lh_next = 0, lh_prev = 0\<rparr>]"

lemma demo_heap_lists: "dlist demo_heap 100 [200, 300]" "dlist demo_heap 500 [600]"
  "400 \<in> dom demo_heap" "LIST_POISON1 \<notin> dom demo_heap"
  by (simp_all add: dlist_def nx_def pv_def demo_heap_def LIST_POISON1_def)

section \<open>Properties\<close>

text \<open>C26: the safe loop may delete what it visits. \<open>list_for_each_entry_safe\<close> whose body deletes
  every entry it is given ends, without a fault, with the list empty, every entry poisoned and
  nothing else written.\<close>

theorem safe_loop_drains_list:
  assumes "dlist h L xs" and "length xs < fuel"
  shows "\<exists>h'. list_for_each_entry_safe fuel (\<lambda>h. h) L off
      (\<lambda>e h. bindR (list_del (e + off) h) (\<lambda>h. Inr (Go h))) h = Inr h'
    \<and> dlist h' L [] \<and> (\<forall>x \<in> set xs. h' x = Some poisoned) \<and> frame (set (L # xs)) h h'"
proof -
  let ?del = "\<lambda>x h. bindR (list_del x h) (\<lambda>h. Inr (Go h))"
  let ?R = "\<lambda>bs h. dlist h L bs"
  have step: "\<exists>h1. list_del x g = Inr h1 \<and> dlist h1 L bs \<and> h1 x = Some poisoned
      \<and> frame (set (L # x # bs)) g h1"
    if "dlist g L (x # bs)" for x bs g
    using list_del_dlist[of g L "[]" x bs] that by auto
  have "list_for_each_entry_safe fuel (\<lambda>h. h) L off (\<lambda>e. ?del (e + off)) h
    = foldF (\<lambda>e. ?del (e + off)) (map (\<lambda>q. container_of q off) xs) h"
  proof (rule list_for_each_entry_safe_visits[where R = ?R])
    show "tail_links g L bs" if "?R bs g" for bs g
      using dlist_tail_links[of g L "[]" bs] that by simp
    show "?R bs g'" if "?R (x # bs) g" "?del (container_of x off + off) g = Inr (Go g')" for x bs g g'
      using step[OF that(1)] that(2) by auto
  qed (use assms dlist_first in auto)
  then have eq: "list_for_each_entry_safe fuel (\<lambda>h. h) L off (\<lambda>e. ?del (e + off)) h = foldF ?del xs h"
    by (simp add: foldF_map comp_def)
  have "\<exists>h'. foldF ?del xs h = Inr h' \<and> dlist h' L [] \<and> (\<forall>x \<in> set xs. h' x = Some poisoned)
      \<and> frame (set (L # xs)) h h'"
    using assms(1)
  proof (induction xs arbitrary: h)
    case Nil
    then show ?case by (simp add: frame_refl)
  next
    case (Cons x xs)
    obtain h1 where h1: "list_del x h = Inr h1" "dlist h1 L xs" "h1 x = Some poisoned"
        "frame (set (L # x # xs)) h h1" using step[OF Cons.prems] by blast
    obtain h2 where h2: "foldF ?del xs h1 = Inr h2" "dlist h2 L []"
        "\<forall>x \<in> set xs. h2 x = Some poisoned" "frame (set (L # xs)) h1 h2"
      using Cons.IH[OF h1(2)] by blast
    have "x \<notin> set (L # xs)" using dlist_distinct[OF Cons.prems] by auto
    then have "h2 x = Some poisoned" using frame_other[OF h2(4)] h1(3) by simp
    moreover have "frame (set (L # x # xs)) h h2"
      by (rule frame_mono[OF frame_trans[OF h1(4) h2(4)]]) auto
    ultimately show ?case using h1(1) h2 by simp
  qed
  then show ?thesis unfolding eq .
qed

theorem safe_loop_drains_list_witness:
  "\<exists>h'. list_for_each_entry_safe 3 (\<lambda>h. h) 100 8
      (\<lambda>e h. bindR (list_del (e + 8) h) (\<lambda>h. Inr (Go h))) demo_heap = Inr h'
    \<and> dlist h' 100 [] \<and> h' 200 = Some poisoned \<and> h' 300 = Some poisoned"
  using safe_loop_drains_list[OF demo_heap_lists(1), of 3 8] by auto

text \<open>C27: the loops end and visit every node exactly once, in list order forwards and in reverse
  order backwards; continued from an entry they visit what is behind it. This holds as long as
  the body leaves the list as it is (stopping early, where the body breaks).\<close>

theorem list_for_each_visits_in_order:
  assumes "\<And>x s s'. x \<in> set (as @ x0 # bs) \<Longrightarrow> dlist (hp s) L (as @ x0 # bs)
      \<Longrightarrow> body (container_of x off) s = Inr (Go s') \<Longrightarrow> dlist (hp s') L (as @ x0 # bs)"
    and "dlist (hp s) L (as @ x0 # bs)" and "length (as @ x0 # bs) < fuel"
  shows "list_for_each_entry fuel hp L off body s
      = foldF body (map (\<lambda>q. container_of q off) (as @ x0 # bs)) s
    \<and> list_for_each_entry_reverse fuel hp L off body s
      = foldF body (map (\<lambda>q. container_of q off) (rev bs @ x0 # rev as)) s
    \<and> list_for_each_entry_continue fuel hp L off body (container_of x0 off) s
      = foldF body (map (\<lambda>q. container_of q off) bs) s"
  unfolding list_for_each_entry_node list_for_each_entry_reverse_node foldF_map
  using list_for_each_visits[of "as @ x0 # bs" hp L "body \<circ> (\<lambda>q. container_of q off)" s fuel]
    list_for_each_prev_visits[of "as @ x0 # bs" hp L "body \<circ> (\<lambda>q. container_of q off)" s fuel]
    list_for_each_entry_continue_visits[of as x0 bs hp L body off s fuel] assms
  by (simp add: foldF_map)

theorem list_for_each_visits_in_order_witness:
  "list_for_each_entry_reverse 3 fst 100 8 (\<lambda>x (h, ys). Inr (Go (h, ys @ [x]))) (demo_heap, [])
    = Inr (demo_heap, [292, 192])"
  using list_for_each_visits_in_order[of "[]" 200 "[300]" fst 100
      "\<lambda>x (h, ys). Inr (Go (h, ys @ [x]))" 8 "(demo_heap, [])" 3] demo_heap_lists(1)
  by (auto simp: container_of_def)

text \<open>\<open>list_del\<close> takes out exactly the given node, whatever its place, poisons it, and writes
  nothing outside the list.\<close>

theorem list_del_removes_node:
  assumes "dlist h L (as @ x # bs)"
  shows "\<exists>h'. list_del x h = Inr h' \<and> dlist h' L (as @ bs)
    \<and> h' x = Some \<lparr>lh_next = LIST_POISON1, lh_prev = LIST_POISON2\<rparr>
    \<and> frame (set (L # as @ x # bs)) h h'"
  using list_del_dlist[OF assms] unfolding poisoned_def by metis

theorem list_del_removes_node_witness:
  "\<exists>h'. list_del 300 demo_heap = Inr h' \<and> dlist h' 100 [200] \<and> h' 600 = demo_heap 600"
  using list_del_removes_node[of demo_heap 100 "[200]" 300 "[]"] demo_heap_lists(1)
  by (auto simp: frame_def)

text \<open>Deleting a node twice is caught. The second \<open>list_del\<close> follows the poison pointers and
  faults.\<close>

theorem list_del_twice_faults:
  assumes "dlist h L (as @ x # bs)" and "LIST_POISON1 \<notin> dom h"
  shows "bindR (list_del x h) (list_del x) = Inl SegFault"
proof -
  obtain h' where h': "list_del x h = Inr h'" "h' x = Some poisoned" "frame (set (L # as @ x # bs)) h h'"
    using list_del_dlist[OF assms(1)] .
  have "LIST_POISON1 \<notin> dom h'" using assms(2) frame_dom[OF h'(3)] by simp
  then show ?thesis using h' list_del_poisoned by simp
qed

theorem list_del_twice_faults_witness:
  "bindR (list_del 200 demo_heap) (list_del 200) = Inl SegFault"
  using list_del_twice_faults[of demo_heap 100 "[]" 200 "[300]"] demo_heap_lists(1,4) by simp

text \<open>\<open>list_add\<close> then \<open>list_del\<close> of the same node gives back the store, bit for bit, but for the
  poison in the node.\<close>

theorem list_add_del_restores:
  assumes "dlist h L xs" and "x \<in> dom h" and "x \<notin> set (L # xs)"
  shows "bindR (list_add x L h) (list_del x) = Inr (h(x \<mapsto> poisoned))"
  using add_then_del[OF assms] .

theorem list_add_del_restores_witness:
  "bindR (list_add 400 100 demo_heap) (list_del 400) = Inr (demo_heap(400 \<mapsto> poisoned))"
  using list_add_del_restores[OF demo_heap_lists(1,3)] by simp

text \<open>Nodes added one by one with \<open>list_add\<close> stand in reverse order (a stack), with
  \<open>list_add_tail\<close> in order (a queue), in front of and behind what was there.\<close>

theorem list_add_stack_add_tail_queue:
  assumes "dlist h L xs" and "distinct ys" and "set ys \<subseteq> dom h" and "set ys \<inter> set (L # xs) = {}"
  shows "(\<exists>h'. foldF (\<lambda>x s. bindR (list_add x L s) (\<lambda>s'. Inr (Go s'))) ys h = Inr h'
      \<and> dlist h' L (rev ys @ xs) \<and> frame (set (L # ys @ xs)) h h')
    \<and> (\<exists>h'. foldF (\<lambda>x s. bindR (list_add_tail x L s) (\<lambda>s'. Inr (Go s'))) ys h = Inr h'
      \<and> dlist h' L (xs @ ys) \<and> frame (set (L # ys @ xs)) h h')"
  using list_h.push_all[OF assms] list_h.append_all[OF assms] by blast

theorem list_add_stack_add_tail_queue_witness:
  "\<exists>h'. foldF (\<lambda>x s. bindR (list_add_tail x 500 s) (\<lambda>s'. Inr (Go s'))) [400, 300] demo_heap = Inr h'
    \<and> dlist h' 500 [600, 400, 300]"
  using list_add_stack_add_tail_queue[OF demo_heap_lists(2), of "[400, 300]"] demo_heap_lists(3)
  by (auto simp: demo_heap_def)

text \<open>\<open>list_splice_init\<close> puts the whole of one list in front of another, in order, and leaves the
  first list empty and usable.\<close>

theorem list_splice_init_joins:
  assumes "dlist h M ys" and "dlist h L xs" and "set (M # ys) \<inter> set (L # xs) = {}"
  shows "\<exists>h'. list_splice_init M L h = Inr h' \<and> dlist h' L (ys @ xs) \<and> dlist h' M []
    \<and> frame (set (M # L # ys @ xs)) h h'"
  using list_splice_init_dlist[OF assms] by metis

theorem list_splice_init_joins_witness:
  "\<exists>h'. list_splice_init 500 100 demo_heap = Inr h' \<and> dlist h' 100 [600, 200, 300] \<and> dlist h' 500 []"
  using list_splice_init_joins[OF demo_heap_lists(2,1)] by auto

text \<open>\<open>list_move\<close> takes a node out of one list and makes it the first of another; both lists are
  otherwise as they were.\<close>

theorem list_move_between_lists:
  assumes "dlist h L (as @ x # bs)" and "dlist h M ys"
    and "set (L # as @ x # bs) \<inter> set (M # ys) = {}"
  shows "\<exists>h'. list_move x M h = Inr h' \<and> dlist h' L (as @ bs) \<and> dlist h' M (x # ys)
    \<and> frame (set (L # as @ x # bs) \<union> set (M # ys)) h h'"
  using list_move_across[OF assms] by metis

theorem list_move_between_lists_witness:
  "\<exists>h'. list_move 300 500 demo_heap = Inr h' \<and> dlist h' 100 [200] \<and> dlist h' 500 [300, 600]"
  using list_move_between_lists[of demo_heap 100 "[200]" 300 "[]" 500 "[600]"] demo_heap_lists
  by auto

end
