(* ===== verification/Mempool.thy ===== *)
theory Mempool
  imports List_Head
begin

unbundle bit_operations_syntax

text \<open>
  \<open>mempool/mempool.c\<close>: a cache of equally sized memory slices. A slice that the client gives
  back is kept, linked through its own first bytes into \<open>list_free\<close>, and handed out again;
  \<open>malloc\<close> is asked only when the cache is empty, up to \<open>max\<close> slices. The state is
  \<open>struct mempool\<close> and the memory of the slices. What \<open>malloc\<close> answers is an argument of
  the operations that call it.
\<close>

section \<open>Data\<close>

text \<open>
  The layout of \<open>struct mempool_slice\<close> on LP64: \<open>magic\<close> at 0, \<open>list\<close> at 8, 24 bytes; and the
  offset of \<open>list_free\<close> in \<open>struct mempool\<close> (4 + 4 + 16 + 3*8 + 2*8 + 4, padded to 72).
\<close>

definition slice_list_off :: ptr where
  "slice_list_off = 8"

definition sizeof_mempool_slice :: u32 where
  "sizeof_mempool_slice = 24"

definition list_free_off :: ptr where
  "list_free_off = 72"

definition MEMPOOL_SLICE_MAGIC :: u32 where
  "MEMPOOL_SLICE_MAGIC = 54085408"

definition MEMPOOL_NAME_MAX :: nat where
  "MEMPOOL_NAME_MAX = 15 + 1"

text \<open>
  The memory of the slices: the \<open>list_head\<close> objects and the \<open>magic\<close> words. A slice at
  \<open>p\<close> is allocated when \<open>p\<close> has a magic word and \<open>p + 8\<close> a list head.
\<close>

record slice_mem =
  lists :: lheap
  magics :: "ptr \<Rightarrow> u32 option"

type_synonym ctor = "ptr \<Rightarrow> slice_mem \<Rightarrow> 32 word \<times> slice_mem"
type_synonym dtor = "ptr \<Rightarrow> slice_mem \<Rightarrow> slice_mem"

record mempool =
  mp_self :: ptr
  mp_magic :: u32
  mp_sz :: u32
  mp_name :: string
  mp_ref :: u64
  mp_max :: u64
  mp_fail :: u64
  mp_ctor :: "ctor option"
  mp_dtor :: "dtor option"
  mp_locked :: bool

record pool = mempool +
  mem :: slice_mem

abbreviation list_free :: "'a mempool_scheme \<Rightarrow> ptr" where
  "list_free mp \<equiv> mp_self mp + list_free_off"

section \<open>Memory accesses\<close>

definition get_magic :: "ptr \<Rightarrow> pool \<Rightarrow> u32 res" where
  "get_magic p s = (case magics (mem s) p of None \<Rightarrow> Inl SegFault | Some g \<Rightarrow> Inr g)"

definition set_magic :: "ptr \<Rightarrow> u32 \<Rightarrow> pool \<Rightarrow> pool res" where
  "set_magic p v s =
     (case magics (mem s) p of None \<Rightarrow> Inl SegFault
      | Some _ \<Rightarrow> Inr (s\<lparr>mem := (mem s)\<lparr>magics := (magics (mem s))(p \<mapsto> v)\<rparr>\<rparr>))"

text \<open>A list operation on the pool's memory.\<close>

definition on_lists :: "(lheap \<Rightarrow> lheap res) \<Rightarrow> pool \<Rightarrow> pool res" where
  "on_lists f s = bindR (f (lists (mem s))) (\<lambda>h. Inr (s\<lparr>mem := (mem s)\<lparr>lists := h\<rparr>\<rparr>))"

text \<open>
  What \<open>malloc\<close> gives: \<open>None\<close> for NULL, else the address and the old contents of the block.
\<close>

type_synonym malloc_result = "(ptr \<times> list_head \<times> u32) option"

definition take_block :: "ptr \<Rightarrow> list_head \<Rightarrow> u32 \<Rightarrow> slice_mem \<Rightarrow> slice_mem" where
  "take_block p l g m =
     m\<lparr>lists := (lists m)(p + slice_list_off \<mapsto> l), magics := (magics m)(p \<mapsto> g)\<rparr>"

text \<open>\<open>free\<close>\<close>

definition free_block :: "ptr \<Rightarrow> slice_mem \<Rightarrow> slice_mem" where
  "free_block p m =
     m\<lparr>lists := (lists m)(p + slice_list_off := None), magics := (magics m)(p := None)\<rparr>"

definition spin_lock :: "pool \<Rightarrow> pool res" where
  "spin_lock s = (if mp_locked s then Inl Deadlock else Inr (s\<lparr>mp_locked := True\<rparr>))"

definition spin_unlock :: "pool \<Rightarrow> pool res" where
  "spin_unlock s = Inr (s\<lparr>mp_locked := False\<rparr>)"

section \<open>The operations\<close>

definition alloc_slice :: "malloc_result \<Rightarrow> pool \<Rightarrow> (ptr \<times> pool) res" where
  "alloc_slice r s =
     bindR (list_empty (list_free s) (lists (mem s))) (\<lambda>e.
       if e then
         if mp_max s \<noteq> 0 \<and> mp_ref s \<ge> mp_max s
         then Inr (NULL, s\<lparr>mp_fail := mp_fail s + 1\<rparr>)
         else bug_on (mp_sz s < sizeof_mempool_slice)
           (case r of
              None \<Rightarrow> Inr (NULL, s)
            | Some (p, l, g) \<Rightarrow>
                Inr (p, s\<lparr>mp_ref := mp_ref s + 1, mem := take_block p l g (mem s)\<rparr>))
       else
         bindR (list_first_entry (list_free s) slice_list_off (lists (mem s))) (\<lambda>sl.
         bindR (on_lists (list_del (sl + slice_list_off)) s) (\<lambda>s.
         bindR (get_magic sl s) (\<lambda>g.
           bug_on (g \<noteq> MEMPOOL_SLICE_MAGIC) (Inr (sl, s))))))"

definition free_slice :: "ptr \<Rightarrow> pool \<Rightarrow> pool res" where
  "free_slice sl s =
     bindR (get_magic sl s) (\<lambda>g.
       bug_on (g \<noteq> MEMPOOL_SLICE_MAGIC)
         (Inr (s\<lparr>mem := free_block sl (mem s), mp_ref := mp_ref s - 1\<rparr>)))"

definition mempool_free :: "ptr \<Rightarrow> pool \<Rightarrow> pool res" where
  "mempool_free p s =
     (let s = (case mp_dtor s of None \<Rightarrow> s | Some d \<Rightarrow> s\<lparr>mem := d p (mem s)\<rparr>) in
      seqR [set_magic p MEMPOOL_SLICE_MAGIC,
            spin_lock,
            on_lists (list_add (p + slice_list_off) (list_free s)),
            spin_unlock] s)"

definition mempool_alloc :: "malloc_result \<Rightarrow> pool \<Rightarrow> (ptr \<times> pool) res" where
  "mempool_alloc r s =
     bindR (spin_lock s) (\<lambda>s.
     bindR (alloc_slice r s) (\<lambda>(sl, s).
     bindR (spin_unlock s) (\<lambda>s.
       case mp_ctor s of
         None \<Rightarrow> Inr (sl, s)
       | Some c \<Rightarrow>
           (let (ret, m) = c sl (mem s); s = s\<lparr>mem := m\<rparr> in
            if ret \<noteq> 0 then bindR (mempool_free sl s) (\<lambda>s. Inr (NULL, s))
            else Inr (sl, s)))))"

text \<open>\<open>__mempool_recycle\<close>, its loop body first\<close>

definition recycle_body :: "u32 \<Rightarrow> pool body" where
  "recycle_body reserve sl s =
     (if mp_ref s \<le> ucast reserve then Inr (Stop s)
      else bindR (seqR [on_lists (list_del (sl + slice_list_off)), free_slice sl] s)
        (\<lambda>s. Inr (Go s)))"

definition raw_mempool_recycle :: "nat \<Rightarrow> u32 \<Rightarrow> pool \<Rightarrow> pool res" where
  "raw_mempool_recycle fuel reserve s =
     bindR (list_empty (list_free s) (lists (mem s))) (\<lambda>e.
       if \<not> e
       then list_for_each_entry_safe fuel (\<lambda>s. lists (mem s)) (list_free s) slice_list_off
              (recycle_body reserve) s
       else Inr s)"

definition mempool_recycle :: "nat \<Rightarrow> u32 \<Rightarrow> pool \<Rightarrow> pool res" where
  "mempool_recycle fuel reserve = seqR [spin_lock, raw_mempool_recycle fuel 0, spin_unlock]"

definition mempool_calc_slice_size :: "u32 \<Rightarrow> u32" where
  "mempool_calc_slice_size input =
     (let real_size = (if input < sizeof_mempool_slice then sizeof_mempool_slice else input);
          padding = (if (ucast real_size :: u64) mod 8 \<noteq> 0
                     then ucast (8 - (ucast real_size :: u64) mod 8) else 0)
      in real_size + padding)"

text \<open>
  \<open>mempool_init\<close>: \<open>name\<close> is \<open>None\<close> for a null pointer; \<open>snprintf\<close> keeps 15 characters.
  The \<open>struct mempool\<close> at \<open>mp\<close> is whatever \<open>s\<close> held.
\<close>

definition mempool_init ::
  "ptr \<Rightarrow> string option \<Rightarrow> u32 \<Rightarrow> u64 \<Rightarrow> ctor option \<Rightarrow> dtor option \<Rightarrow> pool \<Rightarrow> (32 word \<times> pool) res"
where
  "mempool_init mp name sz mx c d s =
     bug_on (mp = NULL) (bug_on (name = None \<or> length (the name) = 0)
       (let s = s\<lparr>mp_self := mp,
                  mp_name := take (MEMPOOL_NAME_MAX - 1) (the name),
                  mp_magic := 0x54085408,
                  mp_sz := mempool_calc_slice_size sz,
                  mp_max := mx,
                  mp_ref := 0,
                  mp_ctor := c,
                  mp_dtor := d,
                  mp_fail := 0\<rparr>
        in bindR (on_lists (INIT_LIST_HEAD (list_free s)) s)
             (\<lambda>s. Inr (0, s\<lparr>mp_locked := False\<rparr>))))"

text \<open>
  \<open>mempool_exit\<close>: the first component is the leak message, if one is printed: the number of
  slices and the pool's name.
\<close>

definition mempool_exit :: "nat \<Rightarrow> pool \<Rightarrow> ((u64 \<times> string) option \<times> pool) res" where
  "mempool_exit fuel s =
     bindR (raw_mempool_recycle fuel 0 s) (\<lambda>s.
       Inr (if mp_ref s \<noteq> 0 then Some (mp_ref s, mp_name s) else None, s))"

section \<open>The invariant\<close>

text \<open>
  \<open>pool_inv s fs U\<close>: the cache holds the slices \<open>fs\<close>, first to be handed out first, and the
  client the slices \<open>U\<close>.
\<close>

definition allocated :: "slice_mem \<Rightarrow> ptr \<Rightarrow> bool" where
  "allocated m p \<longleftrightarrow> p \<in> dom (magics m) \<and> p + slice_list_off \<in> dom (lists m)"

abbreviation node_of :: "ptr \<Rightarrow> ptr" where
  "node_of p \<equiv> p + slice_list_off"

definition pool_inv :: "pool \<Rightarrow> ptr list \<Rightarrow> ptr set \<Rightarrow> bool" where
  "pool_inv s fs U \<longleftrightarrow>
     dlist (lists (mem s)) (list_free s) (map node_of fs)
   \<and> (\<forall>p \<in> set fs. magics (mem s) p = Some MEMPOOL_SLICE_MAGIC)
   \<and> (\<forall>p \<in> U. allocated (mem s) p)
   \<and> (\<forall>p \<in> U. node_of p \<noteq> list_free s)
   \<and> finite U \<and> set fs \<inter> U = {} \<and> NULL \<notin> set fs \<union> U
   \<and> unat (mp_ref s) = length fs + card U
   \<and> (mp_max s \<noteq> 0 \<longrightarrow> mp_ref s \<le> mp_max s)
   \<and> sizeof_mempool_slice \<le> mp_sz s"

text \<open>\<open>malloc\<close> gives memory that nobody holds.\<close>

definition fresh_block :: "malloc_result \<Rightarrow> slice_mem \<Rightarrow> bool" where
  "fresh_block r m \<longleftrightarrow> (case r of None \<Rightarrow> True
     | Some (p, l, g) \<Rightarrow> p \<noteq> NULL \<and> p \<notin> dom (magics m) \<and> p + slice_list_off \<notin> dom (lists m))"

text \<open>Only the contents of the block at \<open>p\<close> differ: what a client may do to its own slice.\<close>

definition confined :: "ptr \<Rightarrow> slice_mem \<Rightarrow> slice_mem \<Rightarrow> bool" where
  "confined p m m' \<longleftrightarrow> frame (if p = NULL then {} else {p + slice_list_off}) (lists m) (lists m')
     \<and> dom (magics m') = dom (magics m) \<and> (\<forall>q. q \<noteq> p \<or> p = NULL \<longrightarrow> magics m' q = magics m q)"

lemma pool_invD:
  assumes "pool_inv s fs U"
  shows "dlist (lists (mem s)) (list_free s) (map node_of fs)"
    and "p \<in> set fs \<Longrightarrow> magics (mem s) p = Some MEMPOOL_SLICE_MAGIC"
    and "p \<in> U \<Longrightarrow> allocated (mem s) p"
    and "p \<in> U \<Longrightarrow> node_of p \<noteq> list_free s"
    and "finite U" and "set fs \<inter> U = {}" and "NULL \<notin> set fs" and "NULL \<notin> U"
    and "unat (mp_ref s) = length fs + card U"
    and "mp_max s \<noteq> 0 \<Longrightarrow> mp_ref s \<le> mp_max s"
    and "sizeof_mempool_slice \<le> mp_sz s"
  using assms unfolding pool_inv_def by auto

lemma pool_inv_distinct: "pool_inv s fs U \<Longrightarrow> distinct fs \<and> list_free s \<notin> set (map node_of fs)"
  using dlist_distinct[OF pool_invD(1)] by (auto simp: distinct_map)

lemma pool_inv_allocated: "pool_inv s fs U \<Longrightarrow> p \<in> set fs \<Longrightarrow> allocated (mem s) p"
  using dlist_dom[OF pool_invD(1)] pool_invD(2) by (fastforce simp: allocated_def)

text \<open>The counter of slices cannot wrap: there are not enough addresses.\<close>

lemma pool_inv_ref_bound:
  assumes "pool_inv s fs U"
  shows "length fs + card U < 2 ^ 64"
proof -
  obtain us where us: "set us = U" "distinct us" using finite_distinct_list pool_invD(5)[OF assms] by blast
  have "distinct (fs @ us)" "NULL \<notin> set (fs @ us)"
    using pool_inv_distinct[OF assms] pool_invD(6-8)[OF assms] us by auto
  then have "length (fs @ us) < 2 ^ 64" by (rule distinct_ptrs_bound)
  then show ?thesis using us by (simp flip: distinct_card)
qed

lemma on_lists_Inr: "f (lists (mem s)) = Inr h \<Longrightarrow> on_lists f s = Inr (s\<lparr>mem := (mem s)\<lparr>lists := h\<rparr>\<rparr>)"
  by (simp add: on_lists_def)

section \<open>Taking a slice\<close>

lemma alloc_slice_cached:
  assumes i: "pool_inv s (p # fs) U"
  obtains s' where "alloc_slice r s = Inr (p, s')" and "pool_inv s' fs (insert p U)"
    and "s' = s\<lparr>mem := mem s'\<rparr>" and "magics (mem s') = magics (mem s)"
proof -
  have d: "dlist (lists (mem s)) (list_free s) (node_of p # map node_of fs)"
    using pool_invD(1)[OF i] by simp
  obtain h where h: "list_empty (list_free s) (lists (mem s)) = Inr False"
      "list_first_entry (list_free s) slice_list_off (lists (mem s)) = Inr (node_of p - slice_list_off)"
      "list_del (node_of p) (lists (mem s)) = Inr h" "dlist h (list_free s) (map node_of fs)"
      "frame (set (list_free s # node_of p # map node_of fs)) (lists (mem s)) h"
      "dom h = dom (lists (mem s))"
    using list_h.pop[OF d, of slice_list_off] by metis
  let ?s = "s\<lparr>mem := (mem s)\<lparr>lists := h\<rparr>\<rparr>"
  have m: "magics (mem s) p = Some MEMPOOL_SLICE_MAGIC" using pool_invD(2)[OF i] by simp
  have "alloc_slice r s = Inr (p, ?s)"
    using h m by (simp add: alloc_slice_def on_lists_Inr get_magic_def)
  moreover have "pool_inv ?s fs (insert p U)"
    using i pool_inv_distinct[OF i] pool_inv_allocated[OF i, of p] h(4,6)
    unfolding pool_inv_def by (auto simp: allocated_def)
  ultimately show ?thesis using that by simp
qed

lemma alloc_slice_limit:
  assumes i: "pool_inv s [] U" and "mp_max s \<noteq> 0" and "mp_max s \<le> mp_ref s"
  shows "alloc_slice r s = Inr (NULL, s\<lparr>mp_fail := mp_fail s + 1\<rparr>)"
  using assms list_empty_dlist[OF pool_invD(1)[OF i]] by (simp add: alloc_slice_def)

lemma alloc_slice_nomem:
  assumes i: "pool_inv s [] U" and "mp_max s = 0 \<or> mp_ref s < mp_max s"
  shows "alloc_slice None s = Inr (NULL, s)"
  using assms list_empty_dlist[OF pool_invD(1)[OF i]] pool_invD(11)[OF i]
  by (auto simp: alloc_slice_def bug_on_def not_less)

lemma alloc_slice_fresh:
  assumes i: "pool_inv s [] U" and room: "mp_max s = 0 \<or> mp_ref s < mp_max s"
    and f: "fresh_block (Some (p, l, g)) (mem s)"
  obtains s' where "alloc_slice (Some (p, l, g)) s = Inr (p, s')" and "pool_inv s' [] (insert p U)"
    and "s' = s\<lparr>mp_ref := mp_ref s + 1, mem := take_block p l g (mem s)\<rparr>"
proof -
  let ?s = "s\<lparr>mp_ref := mp_ref s + 1, mem := take_block p l g (mem s)\<rparr>"
  have L: "list_free s \<in> dom (lists (mem s))" using dlist_dom[OF pool_invD(1)[OF i]] by simp
  have p: "p \<noteq> NULL" "p \<notin> dom (magics (mem s))" "node_of p \<notin> dom (lists (mem s))"
    using f by (auto simp: fresh_block_def)
  have pU: "p \<notin> U" using pool_invD(3)[OF i, of p] p by (auto simp: allocated_def)
  have pn: "node_of p \<noteq> list_free s" using L p by auto
  have "Suc (card U) < 2 ^ 64"
  proof -
    obtain us where us: "set us = U" "distinct us" using finite_distinct_list pool_invD(5)[OF i] by blast
    have "length (p # us) < 2 ^ 64"
      using us p pU pool_invD(8)[OF i] by (intro distinct_ptrs_bound) auto
    then show ?thesis using us by (simp flip: distinct_card)
  qed
  then have ref: "unat (mp_ref s + 1) = Suc (card U)"
    using pool_invD(9)[OF i] by (simp add: unat_word_ariths)
  have max: "mp_ref s + 1 \<le> mp_max s" if "mp_max s \<noteq> 0"
    using room that by (simp add: inc_le)
  have run: "alloc_slice (Some (p, l, g)) s = Inr (p, ?s)"
    using room list_empty_dlist[OF pool_invD(1)[OF i]] pool_invD(11)[OF i]
    by (auto simp: alloc_slice_def bug_on_def not_less)
  have "dlist (lists (mem ?s)) (list_free ?s) (map node_of [])"
    using pool_invD(1)[OF i] pn by (simp add: take_block_def nx_def pv_def)
  then have "pool_inv ?s [] (insert p U)"
    using i p pU pn ref max
    unfolding pool_inv_def by (auto simp: allocated_def take_block_def)
  then show ?thesis using that run by blast
qed

lemma pool_inv_lock [simp]: "pool_inv (s\<lparr>mp_locked := b\<rparr>) fs U = pool_inv s fs U"
  by (simp add: pool_inv_def)

lemma pool_inv_fail [simp]: "pool_inv (s\<lparr>mp_fail := n\<rparr>) fs U = pool_inv s fs U"
  by (simp add: pool_inv_def)

text \<open>\<open>same_conf\<close>: the configuration and the lock are as they were.\<close>

definition same_conf :: "pool \<Rightarrow> pool \<Rightarrow> bool" where
  "same_conf s s' \<longleftrightarrow> mp_self s' = mp_self s \<and> mp_sz s' = mp_sz s \<and> mp_name s' = mp_name s
     \<and> mp_max s' = mp_max s \<and> mp_ctor s' = mp_ctor s \<and> mp_dtor s' = mp_dtor s
     \<and> mp_locked s' = mp_locked s"

lemma same_conf_refl [simp]: "same_conf s s"
  by (simp add: same_conf_def)

lemma same_conf_trans: "same_conf s t \<Longrightarrow> same_conf t u \<Longrightarrow> same_conf s u"
  by (simp add: same_conf_def)

lemma same_conf_upd [simp]:
  "same_conf s (s\<lparr>mem := m\<rparr>)" "same_conf s (s\<lparr>mp_ref := r, mem := m\<rparr>)"
  "same_conf s (s\<lparr>mp_fail := f\<rparr>)" "same_conf s (s\<lparr>mem := m, mp_ref := r\<rparr>)"
  by (simp_all add: same_conf_def)

text \<open>
  Every outcome of \<open>alloc_slice\<close> on a well-formed pool: the first cached slice, or a new
  one, or NULL with nothing changed but \<open>fail\<close>.
\<close>

lemma alloc_slice_ok:
  assumes i: "pool_inv s fs U" and f: "fresh_block r (mem s)"
  obtains p s' where "alloc_slice r s = Inr (p, s')" and "same_conf s s'"
    and "p = NULL \<Longrightarrow> fs = [] \<and> pool_inv s' [] U \<and> mem s' = mem s \<and> mp_ref s' = mp_ref s"
    and "p \<noteq> NULL \<Longrightarrow> pool_inv s' (tl fs) (insert p U) \<and> p \<notin> U \<and> (fs \<noteq> [] \<longrightarrow> p = hd fs)"
proof (cases fs)
  case (Cons p fs')
  obtain s' where s': "alloc_slice r s = Inr (p, s')" "pool_inv s' fs' (insert p U)"
      "s' = s\<lparr>mem := mem s'\<rparr>"
    using alloc_slice_cached[of s p fs' U r] i Cons by auto
  have "same_conf s s'" by (subst s'(3)) simp
  moreover have "p \<notin> U" "p \<noteq> NULL" using pool_invD(6,7)[OF i] Cons by auto
  ultimately show ?thesis using that[OF s'(1)] s'(2) Cons by simp
next
  case Nil
  note i0 = i[unfolded Nil]
  show ?thesis
  proof (cases "mp_max s \<noteq> 0 \<and> mp_max s \<le> mp_ref s")
    case True
    then show ?thesis
      using that[OF alloc_slice_limit[OF i0]] i0 Nil by simp
  next
    case room: False
    show ?thesis
    proof (cases r)
      case None
      then show ?thesis
        using that[of NULL s] alloc_slice_nomem[OF i0] room i0 Nil by (auto simp: not_le)
    next
      case (Some b)
      obtain p l g where b: "r = Some (p, l, g)" using Some by (cases b) auto
      obtain s' where s': "alloc_slice r s = Inr (p, s')" "pool_inv s' [] (insert p U)"
          "s' = s\<lparr>mp_ref := mp_ref s + 1, mem := take_block p l g (mem s)\<rparr>"
        using alloc_slice_fresh[OF i0, of p l g] room f b by (auto simp: not_le)
      have "p \<noteq> NULL" "p \<notin> U"
        using f b pool_invD(3)[OF i, of p] by (auto simp: fresh_block_def allocated_def)
      then show ?thesis using that[OF s'(1)] s' Nil by simp
    qed
  qed
qed

section \<open>Giving a slice back\<close>

text \<open>What the client writes into its own slice disturbs nothing.\<close>

lemma confined_allocated: "confined p m m' \<Longrightarrow> allocated m' q = allocated m q"
  by (auto simp: confined_def allocated_def dest!: frame_dom split: if_splits)

lemma confined_refl [simp]: "confined p m m"
  by (simp add: confined_def frame_refl)

lemma pool_inv_confined:
  assumes i: "pool_inv s fs U" and c: "confined p (mem s) m'" and p: "p \<in> U \<or> p = NULL"
  shows "pool_inv (s\<lparr>mem := m'\<rparr>) fs U"
proof -
  let ?S = "if p = NULL then {} else {node_of p}"
  have f: "frame ?S (lists (mem s)) (lists m')" using c by (simp add: confined_def)
  have "p \<noteq> NULL \<Longrightarrow> node_of p \<notin> set (list_free s # map node_of fs)"
    using p pool_invD(4)[OF i] pool_invD(6)[OF i] by auto
  then have "?S \<inter> set (list_free s # map node_of fs) = {}" by (cases "p = NULL") simp_all
  then have "dlist (lists m') (list_free s) (map node_of fs)"
    using frame_dlist[OF f] pool_invD(1)[OF i] by blast
  moreover have "magics m' q = magics (mem s) q" if "q \<in> set fs" for q
  proof -
    have "q \<noteq> p \<or> p = NULL" using p pool_invD(6)[OF i] that by auto
    then show ?thesis using c by (simp add: confined_def)
  qed
  ultimately show ?thesis
    using i confined_allocated[OF c] unfolding pool_inv_def by simp
qed

lemma set_magic_run:
  "magics (mem s) p = Some g \<Longrightarrow>
     set_magic p v s = Inr (s\<lparr>mem := (mem s)\<lparr>magics := (magics (mem s))(p \<mapsto> v)\<rparr>\<rparr>)"
  by (simp add: set_magic_def)

lemma release:
  assumes i: "pool_inv s fs U" and p: "p \<in> U" and u: "\<not> mp_locked s"
  obtains s' where "seqR [set_magic p MEMPOOL_SLICE_MAGIC, spin_lock,
      on_lists (list_add (node_of p) (list_free s)), spin_unlock] s = Inr s'"
    and "pool_inv s' (p # fs) (U - {p})" and "s' = s\<lparr>mem := mem s'\<rparr>"
    and "magics (mem s') = (magics (mem s))(p \<mapsto> MEMPOOL_SLICE_MAGIC)"
proof -
  obtain g where g: "magics (mem s) p = Some g"
    using pool_invD(3)[OF i p] by (auto simp: allocated_def)
  let ?m = "(mem s)\<lparr>magics := (magics (mem s))(p \<mapsto> MEMPOOL_SLICE_MAGIC)\<rparr>"
  have al: "node_of p \<in> dom (lists (mem s))" using pool_invD(3)[OF i p] by (simp add: allocated_def)
  have nin: "node_of p \<notin> set (list_free s # map node_of fs)"
    using p pool_invD(4)[OF i p] pool_invD(6)[OF i] by auto
  obtain h where h: "list_add (node_of p) (list_free s) (lists (mem s)) = Inr h"
      "dlist h (list_free s) (node_of p # map node_of fs)" "dom h = dom (lists (mem s))"
    using list_h.push[OF pool_invD(1)[OF i] al nin] by metis
  let ?s = "s\<lparr>mem := ?m\<lparr>lists := h\<rparr>\<rparr>"
  have "seqR [set_magic p MEMPOOL_SLICE_MAGIC, spin_lock,
      on_lists (list_add (node_of p) (list_free s)), spin_unlock] s = Inr ?s"
    using u h(1) by (simp add: set_magic_run[OF g] spin_lock_def on_lists_def spin_unlock_def)
  moreover have "pool_inv ?s (p # fs) (U - {p})"
  proof -
    have "card (U - {p}) = card U - 1" "0 < card U"
      using p pool_invD(5)[OF i] by (auto simp: card_gt_0_iff)
    then show ?thesis
      using i h(2,3) p unfolding pool_inv_def by (auto simp: allocated_def)
  qed
  ultimately show ?thesis using that by simp
qed

definition dtor_ok :: "pool \<Rightarrow> bool" where
  "dtor_ok s \<longleftrightarrow> (\<forall>d p m. mp_dtor s = Some d \<longrightarrow> confined p m (d p m))"

definition ctor_ok :: "pool \<Rightarrow> bool" where
  "ctor_ok s \<longleftrightarrow> (\<forall>c p m. mp_ctor s = Some c \<longrightarrow> confined p m (snd (c p m)))"

lemma conf_ok: "same_conf s s' \<Longrightarrow> dtor_ok s' = dtor_ok s" "same_conf s s' \<Longrightarrow> ctor_ok s' = ctor_ok s"
  by (simp_all add: dtor_ok_def ctor_ok_def same_conf_def)

lemma mempool_free_ok:
  assumes i: "pool_inv s fs U" and p: "p \<in> U" and u: "\<not> mp_locked s" and d: "dtor_ok s"
  obtains s' where "mempool_free p s = Inr s'" and "pool_inv s' (p # fs) (U - {p})"
    and "s' = s\<lparr>mem := mem s'\<rparr>"
proof -
  define m where "m = (case mp_dtor s of None \<Rightarrow> mem s | Some d \<Rightarrow> d p (mem s))"
  let ?s = "s\<lparr>mem := m\<rparr>"
  have "confined p (mem s) m"
    using d by (cases "mp_dtor s") (auto simp: m_def dtor_ok_def confined_refl)
  then have i': "pool_inv ?s fs U" using pool_inv_confined[OF i] p by blast
  obtain s' where s': "seqR [set_magic p MEMPOOL_SLICE_MAGIC, spin_lock,
      on_lists (list_add (node_of p) (list_free ?s)), spin_unlock] ?s = Inr s'"
    "pool_inv s' (p # fs) (U - {p})" "s' = ?s\<lparr>mem := mem s'\<rparr>"
    using release[OF i' p] u by auto
  have "(case mp_dtor s of None \<Rightarrow> s | Some d \<Rightarrow> s\<lparr>mem := d p (mem s)\<rparr>) = ?s"
    by (simp add: m_def split: option.splits)
  then have "mempool_free p s = Inr s'"
    using s'(1) by (simp add: mempool_free_def Let_def)
  moreover have "s' = s\<lparr>mem := mem s'\<rparr>" using s'(3) by simp
  ultimately show ?thesis using that s'(2) by blast
qed

section \<open>The whole of \<open>mempool_alloc\<close>\<close>

text \<open>The lock is not looked at inside the critical section.\<close>

lemma alloc_slice_lock:
  "alloc_slice r (s\<lparr>mp_locked := b\<rparr>)
     = bindR (alloc_slice r s) (\<lambda>(p, s'). Inr (p, s'\<lparr>mp_locked := b\<rparr>))"
  by (auto simp: alloc_slice_def on_lists_def get_magic_def take_block_def bindR_def bug_on_def
      split: sum.splits option.splits prod.splits)

definition ctor_takes_null :: "pool \<Rightarrow> bool" where
  "ctor_takes_null s \<longleftrightarrow> (\<forall>c m. mp_ctor s = Some c \<longrightarrow> fst (c NULL m) = 0)"

lemma mempool_alloc_eq:
  assumes "\<not> mp_locked s" and "alloc_slice r s = Inr (p, s1)" and "same_conf s s1"
  shows "mempool_alloc r s =
    (case mp_ctor s1 of
       None \<Rightarrow> Inr (p, s1)
     | Some c \<Rightarrow>
         (let (ret, m) = c p (mem s1); s2 = s1\<lparr>mem := m\<rparr> in
          if ret \<noteq> 0 then bindR (mempool_free p s2) (\<lambda>s. Inr (NULL, s)) else Inr (p, s2)))"
proof -
  have "s1\<lparr>mp_locked := False\<rparr> = s1" using assms(1,3) by (simp add: same_conf_def)
  then show ?thesis
    using assms(1,2)
    by (simp add: mempool_alloc_def spin_lock_def spin_unlock_def alloc_slice_lock Let_def
        split: option.splits)
qed

lemma mempool_alloc_ok:
  assumes i: "pool_inv s fs U" and u: "\<not> mp_locked s" and f: "fresh_block r (mem s)"
    and c: "ctor_ok s" and d: "dtor_ok s" and n: "ctor_takes_null s"
  obtains p s' fs' where "mempool_alloc r s = Inr (p, s')" and "same_conf s s'"
    and "p = NULL \<Longrightarrow> pool_inv s' fs' U"
    and "p \<noteq> NULL \<Longrightarrow> p \<notin> U \<and> pool_inv s' fs' (insert p U)"
proof -
  obtain p s1 where a: "alloc_slice r s = Inr (p, s1)" "same_conf s s1"
      "p = NULL \<Longrightarrow> fs = [] \<and> pool_inv s1 [] U \<and> mem s1 = mem s \<and> mp_ref s1 = mp_ref s"
      "p \<noteq> NULL \<Longrightarrow> pool_inv s1 (tl fs) (insert p U) \<and> p \<notin> U \<and> (fs \<noteq> [] \<longrightarrow> p = hd fs)"
    using alloc_slice_ok[OF i f] by metis
  note eq = mempool_alloc_eq[OF u a(1,2)]
  define V where "V = (if p = NULL then U else insert p U)"
  have i1: "\<exists>fs1. pool_inv s1 fs1 V" using a(3,4) by (auto simp: V_def)
  then obtain fs1 where i1: "pool_inv s1 fs1 V" ..
  show ?thesis
  proof (cases "mp_ctor s1")
    case None
    then show ?thesis using that[of p s1 fs1] eq a(2,4) i1 by (cases "p = NULL") (auto simp: V_def)
  next
    case (Some k)
    obtain ret m where rm: "k p (mem s1) = (ret, m)" by (cases "k p (mem s1)")
    have k: "mp_ctor s = Some k" using Some a(2) by (simp add: same_conf_def)
    have cf: "confined p (mem s1) m" using c k rm by (metis ctor_ok_def snd_conv)
    let ?s2 = "s1\<lparr>mem := m\<rparr>"
    have i2: "pool_inv ?s2 fs1 V" using pool_inv_confined[OF i1 cf] by (auto simp: V_def)
    have sc: "same_conf s ?s2" using a(2) by (simp add: same_conf_def)
    show ?thesis
    proof (cases "ret = 0")
      case True
      then have "mempool_alloc r s = Inr (p, ?s2)" using eq Some rm by simp
      then show ?thesis using that[of p ?s2 fs1] sc i2 a(4) by (cases "p = NULL") (auto simp: V_def)
    next
      case False
      then have pn: "p \<noteq> NULL" using n k rm unfolding ctor_takes_null_def by (metis fst_conv)
      have lk: "\<not> mp_locked ?s2" using u sc by (simp add: same_conf_def)
      have dk: "dtor_ok ?s2" using d conf_ok(1)[OF sc] by blast
      have "p \<in> V" using pn by (simp add: V_def)
      then obtain s3 where s3: "mempool_free p ?s2 = Inr s3" "pool_inv s3 (p # fs1) (V - {p})"
          "s3 = ?s2\<lparr>mem := mem s3\<rparr>"
        using mempool_free_ok[OF i2 _ lk dk] by metis
      have "mempool_alloc r s = Inr (NULL, s3)" using eq Some rm False s3(1) by simp
      moreover have "V - {p} = U" using a(4) pn by (auto simp: V_def)
      moreover have "same_conf ?s2 s3" by (subst s3(3)) (simp add: same_conf_def)
      ultimately show ?thesis using that[of NULL s3] s3(2) same_conf_trans[OF sc] by simp
    qed
  qed
qed

text \<open>A constructor that refuses the NULL of an exhausted pool takes the process down.\<close>

lemma mempool_free_null:
  assumes "NULL \<notin> dom (magics (mem s))" and "dtor_ok s"
  shows "mempool_free NULL s = Inl SegFault"
proof -
  let ?s = "case mp_dtor s of None \<Rightarrow> s | Some d \<Rightarrow> s\<lparr>mem := d NULL (mem s)\<rparr>"
  have "NULL \<notin> dom (magics (mem ?s))"
    using assms by (auto simp: dtor_ok_def confined_def split: option.splits)
  then have "set_magic NULL MEMPOOL_SLICE_MAGIC ?s = Inl SegFault"
    by (simp add: set_magic_def domIff)
  then show ?thesis by (simp add: mempool_free_def Let_def)
qed

section \<open>Recycling\<close>

lemma recycle_step:
  assumes i: "pool_inv s (p # fs) U" and more: "\<not> mp_ref s \<le> ucast reserve"
  obtains s' where "recycle_body reserve p s = Inr (Go s')" and "pool_inv s' fs U"
    and "same_conf s s'" and "mp_ref s' = mp_ref s - 1"
    and "magics (mem s') = (magics (mem s))(p := None)"
proof -
  have d: "dlist (lists (mem s)) (list_free s) (node_of p # map node_of fs)"
    using pool_invD(1)[OF i] by simp
  obtain h where h: "list_del (node_of p) (lists (mem s)) = Inr h"
      "dlist h (list_free s) (map node_of fs)" "dom h = dom (lists (mem s))"
    using list_h.pop[OF d, of slice_list_off] by metis
  let ?m = "(mem s)\<lparr>lists := h\<rparr>"
  let ?s = "s\<lparr>mem := free_block p ?m, mp_ref := mp_ref s - 1\<rparr>"
  have m: "magics (mem s) p = Some MEMPOOL_SLICE_MAGIC" using pool_invD(2)[OF i] by simp
  have run: "recycle_body reserve p s = Inr (Go ?s)"
    using more h(1) m by (simp add: recycle_body_def on_lists_def free_slice_def get_magic_def)
  have pd: "p \<notin> set fs" "p \<notin> U" "node_of p \<noteq> list_free s" "node_of p \<notin> set (map node_of fs)"
    using pool_inv_distinct[OF i] pool_invD(6)[OF i] by auto
  have r0: "mp_ref s \<noteq> 0" using pool_invD(9)[OF i] by auto
  have "dlist (h(node_of p := None)) (list_free s) (map node_of fs)"
    using h(2) pd by (subst dlist_cong[of _ _ _ h]) auto
  moreover have "unat (mp_ref s - 1) = length fs + card U"
    using pool_invD(9)[OF i] r0 by (simp add: unat_minus_one)
  moreover have "mp_ref s - 1 \<le> mp_max s" if "mp_max s \<noteq> 0"
    using pool_invD(10)[OF i that] r0 by (simp add: word_le_nat_alt unat_minus_one)
  ultimately have "pool_inv ?s fs U"
    using i pd h(3) unfolding pool_inv_def by (auto simp: free_block_def allocated_def)
  then show ?thesis using that[OF run] by (simp add: free_block_def)
qed


text \<open>The loop: slices go back to the system from the front until \<open>reserve\<close> are left.\<close>

definition recycled :: "u32 \<Rightarrow> pool \<Rightarrow> ptr list \<Rightarrow> nat" where
  "recycled reserve s fs = min (length fs) (unat (mp_ref s) - unat reserve)"

lemma recycle_fold:
  assumes "pool_inv s fs U"
  shows "\<exists>s'. foldF (recycle_body reserve) fs s = Inr s'
    \<and> pool_inv s' (drop (recycled reserve s fs) fs) U \<and> same_conf s s'
    \<and> magics (mem s') = (magics (mem s)) |` (- set (take (recycled reserve s fs) fs))"
  using assms
proof (induction fs arbitrary: s)
  case Nil
  then show ?case by (simp add: recycled_def)
next
  case (Cons p fs)
  have le: "mp_ref s \<le> ucast reserve \<longleftrightarrow> unat (mp_ref s) \<le> unat reserve"
    by (simp add: word_le_nat_alt)
  show ?case
  proof (cases "mp_ref s \<le> ucast reserve")
    case True
    then show ?thesis
      using Cons.prems le by (simp add: recycle_body_def recycled_def)
  next
    case False
    obtain s1 where s1: "recycle_body reserve p s = Inr (Go s1)" "pool_inv s1 fs U"
        "same_conf s s1" "mp_ref s1 = mp_ref s - 1"
        "magics (mem s1) = (magics (mem s))(p := None)"
      using recycle_step[OF Cons.prems False] .
    have "mp_ref s \<noteq> 0" using False by auto
    then have "unat (mp_ref s1) = unat (mp_ref s) - 1" using s1(4) by (simp add: unat_minus_one)
    then have r: "recycled reserve s (p # fs) = Suc (recycled reserve s1 fs)"
      using False le by (auto simp: recycled_def)
    obtain s' where "foldF (recycle_body reserve) fs s1 = Inr s'"
        "pool_inv s' (drop (recycled reserve s1 fs) fs) U" "same_conf s1 s'"
        "magics (mem s') = (magics (mem s1)) |` (- set (take (recycled reserve s1 fs) fs))"
      using Cons.IH[OF s1(2)] by blast
    moreover have "((magics (mem s))(p := None)) |` (- A) = (magics (mem s)) |` (- insert p A)" for A
      by (auto simp: restrict_map_def fun_eq_iff)
    ultimately show ?thesis
      using s1 r same_conf_trans[OF s1(3)] by auto
  qed
qed

lemma raw_mempool_recycle_ok:
  assumes i: "pool_inv s fs U" and fuel: "length fs < fuel"
  shows "\<exists>s'. raw_mempool_recycle fuel reserve s = Inr s'
    \<and> pool_inv s' (drop (recycled reserve s fs) fs) U \<and> same_conf s s'
    \<and> magics (mem s') = (magics (mem s)) |` (- set (take (recycled reserve s fs) fs))"
proof -
  let ?L = "list_free s"
  let ?R = "\<lambda>bs t. list_free t = ?L \<and> (\<exists>gs. bs = map node_of gs \<and> pool_inv t gs U)"
  have "list_for_each_entry_safe fuel (\<lambda>s. lists (mem s)) ?L slice_list_off (recycle_body reserve) s
    = foldF (recycle_body reserve) (map (\<lambda>q. container_of q slice_list_off) (map node_of fs)) s"
  proof (rule list_for_each_entry_safe_visits[where R = ?R])
    fix bs t assume "?R bs t"
    then show "tail_links (lists (mem t)) ?L bs"
      using dlist_tail_links[of _ ?L "[]"] pool_invD(1) by fastforce
  next
    fix x bs t t'
    assume r: "?R (x # bs) t"
      and b: "recycle_body reserve (container_of x slice_list_off) t = Inr (Go t')"
    then obtain p gs where p: "x = node_of p" "bs = map node_of gs" "pool_inv t (p # gs) U" by auto
    have "\<not> mp_ref t \<le> ucast reserve"
      using b by (auto simp: recycle_body_def)
    then obtain t1 where "recycle_body reserve p t = Inr (Go t1)" "pool_inv t1 gs U" "same_conf t t1"
      using recycle_step[OF p(3)] by metis
    then show "?R bs t'" using b p r by (auto simp: same_conf_def)
  next
    show "?R (map node_of fs) s" using i by auto
    show "length (map node_of fs) < fuel" using fuel by simp
    show "nx (lists (mem s)) ?L = Some (hd (map node_of fs @ [?L]))"
      using dlist_first[OF pool_invD(1)[OF i]] .
  qed
  then have eq: "raw_mempool_recycle fuel reserve s =
      (if fs = [] then Inr s else foldF (recycle_body reserve) fs s)"
    using list_empty_dlist[OF pool_invD(1)[OF i]] by (simp add: raw_mempool_recycle_def comp_def)
  show ?thesis using recycle_fold[OF i, of reserve] by (auto simp: eq)
qed

text \<open>With nothing to keep, the whole cache goes.\<close>

lemma recycled_all: "pool_inv s fs U \<Longrightarrow> recycled 0 s fs = length fs"
  using pool_invD(9)[of s fs U] by (simp add: recycled_def)

lemma mempool_recycle_ok:
  assumes i: "pool_inv s fs U" and u: "\<not> mp_locked s" and fuel: "length fs < fuel"
  shows "\<exists>s'. mempool_recycle fuel reserve s = Inr s' \<and> pool_inv s' [] U \<and> same_conf s s'
    \<and> magics (mem s') = (magics (mem s)) |` (- set fs)"
proof -
  let ?s = "s\<lparr>mp_locked := True\<rparr>"
  have i': "pool_inv ?s fs U" using i by simp
  obtain s1 where s1: "raw_mempool_recycle fuel 0 ?s = Inr s1" "pool_inv s1 [] U" "same_conf ?s s1"
      "magics (mem s1) = (magics (mem s)) |` (- set fs)"
    using raw_mempool_recycle_ok[OF i' fuel, of 0] recycled_all[OF i'] by auto
  then have "mempool_recycle fuel reserve s = Inr (s1\<lparr>mp_locked := False\<rparr>)"
    using u by (simp add: mempool_recycle_def spin_lock_def spin_unlock_def)
  then show ?thesis using s1 u by (auto simp: same_conf_def)
qed

lemma mempool_exit_ok:
  assumes i: "pool_inv s fs U" and fuel: "length fs < fuel"
  shows "\<exists>s'. mempool_exit fuel s =
      Inr (if U = {} then None else Some (of_nat (card U), mp_name s), s')
    \<and> pool_inv s' [] U \<and> magics (mem s') = (magics (mem s)) |` (- set fs)"
proof -
  obtain s1 where s1: "raw_mempool_recycle fuel 0 s = Inr s1" "pool_inv s1 [] U" "same_conf s s1"
      "magics (mem s1) = (magics (mem s)) |` (- set fs)"
    using raw_mempool_recycle_ok[OF i fuel, of 0] recycled_all[OF i] by auto
  have "unat (mp_ref s1) = card U" using pool_invD(9)[OF s1(2)] by simp
  moreover from this have "mp_ref s1 = of_nat (card U)" by (rule word_eq_of_unat)
  moreover have "mp_ref s1 = 0 \<longleftrightarrow> U = {}"
    using calculation(1) pool_invD(5)[OF i] by (auto simp flip: unat_eq_0)
  ultimately show ?thesis using s1 by (auto simp: mempool_exit_def same_conf_def)
qed

section \<open>The size of a slice\<close>

definition round_up8 :: "nat \<Rightarrow> nat" where
  "round_up8 n = (n + 7) div 8 * 8"

lemma round_up8_props: "8 dvd round_up8 n" "n \<le> round_up8 n" "round_up8 n < n + 8"
  unfolding round_up8_def by simp presburger+

lemma round_up8_pad: "round_up8 n - n = (if n mod 8 = 0 then 0 else 8 - n mod 8)"
proof -
  define q r where "q = n div 8" and "r = n mod 8"
  have n: "n = 8 * q + r" "r < 8" by (simp_all add: q_def r_def)
  have "(r + 7) div 8 = (if r = 0 then 0 else 1)"
    using n(2) by (auto simp: div_nat_eqI)
  then have "(n + 7) div 8 = q + (if r = 0 then 0 else 1)"
    using div_mult_self4[of 8 q "r + 7"] by (simp add: n(1) add.assoc)
  then have "round_up8 n - n = (if r = 0 then 0 else 8 - r)"
    using n unfolding round_up8_def by simp
  then show ?thesis by (simp add: r_def)
qed

lemma padding_unat:
  fixes w :: u32
  shows "unat (if (ucast w :: u64) mod 8 \<noteq> 0 then ucast (8 - (ucast w :: u64) mod 8) else 0 :: u32)
    = round_up8 (unat w) - unat w"
proof -
  let ?r = "(ucast w :: u64) mod 8"
  have r: "unat ?r = unat w mod 8" by (simp add: unat_mod_distrib)
  have "unat (8 - ?r) = 8 - unat w mod 8"
    using r by (subst unat_sub) (simp_all add: word_le_nat_alt)
  moreover have "unat (8 - ?r) < 2 ^ 32" using calculation by simp
  ultimately have "unat (ucast (8 - ?r) :: u32) = 8 - unat w mod 8"
    by (simp add: unsigned_ucast_eq take_bit_nat_eq_self)
  moreover have "?r = 0 \<longleftrightarrow> unat w mod 8 = 0"
  proof -
    have "?r = 0 \<longleftrightarrow> unat ?r = 0" by (simp only: unat_0_iff)
    also have "\<dots> \<longleftrightarrow> unat w mod 8 = 0" unfolding r ..
    finally show ?thesis .
  qed
  moreover have "round_up8 (unat w) - unat w = (if unat w mod 8 = 0 then 0 else 8 - unat w mod 8)"
    by (rule round_up8_pad)
  ultimately show ?thesis by simp
qed

lemma calc_slice_size_unat:
  "unat (mempool_calc_slice_size sz) = round_up8 (max 24 (unat sz)) mod 2 ^ 32"
proof -
  let ?w = "if sz < sizeof_mempool_slice then sizeof_mempool_slice else sz"
  have w: "unat ?w = max 24 (unat sz)"
    by (auto simp: sizeof_mempool_slice_def word_less_nat_alt)
  have "unat (mempool_calc_slice_size sz) = (unat ?w + (round_up8 (unat ?w) - unat ?w)) mod 2 ^ 32"
    unfolding mempool_calc_slice_size_def Let_def unat_word_ariths padding_unat by simp
  then show ?thesis using round_up8_props(2)[of "unat ?w"] by (simp only: w le_add_diff_inverse)
qed

lemma calc_slice_size_fits:
  assumes "unat sz \<le> 2 ^ 32 - 8"
  shows "unat (mempool_calc_slice_size sz) = round_up8 (max 24 (unat sz))"
proof -
  have "round_up8 (max 24 (unat sz)) < 2 ^ 32"
    using assms unfolding round_up8_def by (auto simp: max_def)
  then show ?thesis by (simp add: calc_slice_size_unat)
qed

lemma calc_slice_size_wraps:
  assumes "2 ^ 32 - 8 < unat sz"
  shows "mempool_calc_slice_size sz = 0"
proof -
  have "unat sz < 2 ^ 32" using unsigned_less[of sz] by simp
  then have "round_up8 (max 24 (unat sz)) = 2 ^ 32"
    using assms unfolding round_up8_def by (auto simp: max_def)
  then show ?thesis using calc_slice_size_unat[of sz] by (metis mod_self unat_eq_0)
qed

lemma sizeof_le_calc: "unat sz \<le> 2 ^ 32 - 8 \<Longrightarrow> sizeof_mempool_slice \<le> mempool_calc_slice_size sz"
  using round_up8_props(2)[of "max 24 (unat sz)"]
  by (simp add: word_le_nat_alt calc_slice_size_fits sizeof_mempool_slice_def)

section \<open>A new pool\<close>

lemma mempool_init_ok:
  assumes "mp \<noteq> NULL" and "n \<noteq> []" and "unat sz \<le> 2 ^ 32 - 8"
    and "mp + list_free_off \<in> dom (lists (mem s))"
  obtains s' where "mempool_init mp (Some n) sz mx c d s = Inr (0, s')" and "pool_inv s' [] {}"
    and "\<not> mp_locked s'" and "mp_max s' = mx" and "mp_ctor s' = c" and "mp_dtor s' = d"
    and "mp_fail s' = 0" and "mp_name s' = take 15 n"
    and "mp_sz s' = mempool_calc_slice_size sz" and "mp_self s' = mp"
    and "magics (mem s') = magics (mem s)"
proof -
  let ?h = "with_prev (with_next (lists (mem s)) (mp + list_free_off) (mp + list_free_off))
    (mp + list_free_off) (mp + list_free_off)"
  have "INIT_LIST_HEAD (mp + list_free_off) (lists (mem s)) = Inr ?h"
    using assms(4) by (rule INIT_LIST_HEAD_run)
  moreover have "dlist ?h (mp + list_free_off) []" using assms(4) by simp
  ultimately show ?thesis
    using that assms sizeof_le_calc[OF assms(3)]
    by (simp add: mempool_init_def on_lists_def pool_inv_def MEMPOOL_NAME_MAX_def)
qed

text \<open>Whatever the fuel, a recycle that returns has emptied the cache.\<close>

lemma mempool_recycle_mono:
  "mempool_recycle k reserve s = Inr t \<Longrightarrow> k \<le> k' \<Longrightarrow> mempool_recycle k' reserve s = Inr t"
  by (auto simp: mempool_recycle_def raw_mempool_recycle_def bindR_eq_Inr
      intro!: exI split: if_splits dest: list_for_each_entry_safe_mono)

lemma mempool_recycle_any:
  assumes "pool_inv s fs U" and "\<not> mp_locked s" and "mempool_recycle fuel reserve s = Inr s'"
  shows "pool_inv s' [] U \<and> same_conf s s'"
proof -
  let ?k = "fuel + Suc (length fs)"
  have "mempool_recycle ?k reserve s = Inr s'" by (rule mempool_recycle_mono[OF assms(3)]) simp
  then show ?thesis using mempool_recycle_ok[OF assms(1,2), of ?k reserve] by auto
qed

section \<open>A client of the pool\<close>

text \<open>
  A client that respects the interface: it frees and writes only slices it holds. The
  memory allocator answers freely, with memory nobody uses.
\<close>

inductive client_step :: "pool \<times> ptr set \<Rightarrow> pool \<times> ptr set \<Rightarrow> bool" where
  cs_alloc: "fresh_block r (mem s) \<Longrightarrow> mempool_alloc r s = Inr (p, s') \<Longrightarrow>
    client_step (s, U) (s', if p = NULL then U else insert p U)"
| cs_free: "p \<in> U \<Longrightarrow> mempool_free p s = Inr s' \<Longrightarrow> client_step (s, U) (s', U - {p})"
| cs_write: "p \<in> U \<Longrightarrow> confined p (mem s) m \<Longrightarrow> client_step (s, U) (s\<lparr>mem := m\<rparr>, U)"
| cs_recycle: "mempool_recycle fuel reserve s = Inr s' \<Longrightarrow> client_step (s, U) (s', U)"

inductive_cases client_stepE: "client_step (s, U) (s', U')"

text \<open>The clients' start: \<open>mempool_init\<close> on usable arguments.\<close>

definition client_start :: "pool \<times> ptr set \<Rightarrow> bool" where
  "client_start x \<longleftrightarrow> (\<exists>mp n sz mx c d s0. mempool_init mp (Some n) sz mx c d s0 = Inr (0, fst x)
     \<and> mp \<noteq> NULL \<and> n \<noteq> [] \<and> unat sz \<le> 2 ^ 32 - 8 \<and> mp + list_free_off \<in> dom (lists (mem s0))
     \<and> ctor_ok (fst x) \<and> dtor_ok (fst x) \<and> ctor_takes_null (fst x) \<and> snd x = {})"

definition client_inv :: "pool \<times> ptr set \<Rightarrow> bool" where
  "client_inv x \<longleftrightarrow> (\<exists>fs. pool_inv (fst x) fs (snd x)) \<and> \<not> mp_locked (fst x)
     \<and> ctor_ok (fst x) \<and> dtor_ok (fst x) \<and> ctor_takes_null (fst x)"

lemma same_conf_client:
  "same_conf s s' \<Longrightarrow> \<not> mp_locked s \<Longrightarrow> ctor_ok s \<Longrightarrow> dtor_ok s \<Longrightarrow> ctor_takes_null s
    \<Longrightarrow> \<not> mp_locked s' \<and> ctor_ok s' \<and> dtor_ok s' \<and> ctor_takes_null s'"
  by (simp add: same_conf_def ctor_ok_def dtor_ok_def ctor_takes_null_def)

lemma client_invI:
  assumes "client_inv (s, U)" and "same_conf s s'" and "pool_inv s' fs U'"
  shows "client_inv (s', U')"
  using assms same_conf_client[of s s'] by (auto simp: client_inv_def)

lemma client_invE:
  assumes "client_inv (s, U)"
  obtains fs where "pool_inv s fs U" and "\<not> mp_locked s" and "ctor_ok s" and "dtor_ok s"
    and "ctor_takes_null s"
  using assms by (auto simp: client_inv_def)

interpretation client: machine_invariant client_start client_step client_inv
proof
  fix x assume "client_start x"
  then obtain mp n sz mx c d s0 where x: "mempool_init mp (Some n) sz mx c d s0 = Inr (0, fst x)"
      "mp \<noteq> NULL" "n \<noteq> []" "unat sz \<le> 2 ^ 32 - 8" "mp + list_free_off \<in> dom (lists (mem s0))"
      "ctor_ok (fst x)" "dtor_ok (fst x)" "ctor_takes_null (fst x)" "snd x = {}"
    unfolding client_start_def by blast
  obtain s' where "mempool_init mp (Some n) sz mx c d s0 = Inr (0, s')" "pool_inv s' [] {}"
      "\<not> mp_locked s'" using mempool_init_ok[OF x(2-5)] by metis
  then show "client_inv x" using x by (auto simp: client_inv_def)
next
  fix x y assume st: "client_step x y" and i: "client_inv x"
  then obtain s U where x: "x = (s, U)" by (cases x) auto
  obtain s' U' where y: "y = (s', U')" by (cases y) auto
  note ci = i[unfolded x]
  obtain fs where a: "pool_inv s fs U" "\<not> mp_locked s" "ctor_ok s" "dtor_ok s" "ctor_takes_null s"
    using client_invE[OF ci] .
  have st': "client_step (s, U) (s', U')" using st x y by simp
  have "client_inv (s', U')"
  proof (rule client_stepE[OF st'])
    fix r p assume h: "U' = (if p = NULL then U else insert p U)" "fresh_block r (mem s)"
      "mempool_alloc r s = Inr (p, s')"
    obtain q t gs where "mempool_alloc r s = Inr (q, t)" "same_conf s t"
        "q = NULL \<Longrightarrow> pool_inv t gs U" "q \<noteq> NULL \<Longrightarrow> q \<notin> U \<and> pool_inv t gs (insert q U)"
      using mempool_alloc_ok[OF a(1,2) h(2) a(3,4,5)] by metis
    then show ?thesis
      using client_invI[OF ci, of t gs U'] h by (auto split: if_splits)
  next
    fix p assume h: "U' = U - {p}" "p \<in> U" "mempool_free p s = Inr s'"
    obtain t where "mempool_free p s = Inr t" "pool_inv t (p # fs) (U - {p})" "t = s\<lparr>mem := mem t\<rparr>"
      using mempool_free_ok[OF a(1) h(2) a(2,4)] .
    then show ?thesis
      using client_invI[OF ci, of t "p # fs" U'] h same_conf_upd(1)[of s "mem t"] by auto
  next
    fix p m assume h: "U = U'" "s' = s\<lparr>mem := m\<rparr>" "p \<in> U'" "confined p (mem s) m"
    then show ?thesis
      using client_invI[OF ci, of s' fs U'] pool_inv_confined[OF a(1) h(4)] by simp
  next
    fix fuel reserve assume h: "U' = U" "mempool_recycle fuel reserve s = Inr s'"
    then show ?thesis
      using mempool_recycle_any[OF a(1,2) h(2)] client_invI[OF ci] by blast
  qed
  then show "client_inv y" using y by simp
qed

section \<open>The pool as a cache and a set\<close>

text \<open>
  What the pool promises, without memory: the slices in the cache, hottest first, the slices
  in use, and the limit (0 for none).
\<close>

record apool =
  cache :: "ptr list"
  inuse :: "ptr set"
  cap :: nat

datatype pool_op = Alloc malloc_result | Free ptr | Recycle u32

fun spec_exec :: "pool_op \<Rightarrow> apool \<Rightarrow> ptr option \<times> apool" where
  "spec_exec (Alloc r) a =
     (case cache a of
        p # ps \<Rightarrow> (Some p, a\<lparr>cache := ps, inuse := insert p (inuse a)\<rparr>)
      | [] \<Rightarrow>
          if cap a \<noteq> 0 \<and> cap a \<le> card (inuse a) then (None, a)
          else (case r of None \<Rightarrow> (None, a)
                | Some (p, _, _) \<Rightarrow> (Some p, a\<lparr>inuse := insert p (inuse a)\<rparr>)))"
| "spec_exec (Free p) a = (None, a\<lparr>cache := p # cache a, inuse := inuse a - {p}\<rparr>)"
| "spec_exec (Recycle reserve) a = (None, a\<lparr>cache := []\<rparr>)"

fun pool_exec :: "nat \<Rightarrow> pool_op \<Rightarrow> pool \<Rightarrow> (ptr option \<times> pool) res" where
  "pool_exec fuel (Alloc r) s =
     bindR (mempool_alloc r s) (\<lambda>(p, s'). Inr (if p = NULL then None else Some p, s'))"
| "pool_exec fuel (Free p) s = bindR (mempool_free p s) (\<lambda>s'. Inr (None, s'))"
| "pool_exec fuel (Recycle reserve) s = bindR (mempool_recycle fuel reserve s) (\<lambda>s'. Inr (None, s'))"

fun op_allowed :: "nat \<Rightarrow> pool_op \<Rightarrow> pool \<Rightarrow> apool \<Rightarrow> bool" where
  "op_allowed fuel (Alloc r) s a = fresh_block r (mem s)"
| "op_allowed fuel (Free p) s a = (p \<in> inuse a)"
| "op_allowed fuel (Recycle reserve) s a = (length (cache a) < fuel)"

text \<open>The pool's callbacks accept every slice and stay inside it.\<close>

definition ctor_accepts :: "pool \<Rightarrow> bool" where
  "ctor_accepts s \<longleftrightarrow> (\<forall>c p m. mp_ctor s = Some c \<longrightarrow> fst (c p m) = 0)"

definition abstracts :: "pool \<Rightarrow> apool \<Rightarrow> bool" where
  "abstracts s a \<longleftrightarrow> pool_inv s (cache a) (inuse a) \<and> cap a = unat (mp_max s)
     \<and> \<not> mp_locked s \<and> ctor_ok s \<and> ctor_accepts s \<and> dtor_ok s"

lemma abstractsI:
  assumes "abstracts s a" and "same_conf s s'" and "pool_inv s' (cache a') (inuse a')"
    and "cap a' = cap a"
  shows "abstracts s' a'"
  using assms by (simp add: abstracts_def same_conf_def ctor_ok_def ctor_accepts_def dtor_ok_def)

lemma alloc_slice_spec:
  assumes i: "pool_inv s (cache a) (inuse a)" and cap: "cap a = unat (mp_max s)"
    and f: "fresh_block r (mem s)"
  obtains p s' where "alloc_slice r s = Inr (p, s')" and "same_conf s s'"
    and "fst (spec_exec (Alloc r) a) = (if p = NULL then None else Some p)"
    and "pool_inv s' (cache (snd (spec_exec (Alloc r) a))) (inuse (snd (spec_exec (Alloc r) a)))"
    and "p = NULL \<or> p \<in> inuse (snd (spec_exec (Alloc r) a))"
proof (cases "cache a")
  case (Cons p fs)
  obtain s' where s': "alloc_slice r s = Inr (p, s')" "pool_inv s' fs (insert p (inuse a))"
      "s' = s\<lparr>mem := mem s'\<rparr>"
    using alloc_slice_cached[of s p fs "inuse a" r] i Cons by auto
  have "same_conf s s'" by (subst s'(3)) simp
  moreover have "p \<noteq> NULL" using pool_invD(7)[OF i] Cons by auto
  ultimately show ?thesis using that[OF s'(1)] s'(2) Cons by simp
next
  case Nil
  note i0 = i[unfolded Nil]
  have ref: "unat (mp_ref s) = card (inuse a)" using pool_invD(9)[OF i0] by simp
  have full: "cap a \<noteq> 0 \<and> cap a \<le> card (inuse a) \<longleftrightarrow> mp_max s \<noteq> 0 \<and> mp_max s \<le> mp_ref s"
    using cap ref by (auto simp: word_le_nat_alt unat_0_iff)
  show ?thesis
  proof (cases "mp_max s \<noteq> 0 \<and> mp_max s \<le> mp_ref s")
    case True
    then show ?thesis
      using that[OF alloc_slice_limit[OF i0]] i0 Nil full by simp
  next
    case room: False
    show ?thesis
    proof (cases r)
      case None
      then show ?thesis
        using that[of NULL s] alloc_slice_nomem[OF i0] room full i0 Nil by (auto simp: not_le)
    next
      case (Some b)
      obtain p l g where b: "r = Some (p, l, g)" using Some by (cases b) auto
      obtain s' where s': "alloc_slice r s = Inr (p, s')" "pool_inv s' [] (insert p (inuse a))"
          "s' = s\<lparr>mp_ref := mp_ref s + 1, mem := take_block p l g (mem s)\<rparr>"
        using alloc_slice_fresh[OF i0, of p l g] room f b by (auto simp: not_le)
      have "p \<noteq> NULL" using f b by (simp add: fresh_block_def)
      then show ?thesis using that[OF s'(1)] s' Nil b room full by auto
    qed
  qed
qed

lemma pool_sim_alloc:
  assumes ab: "abstracts s a" and f: "fresh_block r (mem s)"
  shows "\<exists>s'. pool_exec fuel (Alloc r) s = Inr (fst (spec_exec (Alloc r) a), s')
    \<and> abstracts s' (snd (spec_exec (Alloc r) a))"
proof -
  let ?a = "snd (spec_exec (Alloc r) a)"
  have h: "pool_inv s (cache a) (inuse a)" "cap a = unat (mp_max s)" "\<not> mp_locked s" "ctor_ok s"
      "ctor_accepts s"
    using ab by (simp_all add: abstracts_def)
  obtain p s1 where s1: "alloc_slice r s = Inr (p, s1)" "same_conf s s1"
      "fst (spec_exec (Alloc r) a) = (if p = NULL then None else Some p)"
      "pool_inv s1 (cache ?a) (inuse ?a)" "p = NULL \<or> p \<in> inuse ?a"
    using alloc_slice_spec[OF h(1,2) f] by blast
  have cap: "cap ?a = cap a"
    by (simp split: list.splits option.splits)
  note eq = mempool_alloc_eq[OF h(3) s1(1,2)]
  show ?thesis
  proof (cases "mp_ctor s1")
    case None
    then show ?thesis
      using eq s1(3) abstractsI[OF ab s1(2,4) cap] by auto
  next
    case (Some k)
    obtain ret m where rm: "k p (mem s1) = (ret, m)" by (cases "k p (mem s1)")
    have k: "mp_ctor s = Some k" using Some s1(2) by (simp add: same_conf_def)
    have cf: "confined p (mem s1) m" using h(4) k rm by (metis ctor_ok_def snd_conv)
    have ret: "ret = 0" using h(5) k rm by (metis ctor_accepts_def fst_conv)
    have "pool_inv (s1\<lparr>mem := m\<rparr>) (cache ?a) (inuse ?a)"
      using pool_inv_confined[OF s1(4) cf] s1(5) by blast
    moreover have "same_conf s (s1\<lparr>mem := m\<rparr>)" using s1(2) by (simp add: same_conf_def)
    ultimately show ?thesis
      using eq Some rm ret s1(3) abstractsI[OF ab _ _ cap] by auto
  qed
qed

lemma pool_sim_free:
  assumes ab: "abstracts s a" and p: "p \<in> inuse a"
  shows "\<exists>s'. pool_exec fuel (Free p) s = Inr (fst (spec_exec (Free p) a), s')
    \<and> abstracts s' (snd (spec_exec (Free p) a))"
proof -
  have h: "pool_inv s (cache a) (inuse a)" "\<not> mp_locked s" "dtor_ok s"
    using ab by (simp_all add: abstracts_def)
  obtain t where t: "mempool_free p s = Inr t" "pool_inv t (p # cache a) (inuse a - {p})"
      "t = s\<lparr>mem := mem t\<rparr>"
    using mempool_free_ok[OF h(1) p h(2,3)] .
  have "same_conf s t" by (subst t(3)) simp
  then show ?thesis using t abstractsI[OF ab, of t] by simp
qed

lemma pool_sim_recycle:
  assumes ab: "abstracts s a" and fuel: "length (cache a) < fuel"
  shows "\<exists>s'. pool_exec fuel (Recycle v) s = Inr (fst (spec_exec (Recycle v) a), s')
    \<and> abstracts s' (snd (spec_exec (Recycle v) a))"
proof -
  have h: "pool_inv s (cache a) (inuse a)" "\<not> mp_locked s" using ab by (simp_all add: abstracts_def)
  obtain t where t: "mempool_recycle fuel v s = Inr t" "pool_inv t [] (inuse a)" "same_conf s t"
    using mempool_recycle_ok[OF h fuel] by blast
  then show ?thesis using abstractsI[OF ab t(3)] by simp
qed

section \<open>A concrete pool\<close>

text \<open>
  A pool at 4096 with two slices of 64 bytes, the limit reached: 8192 is cached, 12288 in use.
\<close>

definition demo_mem :: slice_mem where
  "demo_mem = \<lparr>
     lists = [4168 \<mapsto> \<lparr>lh_next = 8200, lh_prev = 8200\<rparr>,
              8200 \<mapsto> \<lparr>lh_next = 4168, lh_prev = 4168\<rparr>,
              12296 \<mapsto> \<lparr>lh_next = 0, lh_prev = 0\<rparr>],
     magics = [8192 \<mapsto> MEMPOOL_SLICE_MAGIC, 12288 \<mapsto> 7]\<rparr>"

definition demo_pool :: pool where
  "demo_pool = \<lparr>mp_self = 4096, mp_magic = 0x54085408, mp_sz = 64, mp_name = ''demo'',
     mp_ref = 2, mp_max = 2, mp_fail = 0, mp_ctor = None, mp_dtor = None, mp_locked = False,
     mem = demo_mem\<rparr>"

lemma demo_pool_inv: "pool_inv demo_pool [8192] {12288}"
  by (simp add: pool_inv_def demo_pool_def demo_mem_def dlist_def nx_def pv_def allocated_def
      list_free_off_def slice_list_off_def sizeof_mempool_slice_def)

lemma demo_pool_conf: "\<not> mp_locked demo_pool" "ctor_ok demo_pool" "dtor_ok demo_pool"
  "ctor_accepts demo_pool" "ctor_takes_null demo_pool"
  by (simp_all add: demo_pool_def ctor_ok_def dtor_ok_def ctor_accepts_def ctor_takes_null_def)

definition demo_apool :: apool where
  "demo_apool = \<lparr>cache = [8192], inuse = {12288}, cap = 2\<rparr>"

lemma demo_abstracts: "abstracts demo_pool demo_apool"
  using demo_pool_inv demo_pool_conf
  by (simp add: abstracts_def demo_apool_def) (simp add: demo_pool_def)

text \<open>The same pool before \<open>mempool_init\<close>, after it, and after one allocation.\<close>

definition demo_raw :: pool where
  "demo_raw = \<lparr>mp_self = 0, mp_magic = 0, mp_sz = 0, mp_name = [], mp_ref = 9, mp_max = 9,
     mp_fail = 9, mp_ctor = None, mp_dtor = None, mp_locked = True,
     mem = \<lparr>lists = [4168 \<mapsto> \<lparr>lh_next = 0, lh_prev = 0\<rparr>], magics = Map.empty\<rparr>\<rparr>"

definition demo_start :: pool where
  "demo_start = \<lparr>mp_self = 4096, mp_magic = 0x54085408, mp_sz = 64, mp_name = ''demo'',
     mp_ref = 0, mp_max = 2, mp_fail = 0, mp_ctor = None, mp_dtor = None, mp_locked = False,
     mem = \<lparr>lists = [4168 \<mapsto> \<lparr>lh_next = 4168, lh_prev = 4168\<rparr>], magics = Map.empty\<rparr>\<rparr>"

definition demo_one :: pool where
  "demo_one = demo_start\<lparr>mp_ref := 1, mem := take_block 8192 poisoned 5 (mem demo_start)\<rparr>"

lemma demo_start_init:
  "mempool_init 4096 (Some ''demo'') 64 2 None None demo_raw = Inr (0, demo_start)"
  by (simp add: mempool_init_def demo_raw_def demo_start_def on_lists_def INIT_LIST_HEAD_def
      set_next_def set_prev_def list_free_off_def MEMPOOL_NAME_MAX_def mempool_calc_slice_size_def
      sizeof_mempool_slice_def)

lemma demo_client_start: "client_start (demo_start, {})"
  unfolding client_start_def
  by (rule exI[of _ 4096], rule exI[of _ "''demo''"], rule exI[of _ 64], rule exI[of _ 2],
      rule exI[of _ None], rule exI[of _ None], rule exI[of _ demo_raw])
    (simp add: demo_start_init, simp add: demo_raw_def demo_start_def list_free_off_def
      ctor_ok_def dtor_ok_def ctor_takes_null_def)

lemma demo_client_step: "client_step (demo_start, {}) (demo_one, {8192})"
proof -
  have "mempool_alloc (Some (8192, poisoned, 5)) demo_start = Inr (8192, demo_one)"
    by (simp add: mempool_alloc_def spin_lock_def spin_unlock_def alloc_slice_def list_empty_def
        get_next_def demo_start_def demo_one_def list_free_off_def sizeof_mempool_slice_def)
  moreover have "fresh_block (Some (8192, poisoned, 5)) (mem demo_start)"
    by (simp add: fresh_block_def demo_start_def slice_list_off_def)
  ultimately show ?thesis
    using client_step.cs_alloc[of "Some (8192, poisoned, 5)" demo_start 8192 demo_one "{}"] by simp
qed

text \<open>A pool at its limit whose constructor refuses NULL.\<close>

definition demo_ctor :: ctor where
  "demo_ctor p m = (if p = NULL then -1 else 0, m)"

definition demo_full :: pool where
  "demo_full = demo_pool\<lparr>mp_ref := 1, mp_max := 1, mp_ctor := Some demo_ctor,
     mem := demo_mem\<lparr>lists := (lists demo_mem)(4168 \<mapsto> \<lparr>lh_next = 4168, lh_prev = 4168\<rparr>)\<rparr>\<rparr>"

lemma demo_full_inv: "pool_inv demo_full [] {12288}"
  by (simp add: pool_inv_def demo_full_def demo_pool_def demo_mem_def nx_def pv_def allocated_def
      list_free_off_def slice_list_off_def sizeof_mempool_slice_def)

section \<open>Properties\<close>





text \<open>The cache is hot. A slice given back is the next one handed out, without asking
  \<open>malloc\<close>, whatever \<open>malloc\<close> would answer and even at the limit; the pool is then as before
  but for the memory.\<close>

theorem pool_free_then_alloc:
  assumes "pool_inv s fs U" and "p \<in> U" and "\<not> mp_locked s" and "mp_ctor s = None" and "dtor_ok s"
  shows "\<exists>s'. bindR (mempool_free p s) (mempool_alloc r) = Inr (p, s')
    \<and> pool_inv s' fs U \<and> s' = s\<lparr>mem := mem s'\<rparr>"
proof -
  obtain s1 where s1: "mempool_free p s = Inr s1" "pool_inv s1 (p # fs) (U - {p})" "s1 = s\<lparr>mem := mem s1\<rparr>"
    using mempool_free_ok[OF assms(1,2,3,5)] .
  obtain s2 where s2: "alloc_slice r s1 = Inr (p, s2)" "pool_inv s2 fs (insert p (U - {p}))"
      "s2 = s1\<lparr>mem := mem s2\<rparr>"
    using alloc_slice_cached[OF s1(2)] by metis
  have sc: "same_conf s s1" "same_conf s1 s2" by (subst s1(3), simp) (subst s2(3), simp)
  have "\<not> mp_locked s1" "mp_ctor s2 = None" using sc assms(3,4) by (simp_all add: same_conf_def)
  then have "mempool_alloc r s1 = Inr (p, s2)" using mempool_alloc_eq[OF _ s2(1) sc(2)] by simp
  moreover have "insert p (U - {p}) = U" using assms(2) by auto
  moreover have "s2 = s\<lparr>mem := mem s2\<rparr>" by (subst s2(3), subst s1(3)) simp
  ultimately show ?thesis using s1(1) s2(2) by simp
qed

theorem pool_free_then_alloc_witness:
  "\<exists>s'. bindR (mempool_free 12288 demo_pool) (mempool_alloc None) = Inr (12288, s')
    \<and> pool_inv s' [8192] {12288}"
  using pool_free_then_alloc[OF demo_pool_inv, of 12288 None] demo_pool_conf
  by (auto simp: demo_pool_def)

text \<open>C31: \<open>mempool_exit\<close> empties the cache, gives exactly the cached slices back to the system, and
  reports a leak if and only if the client still holds slices, with their number.\<close>

theorem mempool_exit_reports_leaks:
  assumes "pool_inv s fs U" and "length fs < fuel"
  shows "\<exists>s'. mempool_exit fuel s =
      Inr (if U = {} then None else Some (of_nat (card U), mp_name s), s')
    \<and> pool_inv s' [] U \<and> magics (mem s') = (magics (mem s)) |` (- set fs)"
  using mempool_exit_ok[OF assms] .

theorem mempool_exit_reports_leaks_witness:
  "\<exists>s'. mempool_exit 2 demo_pool = Inr (Some (1, ''demo''), s') \<and> pool_inv s' [] {12288}"
  using mempool_exit_reports_leaks[OF demo_pool_inv, of 2] by (auto simp: demo_pool_def)

text \<open>C30: \<open>__mempool_recycle\<close> frees slices from the head of the cache until no more than
  \<open>reserve\<close> slices exist in all, or the cache is empty; the rest of the cache keeps its order.\<close>

theorem raw_mempool_recycle_keeps_reserve:
  assumes "pool_inv s fs U" and "length fs < fuel"
  shows "\<exists>s'. raw_mempool_recycle fuel reserve s = Inr s'
    \<and> pool_inv s' (drop (length fs + card U - unat reserve) fs) U
    \<and> unat (mp_ref s') = max (card U) (min (length fs + card U) (unat reserve))"
proof -
  obtain s' where s': "raw_mempool_recycle fuel reserve s = Inr s'"
      "pool_inv s' (drop (recycled reserve s fs) fs) U"
    using raw_mempool_recycle_ok[OF assms] by blast
  have "drop (recycled reserve s fs) fs = drop (length fs + card U - unat reserve) fs"
    using pool_invD(9)[OF assms(1)] by (simp add: recycled_def min_def)
  then have i: "pool_inv s' (drop (length fs + card U - unat reserve) fs) U" using s'(2) by simp
  then have "unat (mp_ref s') = max (card U) (min (length fs + card U) (unat reserve))"
    using pool_invD(9)[OF i] by auto
  then show ?thesis using s'(1) i by blast
qed

theorem raw_mempool_recycle_keeps_reserve_witness:
  "\<exists>s'. raw_mempool_recycle 2 2 demo_pool = Inr s' \<and> pool_inv s' [8192] {12288}"
  using raw_mempool_recycle_keeps_reserve[OF demo_pool_inv, of 2 2] by auto

text \<open>\<open>mempool_recycle\<close> ignores its \<open>reserve\<close>: it always frees the whole cache, because it calls
  \<open>__mempool_recycle\<close> with 0.\<close>

theorem mempool_recycle_ignores_reserve:
  assumes "pool_inv s fs U" and "\<not> mp_locked s" and "length fs < fuel"
  shows "\<exists>s'. (\<forall>reserve. mempool_recycle fuel reserve s = Inr s')
    \<and> pool_inv s' [] U \<and> unat (mp_ref s') = card U"
proof -
  obtain s' where s': "mempool_recycle fuel 0 s = Inr s'" "pool_inv s' [] U"
    using mempool_recycle_ok[OF assms] by blast
  have "mempool_recycle fuel reserve s = mempool_recycle fuel 0 s" for reserve
    by (simp add: mempool_recycle_def)
  then show ?thesis using s' pool_invD(9)[OF s'(2)] by auto
qed

theorem mempool_recycle_ignores_reserve_witness:
  "\<exists>s'. mempool_recycle 2 100 demo_pool = Inr s' \<and> pool_inv s' [] {12288}"
  using mempool_recycle_ignores_reserve[OF demo_pool_inv demo_pool_conf(1), of 2] by auto

text \<open>The size of a slice is the request, at least the header, rounded up to the next multiple
  of 8, as long as that fits 32 bits.\<close>

theorem mempool_calc_slice_size_rounds_up:
  assumes "unat sz \<le> 2 ^ 32 - 8"
  shows "8 dvd unat (mempool_calc_slice_size sz)
    \<and> max 24 (unat sz) \<le> unat (mempool_calc_slice_size sz)
    \<and> unat (mempool_calc_slice_size sz) < max 24 (unat sz) + 8"
  using round_up8_props calc_slice_size_fits[OF assms] by metis

theorem mempool_calc_slice_size_rounds_up_witness:
  "8 dvd unat (mempool_calc_slice_size 57) \<and> 57 \<le> unat (mempool_calc_slice_size 57)
    \<and> unat (mempool_calc_slice_size 57) < 65"
  using mempool_calc_slice_size_rounds_up[of 57] by simp

text \<open>C37: for the seven largest requests the rounding wraps to 0. \<open>mempool_init\<close> accepts the
  pool all the same, and the first allocation stops the program in \<open>BUG_ON\<close>.\<close>

theorem mempool_oversized_request_aborts:
  assumes "2 ^ 32 - 8 < unat sz" and "mp \<noteq> NULL" and "n \<noteq> []"
    and "mp + list_free_off \<in> dom (lists (mem s))"
  shows "\<exists>s'. mempool_init mp (Some n) sz mx c d s = Inr (0, s') \<and> mempool_alloc r s' = Inl BugOn"
proof -
  let ?L = "mp + list_free_off"
  let ?h = "with_prev (with_next (lists (mem s)) ?L ?L) ?L ?L"
  have "INIT_LIST_HEAD ?L (lists (mem s)) = Inr ?h" using assms(4) by (rule INIT_LIST_HEAD_run)
  then obtain s' where s': "mempool_init mp (Some n) sz mx c d s = Inr (0, s')" "mp_sz s' = 0"
      "mp_ref s' = 0" "mp_max s' = mx" "\<not> mp_locked s'" "list_free s' = ?L" "lists (mem s') = ?h"
    using assms by (simp add: mempool_init_def on_lists_def calc_slice_size_wraps)
  have "list_empty (list_free s') (lists (mem s')) = Inr True"
    using list_empty_dlist[of ?h ?L "[]"] assms(4) s' by simp
  then have "alloc_slice r s' = Inl BugOn"
    using s' by (simp add: alloc_slice_def sizeof_mempool_slice_def)
  then have "mempool_alloc r s' = Inl BugOn"
    using s'(5) by (simp add: mempool_alloc_def spin_lock_def alloc_slice_lock)
  then show ?thesis using s'(1) by blast
qed

theorem mempool_oversized_request_aborts_witness:
  "\<exists>s'. mempool_init 4096 (Some ''demo'') 0xFFFFFFF9 2 None None demo_raw = Inr (0, s')
    \<and> mempool_alloc None s' = Inl BugOn"
  using mempool_oversized_request_aborts[of "0xFFFFFFF9" 4096 "''demo''" demo_raw 2 None None None]
  by (simp add: demo_raw_def list_free_off_def)

text \<open>C38: at the limit with an empty cache, a constructor that refuses the NULL it is given makes
  \<open>mempool_alloc\<close> free NULL: a segmentation fault, where a failed allocation is meant.\<close>

theorem mempool_ctor_refusing_null_crashes:
  assumes "pool_inv s [] U" and "\<not> mp_locked s" and "mp_max s \<noteq> 0" and "mp_max s \<le> mp_ref s"
    and "mp_ctor s = Some c" and "fst (c NULL (mem s)) \<noteq> 0" and "ctor_ok s" and "dtor_ok s"
    and "NULL \<notin> dom (magics (mem s))"
  shows "mempool_alloc r s = Inl SegFault"
proof -
  let ?s1 = "s\<lparr>mp_fail := mp_fail s + 1\<rparr>"
  obtain ret m where rm: "c NULL (mem s) = (ret, m)" by (cases "c NULL (mem s)")
  have "confined NULL (mem s) m" using assms(5,7) rm by (metis ctor_ok_def snd_conv)
  then have "NULL \<notin> dom (magics m)" using assms(9) by (simp add: confined_def)
  moreover have "dtor_ok (?s1\<lparr>mem := m\<rparr>)" using assms(8) by (simp add: dtor_ok_def)
  ultimately have "mempool_free NULL (?s1\<lparr>mem := m\<rparr>) = Inl SegFault"
    by (intro mempool_free_null) simp_all
  then show ?thesis
    using mempool_alloc_eq[OF assms(2) alloc_slice_limit[OF assms(1,3,4)]] assms(5,6) rm by simp
qed

theorem mempool_ctor_refusing_null_crashes_witness:
  "mempool_alloc None demo_full = Inl SegFault"
proof (rule mempool_ctor_refusing_null_crashes[OF demo_full_inv, of demo_ctor])
  show "ctor_ok demo_full" "dtor_ok demo_full"
    by (simp_all add: demo_full_def demo_pool_def ctor_ok_def dtor_ok_def demo_ctor_def)
qed (simp_all add: demo_full_def demo_pool_def demo_ctor_def demo_mem_def)

end
