(* ===== verification/Mempool_Threads.thy ===== *)
theory Mempool_Threads
  imports Mempool
begin

text \<open>
  The pool of \<open>mempool/mempool.c\<close> with any number of threads inside it at once. Each thread
  executes \<open>mempool_alloc\<close>, \<open>mempool_free\<close> or \<open>mempool_recycle\<close> statement by statement; the only
  thing that keeps them apart is the spinlock. Run alone, the statements make up the operations of
  \<open>Mempool\<close>; run together, they keep its invariant.
\<close>

section \<open>The statements\<close>

text \<open>
  Where a thread is: \<open>A_\<close> in \<open>mempool_alloc\<close>, \<open>F_\<close> in \<open>mempool_free\<close>, \<open>R_\<close> in \<open>mempool_recycle\<close>.
  The arguments are the local variables: the slice, and in the loop of the recycle \<open>slice\<close> and
  \<open>slice_save\<close>.
\<close>

datatype mt_pc =
  T_idle
| A_lock \<comment> \<open>\<open>pthread_spin_lock\<close>\<close>
| A_test \<comment> \<open>\<open>list_empty(&mp->list_free)\<close>\<close>
| A_new \<comment> \<open>the limit, \<open>malloc\<close>, \<open>mp->ref++\<close>\<close>
| A_first \<comment> \<open>\<open>list_first_entry\<close>\<close>
| A_del ptr
| A_check ptr \<comment> \<open>\<open>BUG_ON(slice->magic != ...)\<close>\<close>
| A_unlock ptr
| A_ctor ptr
| A_return ptr
| F_dtor ptr
| F_magic ptr
| F_lock ptr
| F_add ptr
| F_unlock
| R_lock
| R_test \<comment> \<open>\<open>!list_empty(&mp->list_free)\<close>\<close>
| R_enter \<comment> \<open>the start of \<open>list_for_each_entry_safe\<close>\<close>
| R_loop ptr ptr \<comment> \<open>its condition, and \<open>mp->ref <= reserve\<close>\<close>
| R_del ptr ptr
| R_free ptr ptr
| R_advance ptr
| R_unlock

text \<open>The branch of \<open>alloc_slice\<close> for an empty cache\<close>

definition new_slice :: "malloc_result \<Rightarrow> pool \<Rightarrow> (ptr \<times> pool) res" where
  "new_slice r s =
     (if mp_max s \<noteq> 0 \<and> mp_ref s \<ge> mp_max s
      then Inr (NULL, s\<lparr>mp_fail := mp_fail s + 1\<rparr>)
      else bug_on (mp_sz s < sizeof_mempool_slice)
        (case r of
           None \<Rightarrow> Inr (NULL, s)
         | Some (p, l, g) \<Rightarrow> Inr (p, s\<lparr>mp_ref := mp_ref s + 1, mem := take_block p l g (mem s)\<rparr>)))"

text \<open>A thread spins while the lock is taken: \<open>None\<close>.\<close>

definition lock_then :: "mt_pc \<Rightarrow> pool \<Rightarrow> (mt_pc \<times> pool) res option" where
  "lock_then pc s = (case spin_lock s of Inl _ \<Rightarrow> None | Inr s \<Rightarrow> Some (Inr (pc, s)))"

definition go :: "mt_pc \<Rightarrow> pool res \<Rightarrow> (mt_pc \<times> pool) res option" where
  "go pc m = Some (bindR m (\<lambda>s. Inr (pc, s)))"

text \<open>One statement; \<open>r\<close> is what \<open>malloc\<close> would answer. \<open>mempool_recycle\<close> passes the reserve 0.\<close>

fun thread_step :: "malloc_result \<Rightarrow> mt_pc \<Rightarrow> pool \<Rightarrow> (mt_pc \<times> pool) res option" where
  "thread_step r T_idle s = None"
| "thread_step r A_lock s = lock_then A_test s"
| "thread_step r A_test s =
     Some (bindR (list_empty (list_free s) (lists (mem s))) (\<lambda>e. Inr (if e then A_new else A_first, s)))"
| "thread_step r A_new s = Some (bindR (new_slice r s) (\<lambda>(p, s). Inr (A_unlock p, s)))"
| "thread_step r A_first s =
     Some (bindR (list_first_entry (list_free s) slice_list_off (lists (mem s))) (\<lambda>p. Inr (A_del p, s)))"
| "thread_step r (A_del p) s = go (A_check p) (on_lists (list_del (p + slice_list_off)) s)"
| "thread_step r (A_check p) s =
     Some (bindR (get_magic p s) (\<lambda>g. bug_on (g \<noteq> MEMPOOL_SLICE_MAGIC) (Inr (A_unlock p, s))))"
| "thread_step r (A_unlock p) s = go (A_ctor p) (spin_unlock s)"
| "thread_step r (A_ctor p) s =
     (case mp_ctor s of
        None \<Rightarrow> Some (Inr (A_return p, s))
      | Some c \<Rightarrow> (let (ret, m) = c p (mem s) in
          Some (Inr (if ret \<noteq> 0 then F_dtor p else A_return p, s\<lparr>mem := m\<rparr>))))"
| "thread_step r (A_return p) s = None"
| "thread_step r (F_dtor p) s =
     Some (Inr (F_magic p, case mp_dtor s of None \<Rightarrow> s | Some d \<Rightarrow> s\<lparr>mem := d p (mem s)\<rparr>))"
| "thread_step r (F_magic p) s = go (F_lock p) (set_magic p MEMPOOL_SLICE_MAGIC s)"
| "thread_step r (F_lock p) s = lock_then (F_add p) s"
| "thread_step r (F_add p) s = go F_unlock (on_lists (list_add (p + slice_list_off) (list_free s)) s)"
| "thread_step r F_unlock s = go T_idle (spin_unlock s)"
| "thread_step r R_lock s = lock_then R_test s"
| "thread_step r R_test s =
     Some (bindR (list_empty (list_free s) (lists (mem s))) (\<lambda>e. Inr (if \<not> e then R_enter else R_unlock, s)))"
| "thread_step r R_enter s =
     Some (bindR (list_first_entry (list_free s) slice_list_off (lists (mem s))) (\<lambda>p.
           bindR (get_next (lists (mem s)) (p + slice_list_off)) (\<lambda>q.
             Inr (R_loop p (container_of q slice_list_off), s))))"
| "thread_step r (R_loop p n) s =
     Some (Inr (if p + slice_list_off = list_free s \<or> mp_ref s \<le> 0 then R_unlock else R_del p n, s))"
| "thread_step r (R_del p n) s = go (R_free p n) (on_lists (list_del (p + slice_list_off)) s)"
| "thread_step r (R_free p n) s = go (R_advance n) (free_slice p s)"
| "thread_step r (R_advance n) s =
     Some (bindR (get_next (lists (mem s)) (n + slice_list_off)) (\<lambda>q.
       Inr (R_loop n (container_of q slice_list_off), s)))"
| "thread_step r R_unlock s = go T_idle (spin_unlock s)"

section \<open>One thread alone\<close>

text \<open>Statement after statement until the call is over. A lock that is taken is a \<open>Deadlock\<close>.\<close>

fun solo :: "nat \<Rightarrow> malloc_result \<Rightarrow> mt_pc \<Rightarrow> pool \<Rightarrow> (mt_pc \<times> pool) res" where
  "solo 0 r pc s = Inl Diverge"
| "solo (Suc k) r pc s =
     (if pc = T_idle \<or> (\<exists>p. pc = A_return p) then Inr (pc, s)
      else (case thread_step r pc s of
              None \<Rightarrow> Inl Deadlock
            | Some (Inl e) \<Rightarrow> Inl e
            | Some (Inr (pc, s)) \<Rightarrow> solo k r pc s))"

lemma alloc_slice_parts:
  "alloc_slice r s = bindR (list_empty (list_free s) (lists (mem s))) (\<lambda>e.
     if e then new_slice r s
     else bindR (list_first_entry (list_free s) slice_list_off (lists (mem s))) (\<lambda>p.
          bindR (on_lists (list_del (p + slice_list_off)) s) (\<lambda>s.
          bindR (get_magic p s) (\<lambda>g. bug_on (g \<noteq> MEMPOOL_SLICE_MAGIC) (Inr (p, s))))))"
  unfolding alloc_slice_def new_slice_def by (rule refl)

lemma solo_step:
  "pc \<noteq> T_idle \<Longrightarrow> (\<And>p. pc \<noteq> A_return p) \<Longrightarrow> solo (Suc k) r pc =
     (\<lambda>s. case thread_step r pc s of None \<Rightarrow> Inl Deadlock | Some m \<Rightarrow> bindR m (\<lambda>(pc, s). solo k r pc s))"
  by (auto simp: bindR_def fun_eq_iff split: option.splits sum.splits prod.splits)

lemma solo_done [simp]: "solo (Suc k) r T_idle = (\<lambda>s. Inr (T_idle, s))" "solo (Suc k) r (A_return p) = (\<lambda>s. Inr (A_return p, s))"
  by (simp_all add: fun_eq_iff)

declare solo.simps(2) [simp del]

lemma lock_then_bind:
  "(case lock_then pc s of None \<Rightarrow> Inl Deadlock | Some m \<Rightarrow> bindR m (\<lambda>(pc, s). f pc s)) = bindR (spin_lock s) (f pc)"
  by (simp add: lock_then_def spin_lock_def)

lemma go_bind:
  "(case go pc m of None \<Rightarrow> Inl Deadlock | Some m \<Rightarrow> bindR m (\<lambda>(pc, s). f pc s)) = bindR m (f pc)"
  by (simp add: go_def bindR_assoc)

lemma solo_free: "solo (k + 7) r (F_dtor p) s = bindR (mempool_free p s) (\<lambda>s. Inr (T_idle, s))"
  by (simp add: eval_nat_numeral solo_step lock_then_bind go_bind mempool_free_def Let_def bindR_assoc)
    (simp add: spin_lock_def spin_unlock_def set_magic_def on_lists_def bindR_def split: option.splits sum.splits)

text \<open>What the call returns\<close>

fun returned :: "mt_pc \<Rightarrow> ptr" where
  "returned (A_return p) = p"
| "returned _ = NULL"

lemma solo_ctor:
  "bindR (solo (k + 9) r (A_ctor p) s) (\<lambda>(pc, s). Inr (returned pc, s)) =
     (case mp_ctor s of
        None \<Rightarrow> Inr (p, s)
      | Some c \<Rightarrow>
          (let (ret, m) = c p (mem s); s = s\<lparr>mem := m\<rparr> in
           if ret \<noteq> 0 then bindR (mempool_free p s) (\<lambda>s. Inr (NULL, s)) else Inr (p, s)))"
  using solo_free[of "Suc k" r p]
  by (simp add: eval_nat_numeral solo_step split_beta Let_def bindR_assoc split: option.splits)

lemma solo_unlock:
  "bindR (solo (k + 10) r (A_unlock p) s) (\<lambda>(pc, s). Inr (returned pc, s)) = bindR (spin_unlock s) (\<lambda>s.
     case mp_ctor s of
       None \<Rightarrow> Inr (p, s)
     | Some c \<Rightarrow>
         (let (ret, m) = c p (mem s); s = s\<lparr>mem := m\<rparr> in
          if ret \<noteq> 0 then bindR (mempool_free p s) (\<lambda>s. Inr (NULL, s)) else Inr (p, s)))"
proof -
  have "solo (k + 10) r (A_unlock p) s = solo (k + 9) r (A_ctor p) (s\<lparr>mp_locked := False\<rparr>)"
    by (simp add: eval_nat_numeral solo_step go_bind spin_unlock_def)
  then show ?thesis using solo_ctor[of k r p "s\<lparr>mp_locked := False\<rparr>"] by (simp add: spin_unlock_def)
qed

lemma solo_section:
  "bindR (solo (k + 14) r A_test s) (\<lambda>(pc, s). Inr (returned pc, s)) = bindR (alloc_slice r s) (\<lambda>(p, s).
     bindR (solo (k + 10) r (A_unlock p) s) (\<lambda>(pc, s). Inr (returned pc, s)))"
proof (cases "list_empty (list_free s) (lists (mem s))")
  case (Inl e)
  then show ?thesis by (simp add: eval_nat_numeral solo_step alloc_slice_parts)
next
  case (Inr e)
  show ?thesis
  proof (cases e)
    case True
    have "solo (k + 14) r A_test s = bindR (new_slice r s) (\<lambda>(p, s). solo (k + 2 + 10) r (A_unlock p) s)"
      using Inr True by (simp add: eval_nat_numeral solo_step bindR_assoc case_prod_unfold)
    then show ?thesis using Inr True solo_unlock[of "k + 2" r] solo_unlock[of k r]
      by (cases "new_slice r s") (auto simp: alloc_slice_parts)
  next
    case False
    have "solo (Suc (Suc (Suc (Suc n)))) r A_test s = bindR (list_first_entry (list_free s) slice_list_off (lists (mem s))) (\<lambda>p.
          bindR (on_lists (list_del (p + slice_list_off)) s) (\<lambda>s.
          bindR (get_magic p s) (\<lambda>g. bindR (bug_on (g \<noteq> MEMPOOL_SLICE_MAGIC) (Inr (p, s))) (\<lambda>(p, s). solo n r (A_unlock p) s))))" for n
      using Inr False by (simp add: solo_step go_bind bindR_assoc) (simp add: bug_on_def if_distrib[of "\<lambda>m. bindR m f" for f] cong: if_cong)
    from this[of "k + 10"] have "solo (k + 14) r A_test s = bindR (list_first_entry (list_free s) slice_list_off (lists (mem s))) (\<lambda>p.
          bindR (on_lists (list_del (p + slice_list_off)) s) (\<lambda>s.
          bindR (get_magic p s) (\<lambda>g. bindR (bug_on (g \<noteq> MEMPOOL_SLICE_MAGIC) (Inr (p, s))) (\<lambda>(p, s). solo (k + 10) r (A_unlock p) s))))"
      by (simp add: eval_nat_numeral)
    then show ?thesis using Inr False by (simp add: alloc_slice_parts bindR_assoc case_prod_unfold)
  qed
qed

text \<open>
  The statements of \<open>mempool_alloc\<close> and \<open>mempool_free\<close>, one after the other, are those functions.
\<close>

lemma solo_alloc: "bindR (solo (k + 15) r A_lock s) (\<lambda>(pc, s). Inr (returned pc, s)) = mempool_alloc r s"
proof (cases "spin_lock s")
  case (Inl e)
  then show ?thesis by (simp add: eval_nat_numeral solo_step lock_then_bind mempool_alloc_def)
next
  case (Inr s1)
  then have "solo (k + 15) r A_lock s = solo (k + 14) r A_test s1"
    by (simp add: eval_nat_numeral solo_step lock_then_bind)
  then show ?thesis using Inr solo_section[of k r s1] by (simp add: mempool_alloc_def solo_unlock)
qed


section \<open>The threads together\<close>

text \<open>
  \<open>used\<close> are the slices the program holds; any thread may free or write any of them, as the
  self tests do, where one thread allocates and another frees.
\<close>

record mt =
  mt_pool :: pool
  mt_pcs :: "nat \<Rightarrow> mt_pc"
  used :: "ptr set"

inductive mt_step :: "mt \<Rightarrow> mt \<Rightarrow> bool" where
  run: "fresh_block r (mem (mt_pool s)) \<Longrightarrow> thread_step r (mt_pcs s i) (mt_pool s) = Some (Inr (pc, p))
    \<Longrightarrow> mt_step s (s\<lparr>mt_pool := p, mt_pcs := (mt_pcs s)(i := pc)\<rparr>)"
| call_alloc: "mt_pcs s i = T_idle \<Longrightarrow> mt_step s (s\<lparr>mt_pcs := (mt_pcs s)(i := A_lock)\<rparr>)"
| return_alloc: "mt_pcs s i = A_return p
    \<Longrightarrow> mt_step s (s\<lparr>mt_pcs := (mt_pcs s)(i := T_idle), used := used s \<union> ({p} - {NULL})\<rparr>)"
| call_free: "mt_pcs s i = T_idle \<Longrightarrow> p \<in> used s
    \<Longrightarrow> mt_step s (s\<lparr>mt_pcs := (mt_pcs s)(i := F_dtor p), used := used s - {p}\<rparr>)"
| call_recycle: "mt_pcs s i = T_idle \<Longrightarrow> mt_step s (s\<lparr>mt_pcs := (mt_pcs s)(i := R_lock)\<rparr>)"
| client_write: "p \<in> used s \<Longrightarrow> confined p (mem (mt_pool s)) m
    \<Longrightarrow> mt_step s (s\<lparr>mt_pool := (mt_pool s)\<lparr>mem := m\<rparr>\<rparr>)"

definition mt_start :: "mt \<Rightarrow> bool" where
  "mt_start s \<longleftrightarrow> client_start (mt_pool s, used s) \<and> mt_pcs s = (\<lambda>_. T_idle)"

section \<open>What holds at each statement\<close>

text \<open>Who holds the lock; the slice a thread has in its hands.\<close>

fun in_section :: "mt_pc \<Rightarrow> bool" where
  "in_section A_test = True" | "in_section A_new = True" | "in_section A_first = True"
| "in_section (A_del _) = True" | "in_section (A_check _) = True" | "in_section (A_unlock _) = True"
| "in_section (F_add _) = True" | "in_section F_unlock = True"
| "in_section R_test = True" | "in_section R_enter = True" | "in_section (R_loop _ _) = True"
| "in_section (R_del _ _) = True" | "in_section (R_free _ _) = True" | "in_section (R_advance _) = True"
| "in_section R_unlock = True"
| "in_section _ = False"

fun hand :: "mt_pc \<Rightarrow> ptr set" where
  "hand (A_check p) = {p}" | "hand (A_unlock p) = {p} - {NULL}" | "hand (A_ctor p) = {p} - {NULL}"
| "hand (A_return p) = {p} - {NULL}" | "hand (F_dtor p) = {p}" | "hand (F_magic p) = {p}"
| "hand (F_lock p) = {p}" | "hand (F_add p) = {p}" | "hand (R_free p _) = {p}"
| "hand _ = {}"

text \<open>\<open>n\<close> is where the list \<open>fs\<close> starts, possibly the list head taken for a slice.\<close>

abbreviation starts_at :: "pool \<Rightarrow> ptr list \<Rightarrow> ptr \<Rightarrow> bool" where
  "starts_at s fs n \<equiv> node_of n = hd (map node_of fs @ [list_free s])"

fun pc_ok :: "pool \<Rightarrow> ptr list \<Rightarrow> mt_pc \<Rightarrow> bool" where
  "pc_ok s fs A_new = (fs = [])"
| "pc_ok s fs A_first = (fs \<noteq> [])"
| "pc_ok s fs (A_del p) = (\<exists>gs. fs = p # gs)"
| "pc_ok s fs (A_check p) = (magics (mem s) p = Some MEMPOOL_SLICE_MAGIC)"
| "pc_ok s fs (F_lock p) = (magics (mem s) p = Some MEMPOOL_SLICE_MAGIC)"
| "pc_ok s fs (F_add p) = (magics (mem s) p = Some MEMPOOL_SLICE_MAGIC)"
| "pc_ok s fs R_enter = (fs \<noteq> [])"
| "pc_ok s fs (R_loop p n) = (starts_at s fs p \<and> (fs \<noteq> [] \<longrightarrow> starts_at s (tl fs) n))"
| "pc_ok s fs (R_del p n) = (\<exists>gs. fs = p # gs \<and> starts_at s gs n)"
| "pc_ok s fs (R_free p n) = (magics (mem s) p = Some MEMPOOL_SLICE_MAGIC \<and> starts_at s fs n)"
| "pc_ok s fs (R_advance n) = starts_at s fs n"
| "pc_ok s fs _ = True"

definition conf :: "pool \<Rightarrow> bool" where
  "conf s \<longleftrightarrow> ctor_ok s \<and> dtor_ok s \<and> ctor_takes_null s"

text \<open>
  The step of one thread, seen from the rest of the program, which holds the slices \<open>W\<close>: the
  statement does not fault, keeps the cache in order and touches no slice of \<open>W\<close>; outside the
  critical section it leaves the cache and the lock alone.
\<close>

definition good_step :: "ptr set \<Rightarrow> ptr list \<Rightarrow> mt_pc \<Rightarrow> pool \<Rightarrow> mt_pc \<Rightarrow> pool \<Rightarrow> bool" where
  "good_step W fs pc s pc' s' \<longleftrightarrow> (\<exists>fs'. pool_inv s' fs' (W \<union> hand pc') \<and> W \<inter> hand pc' = {}
     \<and> pc_ok s' fs' pc' \<and> same_conf s (s'\<lparr>mp_locked := mp_locked s\<rparr>)
     \<and> (\<forall>q \<in> W. magics (mem s') q = magics (mem s) q)
     \<and> (mp_locked s' \<longleftrightarrow> (if in_section pc = in_section pc' then mp_locked s else in_section pc'))
     \<and> (in_section pc' \<and> \<not> in_section pc \<longrightarrow> \<not> mp_locked s)
     \<and> (\<not> in_section pc \<longrightarrow> fs' = fs))"

lemma good_stepI:
  assumes "pool_inv s' fs' (W \<union> hand pc')" and "W \<inter> hand pc' = {}" and "pc_ok s' fs' pc'"
    and "same_conf s (s'\<lparr>mp_locked := mp_locked s\<rparr>)" and "\<And>q. q \<in> W \<Longrightarrow> magics (mem s') q = magics (mem s) q"
    and "mp_locked s' = (if in_section pc = in_section pc' then mp_locked s else in_section pc')"
    and "in_section pc' \<Longrightarrow> \<not> in_section pc \<Longrightarrow> \<not> mp_locked s" and "\<not> in_section pc \<Longrightarrow> fs' = fs"
  shows "good_step W fs pc s pc' s'"
  using assms unfolding good_step_def by blast

lemma pc_ok_lock [simp]: "pc_ok (s\<lparr>mp_locked := b\<rparr>) fs pc = pc_ok s fs pc"
  by (cases pc) simp_all

text \<open>Taking and dropping the lock\<close>

lemma step_lock:
  assumes "pool_inv s fs (W \<union> hand pc)" and "W \<inter> hand pc = {}" and "hand pc' = hand pc"
    and "lock_then pc' s = Some x" and "\<not> in_section pc" and "in_section pc'" and "pc_ok s fs pc'"
  shows "\<exists>s'. x = Inr (pc', s') \<and> good_step W fs pc s pc' s'"
proof -
  have u: "\<not> mp_locked s" "x = Inr (pc', s\<lparr>mp_locked := True\<rparr>)"
    using assms(4) by (auto simp: lock_then_def spin_lock_def split: if_splits)
  have "good_step W fs pc s pc' (s\<lparr>mp_locked := True\<rparr>)"
    by (rule good_stepI[where fs' = fs]) (use assms u in \<open>simp_all add: same_conf_def\<close>)
  then show ?thesis using u by blast
qed

lemma step_unlock:
  assumes "pool_inv s fs (W \<union> hand pc)" and "W \<inter> hand pc = {}" and "hand pc' = hand pc"
    and "go pc' (spin_unlock s) = Some x" and "in_section pc" and "\<not> in_section pc'" and "pc_ok s fs pc'"
  shows "\<exists>s'. x = Inr (pc', s') \<and> good_step W fs pc s pc' s'"
proof -
  have x: "x = Inr (pc', s\<lparr>mp_locked := False\<rparr>)" using assms(4) by (simp add: go_def spin_unlock_def)
  have "good_step W fs pc s pc' (s\<lparr>mp_locked := False\<rparr>)"
    by (rule good_stepI[where fs' = fs]) (use assms in \<open>simp_all add: same_conf_def\<close>)
  then show ?thesis using x by blast
qed

text \<open>A statement that only reads\<close>

lemma step_read:
  assumes "pool_inv s fs (W \<union> hand pc)" and "W \<inter> hand pc = {}" and "hand pc' = hand pc"
    and "in_section pc' = in_section pc" and "pc_ok s fs pc'"
  shows "good_step W fs pc s pc' s"
  by (rule good_stepI[where fs' = fs]) (use assms in \<open>simp_all add: same_conf_def\<close>)

text \<open>A statement of the client or its callbacks on the slice at hand\<close>

lemma step_own:
  assumes i: "pool_inv s fs (W \<union> hand pc)" and "W \<inter> hand pc = {}" and "hand pc' = hand pc"
    and "in_section pc' = in_section pc" and c: "confined p (mem s) m" and p: "p \<in> hand pc \<or> p = NULL"
    and "pc_ok (s\<lparr>mem := m\<rparr>) fs pc'"
  shows "good_step W fs pc s pc' (s\<lparr>mem := m\<rparr>)"
proof (rule good_stepI[where fs' = fs])
  show "pool_inv (s\<lparr>mem := m\<rparr>) fs (W \<union> hand pc')" using pool_inv_confined[OF i c] p assms(3) by auto
  show "magics (mem (s\<lparr>mem := m\<rparr>)) q = magics (mem s) q" if "q \<in> W" for q
  proof -
    have "q \<noteq> p \<or> p = NULL" using that p assms(2) by auto
    then show ?thesis using c by (simp add: confined_def)
  qed
qed (use assms in \<open>simp_all add: same_conf_def\<close>)

lemma first_links:
  assumes "pool_inv s (p # fs) U"
  shows "list_first_entry (list_free s) slice_list_off (lists (mem s)) = Inr p"
    and "get_next (lists (mem s)) (node_of p) = Inr (hd (map node_of fs @ [list_free s]))"
proof -
  note d = pool_invD(1)[OF assms, simplified]
  show "list_first_entry (list_free s) slice_list_off (lists (mem s)) = Inr p"
    using list_first_entry_dlist[OF d] by simp
  show "get_next (lists (mem s)) (node_of p) = Inr (hd (map node_of fs @ [list_free s]))"
    using dlist_nx_at[of "lists (mem s)" "list_free s" "[]"] d by (simp add: get_next_nx)
qed

lemma del_first:
  assumes i: "pool_inv s (p # fs) U"
  obtains h where "on_lists (list_del (node_of p)) s = Inr (s\<lparr>mem := (mem s)\<lparr>lists := h\<rparr>\<rparr>)"
    and "pool_inv (s\<lparr>mem := (mem s)\<lparr>lists := h\<rparr>\<rparr>) fs (insert p U)"
proof -
  have d: "dlist (lists (mem s)) (list_free s) (node_of p # map node_of fs)"
    using pool_invD(1)[OF i] by simp
  obtain h where h: "list_del (node_of p) (lists (mem s)) = Inr h" "dlist h (list_free s) (map node_of fs)"
      "dom h = dom (lists (mem s))"
    using list_h.pop[OF d, of slice_list_off] by metis
  have "pool_inv (s\<lparr>mem := (mem s)\<lparr>lists := h\<rparr>\<rparr>) fs (insert p U)"
    using i pool_inv_distinct[OF i] pool_inv_allocated[OF i, of p] h(2,3)
    unfolding pool_inv_def by (auto simp: allocated_def)
  then show ?thesis using that h(1) by (simp add: on_lists_Inr)
qed

lemma add_first:
  assumes i: "pool_inv s fs U" and p: "p \<in> U" and m: "magics (mem s) p = Some MEMPOOL_SLICE_MAGIC"
  obtains h where "on_lists (list_add (node_of p) (list_free s)) s = Inr (s\<lparr>mem := (mem s)\<lparr>lists := h\<rparr>\<rparr>)"
    and "pool_inv (s\<lparr>mem := (mem s)\<lparr>lists := h\<rparr>\<rparr>) (p # fs) (U - {p})"
proof -
  have al: "node_of p \<in> dom (lists (mem s))" using pool_invD(3)[OF i p] by (simp add: allocated_def)
  have nin: "node_of p \<notin> set (list_free s # map node_of fs)"
    using p pool_invD(4)[OF i p] pool_invD(6)[OF i] by auto
  obtain h where h: "list_add (node_of p) (list_free s) (lists (mem s)) = Inr h"
      "dlist h (list_free s) (node_of p # map node_of fs)" "dom h = dom (lists (mem s))"
    using list_h.push[OF pool_invD(1)[OF i] al nin] by metis
  have "card (U - {p}) = card U - 1" "0 < card U"
    using p pool_invD(5)[OF i] by (auto simp: card_gt_0_iff)
  then have "pool_inv (s\<lparr>mem := (mem s)\<lparr>lists := h\<rparr>\<rparr>) (p # fs) (U - {p})"
    using i h(2,3) p m unfolding pool_inv_def by (auto simp: allocated_def)
  then show ?thesis using that h(1) by (simp add: on_lists_Inr)
qed

text \<open>A slice in nobody's hands but the recycler's goes back to the system.\<close>

lemma free_slice_ok:
  assumes i: "pool_inv s fs (insert p W)" and p: "p \<notin> W" and m: "magics (mem s) p = Some MEMPOOL_SLICE_MAGIC"
  obtains s' where "free_slice p s = Inr s'" and "pool_inv s' fs W" and "same_conf s s'"
    and "magics (mem s') = (magics (mem s))(p := None)"
proof -
  let ?s = "s\<lparr>mem := free_block p (mem s), mp_ref := mp_ref s - 1\<rparr>"
  have run: "free_slice p s = Inr ?s" using m by (simp add: free_slice_def get_magic_def)
  have U: "finite W" "card (insert p W) = Suc (card W)" using pool_invD(5)[OF i] p by simp_all
  have r: "unat (mp_ref s) = length fs + Suc (card W)" using pool_invD(9)[OF i] U(2) by simp
  then have r0: "mp_ref s \<noteq> 0" by auto
  have pd: "p \<notin> set fs" "node_of p \<noteq> list_free s" using pool_invD(4,6)[OF i] by auto
  have "dlist ((lists (mem s))(node_of p := None)) (list_free s) (map node_of fs)"
    using pool_invD(1)[OF i] pd by (subst dlist_cong[of _ _ _ "lists (mem s)"]) auto
  moreover have "unat (mp_ref s - 1) = length fs + card W" using r r0 by (simp add: unat_minus_one)
  moreover have "mp_ref s - 1 \<le> mp_max s" if "mp_max s \<noteq> 0"
    using pool_invD(10)[OF i that] r0 by (simp add: word_le_nat_alt unat_minus_one)
  ultimately have "pool_inv ?s fs W"
    using i pd p U(1) unfolding pool_inv_def by (auto simp: free_block_def allocated_def)
  then show ?thesis using that[OF run] by (simp add: free_block_def same_conf_def)
qed


text \<open>Every statement of every thread, by the function it is in\<close>

fun call_of :: "mt_pc \<Rightarrow> nat" where
  "call_of A_lock = 1" | "call_of A_test = 1" | "call_of A_new = 1" | "call_of A_first = 1"
| "call_of (A_del _) = 1" | "call_of (A_check _) = 1" | "call_of (A_unlock _) = 1" | "call_of (A_ctor _) = 1"
| "call_of (F_dtor _) = 2" | "call_of (F_magic _) = 2" | "call_of (F_lock _) = 2" | "call_of (F_add _) = 2"
| "call_of F_unlock = 2"
| "call_of R_lock = 3" | "call_of R_test = 3" | "call_of R_enter = 3" | "call_of (R_loop _ _) = 3"
| "call_of (R_del _ _) = 3" | "call_of (R_free _ _) = 3" | "call_of (R_advance _) = 3" | "call_of R_unlock = 3"
| "call_of _ = 0"

lemma alloc_statements:
  assumes i: "pool_inv s fs (W \<union> hand pc)" and W: "W \<inter> hand pc = {}" and ok: "pc_ok s fs pc"
    and c: "conf s" and f: "fresh_block r (mem s)" and st: "thread_step r pc s = Some x"
    and pc: "call_of pc = 1"
  shows "\<exists>pc' s'. x = Inr (pc', s') \<and> good_step W fs pc s pc' s'"
proof (cases pc)
  case A_lock
  then show ?thesis using step_lock[OF i W, of A_test] st by auto
next
  case A_test
  have "list_empty (list_free s) (lists (mem s)) = Inr (fs = [])"
    using list_empty_dlist[OF pool_invD(1)[OF i]] by simp
  then have x: "x = Inr (if fs = [] then A_new else A_first, s)" using st A_test by simp
  have "good_step W fs pc s (if fs = [] then A_new else A_first) s"
    by (rule step_read[OF i W]) (auto simp: A_test)
  then show ?thesis using x by blast
next
  case A_new
  then have fs: "fs = []" using ok by simp
  have i0: "pool_inv s [] W" using i fs A_new by simp
  obtain p s' where a: "alloc_slice r s = Inr (p, s')" "same_conf s s'"
      "p = NULL \<Longrightarrow> [] = [] \<and> pool_inv s' [] W \<and> mem s' = mem s \<and> mp_ref s' = mp_ref s"
      "p \<noteq> NULL \<Longrightarrow> pool_inv s' (tl []) (insert p W) \<and> p \<notin> W \<and> ([] \<noteq> [] \<longrightarrow> p = hd [])"
    using alloc_slice_ok[OF i0 f] by metis
  have n: "new_slice r s = Inr (p, s')"
    using a(1) list_empty_dlist[OF pool_invD(1)[OF i0]] by (simp add: alloc_slice_parts)
  have W': "W \<union> hand (A_unlock p) = (if p = NULL then W else insert p W)" by auto
  have mg: "magics (mem s') q = magics (mem s) q" if q: "q \<in> W" for q
  proof -
    have "\<exists>g. magics (mem s) q = Some g" using pool_invD(3)[OF i0 q] by (auto simp: allocated_def)
    then obtain g where g: "magics (mem s) q = Some g" ..
    show ?thesis using n f g
      by (auto simp: new_slice_def fresh_block_def take_block_def bug_on_def split: if_splits option.splits)
  qed
  have "good_step W fs pc s (A_unlock p) s'"
  proof (rule good_stepI[where fs' = "[]"])
    show "pool_inv s' [] (W \<union> hand (A_unlock p))" unfolding W' using a(3,4) by simp
    show "W \<inter> hand (A_unlock p) = {}" using a(4) by auto
    show "same_conf s (s'\<lparr>mp_locked := mp_locked s\<rparr>)" "mp_locked s' = (if in_section pc = in_section (A_unlock p) then mp_locked s else in_section (A_unlock p))"
      using a(2) by (simp_all add: same_conf_def A_new)
  qed (use mg A_new in simp_all)
  then show ?thesis using st n A_new by auto
next
  case A_first
  then obtain p gs where fs: "fs = p # gs" using ok by (cases fs) auto
  have "good_step W fs pc s (A_del p) s"
    by (rule step_read[OF i W]) (auto simp: A_first fs)
  then show ?thesis using st first_links(1)[OF i[unfolded fs]] A_first by auto
next
  case (A_del p)
  then obtain gs where fs: "fs = p # gs" using ok by auto
  have i0: "pool_inv s (p # gs) W" using i fs A_del by simp
  obtain h where h: "on_lists (list_del (node_of p)) s = Inr (s\<lparr>mem := (mem s)\<lparr>lists := h\<rparr>\<rparr>)"
    "pool_inv (s\<lparr>mem := (mem s)\<lparr>lists := h\<rparr>\<rparr>) gs (insert p W)" by (rule del_first[OF i0])
  have "good_step W fs pc s (A_check p) (s\<lparr>mem := (mem s)\<lparr>lists := h\<rparr>\<rparr>)"
    by (rule good_stepI[where fs' = gs])
      (use h(2) pool_invD(2,6)[OF i0] in \<open>auto simp: A_del same_conf_def\<close>)
  then show ?thesis using st h(1) A_del by (auto simp: go_def)
next
  case (A_check p)
  then have "p \<noteq> NULL" using pool_invD(8)[OF i] by auto
  then have "good_step W fs pc s (A_unlock p) s" by (intro step_read[OF i W]) (auto simp: A_check)
  then show ?thesis using st ok A_check by (auto simp: get_magic_def)
next
  case (A_unlock p)
  then show ?thesis using step_unlock[OF i W, of "A_ctor p"] st by auto
next
  case (A_ctor p)
  show ?thesis
  proof (cases "mp_ctor s")
    case None
    have "good_step W fs pc s (A_return p) s" by (rule step_read[OF i W]) (auto simp: A_ctor)
    then show ?thesis using st A_ctor None by auto
  next
    case (Some k)
    obtain ret m where rm: "k p (mem s) = (ret, m)" by fastforce
    let ?pc = "if ret \<noteq> 0 then F_dtor p else A_return p"
    have x: "x = Inr (?pc, s\<lparr>mem := m\<rparr>)" using st A_ctor Some rm by (simp split: if_splits)
    have cf: "confined p (mem s) m" using c Some rm unfolding conf_def ctor_ok_def by (metis snd_conv)
    have "ret \<noteq> 0 \<Longrightarrow> p \<noteq> NULL" using c Some rm unfolding conf_def ctor_takes_null_def by (metis fst_conv)
    then have "good_step W fs pc s ?pc (s\<lparr>mem := m\<rparr>)"
      by (intro step_own[OF i W _ _ cf]) (auto simp: A_ctor)
    then show ?thesis using x by blast
  qed
qed (use pc in auto)

lemma free_statements:
  assumes i: "pool_inv s fs (W \<union> hand pc)" and W: "W \<inter> hand pc = {}" and ok: "pc_ok s fs pc"
    and c: "conf s" and st: "thread_step r pc s = Some x"
    and pc: "call_of pc = 2"
  shows "\<exists>pc' s'. x = Inr (pc', s') \<and> good_step W fs pc s pc' s'"
proof (cases pc)
  case (F_dtor p)
  define m where "m = (case mp_dtor s of None \<Rightarrow> mem s | Some d \<Rightarrow> d p (mem s))"
  have "confined p (mem s) m" using c by (auto simp: m_def conf_def dtor_ok_def split: option.splits)
  then have "good_step W fs pc s (F_magic p) (s\<lparr>mem := m\<rparr>)" by (intro step_own[OF i W]) (auto simp: F_dtor)
  moreover have "x = Inr (F_magic p, s\<lparr>mem := m\<rparr>)" using st by (auto simp: F_dtor m_def split: option.splits)
  ultimately show ?thesis by blast
next
  case (F_magic p)
  obtain g where g: "magics (mem s) p = Some g" using pool_invD(3)[OF i] F_magic by (auto simp: allocated_def)
  let ?m = "(mem s)\<lparr>magics := (magics (mem s))(p \<mapsto> MEMPOOL_SLICE_MAGIC)\<rparr>"
  have "p \<noteq> NULL" using pool_invD(8)[OF i] F_magic by auto
  then have "confined p (mem s) ?m" using g by (auto simp: confined_def frame_refl)
  then have "good_step W fs pc s (F_lock p) (s\<lparr>mem := ?m\<rparr>)" by (intro step_own[OF i W]) (auto simp: F_magic)
  then show ?thesis using st set_magic_run[OF g] F_magic by (auto simp: go_def)
next
  case (F_lock p)
  then show ?thesis using step_lock[OF i W, of "F_add p"] st ok by auto
next
  case (F_add p)
  have p: "p \<in> W \<union> hand pc" "p \<notin> W" using W F_add by auto
  obtain h where h: "on_lists (list_add (node_of p) (list_free s)) s = Inr (s\<lparr>mem := (mem s)\<lparr>lists := h\<rparr>\<rparr>)"
    "pool_inv (s\<lparr>mem := (mem s)\<lparr>lists := h\<rparr>\<rparr>) (p # fs) (W \<union> hand pc - {p})"
    using add_first[OF i p(1)] ok F_add by auto
  have "W \<union> hand pc - {p} = W" using p(2) F_add by auto
  then have "good_step W fs pc s F_unlock (s\<lparr>mem := (mem s)\<lparr>lists := h\<rparr>\<rparr>)"
    by (intro good_stepI[where fs' = "p # fs"]) (use h(2) in \<open>simp_all add: F_add same_conf_def\<close>)
  then show ?thesis using st h(1) F_add by (auto simp: go_def)
next
  case F_unlock
  then show ?thesis using step_unlock[OF i W, of T_idle] st by auto
qed (use pc in auto)

lemma recycle_statements:
  assumes i: "pool_inv s fs (W \<union> hand pc)" and W: "W \<inter> hand pc = {}" and ok: "pc_ok s fs pc"
    and st: "thread_step r pc s = Some x"
    and pc: "call_of pc = 3"
  shows "\<exists>pc' s'. x = Inr (pc', s') \<and> good_step W fs pc s pc' s'"
proof (cases pc)
  case R_lock
  then show ?thesis using step_lock[OF i W, of R_test] st by auto
next
  case R_test
  have "list_empty (list_free s) (lists (mem s)) = Inr (fs = [])"
    using list_empty_dlist[OF pool_invD(1)[OF i]] by simp
  then have x: "x = Inr (if fs \<noteq> [] then R_enter else R_unlock, s)" using st R_test by simp
  have "good_step W fs pc s (if fs \<noteq> [] then R_enter else R_unlock) s"
    by (rule step_read[OF i W]) (auto simp: R_test)
  then show ?thesis using x by blast
next
  case R_enter
  then obtain p gs where fs: "fs = p # gs" using ok by (cases fs) auto
  let ?n = "container_of (hd (map node_of gs @ [list_free s])) slice_list_off"
  have "good_step W fs pc s (R_loop p ?n) s"
    by (rule step_read[OF i W]) (auto simp: R_enter fs)
  then show ?thesis using st first_links[OF i[unfolded fs]] R_enter by auto
next
  case (R_loop p n)
  let ?pc = "if node_of p = list_free s \<or> mp_ref s \<le> 0 then R_unlock else R_del p n"
  have "pc_ok s fs ?pc"
  proof (cases fs)
    case Nil
    then show ?thesis using ok R_loop by simp
  next
    case (Cons q gs)
    then have "q = p" "starts_at s gs n" using ok R_loop by simp_all
    then show ?thesis using Cons by simp
  qed
  then have "good_step W fs pc s ?pc s" by (intro step_read[OF i W]) (simp_all add: R_loop)
  moreover have "x = Inr (?pc, s)" using st by (auto simp: R_loop)
  ultimately show ?thesis by blast
next
  case (R_del p n)
  then obtain gs where fs: "fs = p # gs" "starts_at s gs n" using ok by auto
  have i0: "pool_inv s (p # gs) W" using i fs R_del by simp
  obtain h where h: "on_lists (list_del (node_of p)) s = Inr (s\<lparr>mem := (mem s)\<lparr>lists := h\<rparr>\<rparr>)"
    "pool_inv (s\<lparr>mem := (mem s)\<lparr>lists := h\<rparr>\<rparr>) gs (insert p W)" by (rule del_first[OF i0])
  have "good_step W fs pc s (R_free p n) (s\<lparr>mem := (mem s)\<lparr>lists := h\<rparr>\<rparr>)"
    by (rule good_stepI[where fs' = gs])
      (use h(2) fs(2) pool_invD(2,6)[OF i0] in \<open>auto simp: R_del same_conf_def\<close>)
  then show ?thesis using st h(1) R_del by (auto simp: go_def)
next
  case (R_free p n)
  have p: "p \<notin> W" "pool_inv s fs (insert p W)" using W i R_free by auto
  obtain s' where s': "free_slice p s = Inr s'" "pool_inv s' fs W" "same_conf s s'"
      "magics (mem s') = (magics (mem s))(p := None)"
    using free_slice_ok[OF p(2,1)] ok R_free by auto
  have "good_step W fs pc s (R_advance n) s'"
    by (rule good_stepI[where fs' = fs]) (use s' p ok in \<open>auto simp: R_free same_conf_def\<close>)
  then show ?thesis using st s'(1) R_free by (auto simp: go_def)
next
  case (R_advance n)
  have "\<exists>q. get_next (lists (mem s)) (node_of n) = Inr q \<and> (fs \<noteq> [] \<longrightarrow> q = hd (map node_of (tl fs) @ [list_free s]))"
  proof (cases fs)
    case Nil
    then show ?thesis using ok R_advance dlist_first[OF pool_invD(1)[OF i]] by (simp add: get_next_nx)
  next
    case (Cons p gs)
    then have "n = p" using ok R_advance by simp
    then show ?thesis using first_links(2)[OF i[unfolded Cons]] Cons by simp
  qed
  then obtain q where q: "get_next (lists (mem s)) (node_of n) = Inr q"
      "fs \<noteq> [] \<longrightarrow> q = hd (map node_of (tl fs) @ [list_free s])" by blast
  have "good_step W fs pc s (R_loop n (container_of q slice_list_off)) s"
    by (rule step_read[OF i W]) (use ok q(2) in \<open>auto simp: R_advance\<close>)
  then show ?thesis using st q(1) R_advance by auto
next
  case R_unlock
  then show ?thesis using step_unlock[OF i W, of T_idle] st by auto
qed (use pc in auto)

lemma thread_step_good:
  assumes "pool_inv s fs (W \<union> hand pc)" and "W \<inter> hand pc = {}" and "pc_ok s fs pc"
    and "conf s" and "fresh_block r (mem s)" and "thread_step r pc s = Some x"
  shows "\<exists>pc' s'. x = Inr (pc', s') \<and> good_step W fs pc s pc' s'"
proof -
  have "call_of pc \<in> {1, 2, 3}" using assms(6) by (cases pc) simp_all
  then show ?thesis
    using alloc_statements[OF assms] free_statements[OF assms(1-4,6)] recycle_statements[OF assms(1-3,6)] by blast
qed

section \<open>The invariant\<close>

definition held :: "mt \<Rightarrow> ptr set" where
  "held s = used s \<union> (\<Union>i. hand (mt_pcs s i))"

text \<open>No slice is in two hands; the lock is taken exactly when a thread is in the critical section.\<close>

definition apart :: "mt \<Rightarrow> bool" where
  "apart s \<longleftrightarrow> (\<forall>i. used s \<inter> hand (mt_pcs s i) = {})
     \<and> (\<forall>i j. i \<noteq> j \<longrightarrow> hand (mt_pcs s i) \<inter> hand (mt_pcs s j) = {})"

definition exclusive :: "mt \<Rightarrow> bool" where
  "exclusive s \<longleftrightarrow> (mp_locked (mt_pool s) \<longleftrightarrow> (\<exists>i. in_section (mt_pcs s i)))
     \<and> (\<forall>i j. in_section (mt_pcs s i) \<longrightarrow> in_section (mt_pcs s j) \<longrightarrow> i = j)"

definition mt_inv :: "mt \<Rightarrow> bool" where
  "mt_inv s \<longleftrightarrow> (\<exists>fs. pool_inv (mt_pool s) fs (held s) \<and> (\<forall>i. pc_ok (mt_pool s) fs (mt_pcs s i)))
     \<and> apart s \<and> exclusive s \<and> conf (mt_pool s)"

text \<open>What another thread's assertion depends on\<close>

lemma pc_ok_other:
  assumes "pc_ok s fs pc" and "list_free s' = list_free s"
    and "\<And>q. q \<in> hand pc \<Longrightarrow> magics (mem s') q = magics (mem s) q" and "in_section pc \<Longrightarrow> fs' = fs"
  shows "pc_ok s' fs' pc"
  using assms by (cases pc) auto

lemma conf_same: "same_conf s (s'\<lparr>mp_locked := b\<rparr>) \<Longrightarrow> conf s \<Longrightarrow> conf s'"
  by (simp add: conf_def same_conf_def ctor_ok_def dtor_ok_def ctor_takes_null_def)

text \<open>The rest of the program, seen from thread \<open>i\<close>\<close>

definition rest :: "nat \<Rightarrow> mt \<Rightarrow> ptr set" where
  "rest i s = used s \<union> (\<Union>j \<in> - {i}. hand (mt_pcs s j))"

lemma held_split: "held s = rest i s \<union> hand (mt_pcs s i)"
  by (auto simp: held_def rest_def)

lemma rest_apart: "apart s \<Longrightarrow> rest i s \<inter> hand (mt_pcs s i) = {}"
  by (fastforce simp: apart_def rest_def)

lemma rest_upd [simp]: "rest i (s\<lparr>mt_pool := p, mt_pcs := (mt_pcs s)(i := pc)\<rparr>) = rest i s"
  by (auto simp: rest_def)

lemma thread_safe:
  assumes inv: "mt_inv s" and f: "fresh_block r (mem (mt_pool s))"
    and st: "thread_step r (mt_pcs s i) (mt_pool s) = Some x"
  shows "\<exists>pc p. x = Inr (pc, p) \<and> mt_inv (s\<lparr>mt_pool := p, mt_pcs := (mt_pcs s)(i := pc)\<rparr>)"
proof -
  obtain fs where fs: "pool_inv (mt_pool s) fs (held s)" "\<And>i. pc_ok (mt_pool s) fs (mt_pcs s i)"
    and ap: "apart s" and ex: "exclusive s" and c: "conf (mt_pool s)" using inv by (auto simp: mt_inv_def)
  obtain pc p where x: "x = Inr (pc, p)" and g: "good_step (rest i s) fs (mt_pcs s i) (mt_pool s) pc p"
    using thread_step_good[OF fs(1)[unfolded held_split[of s i]] rest_apart[OF ap] fs(2) c f st] by blast
  let ?s = "s\<lparr>mt_pool := p, mt_pcs := (mt_pcs s)(i := pc)\<rparr>"
  obtain fs' where g: "pool_inv p fs' (rest i s \<union> hand pc)" "rest i s \<inter> hand pc = {}" "pc_ok p fs' pc"
    "same_conf (mt_pool s) (p\<lparr>mp_locked := mp_locked (mt_pool s)\<rparr>)" "\<forall>q \<in> rest i s. magics (mem p) q = magics (mem (mt_pool s)) q"
    "mp_locked p \<longleftrightarrow> (if in_section (mt_pcs s i) = in_section pc then mp_locked (mt_pool s) else in_section pc)"
    "in_section pc \<and> \<not> in_section (mt_pcs s i) \<longrightarrow> \<not> mp_locked (mt_pool s)" "\<not> in_section (mt_pcs s i) \<longrightarrow> fs' = fs"
    using g unfolding good_step_def by blast
  have h: "held ?s = rest i s \<union> hand pc" using held_split[of ?s i] by simp
  have "pc_ok p fs' (mt_pcs ?s j)" for j
  proof (cases "j = i")
    case False
    have "hand (mt_pcs s j) \<subseteq> rest i s" using False by (auto simp: rest_def)
    moreover have "in_section (mt_pcs s j) \<Longrightarrow> \<not> in_section (mt_pcs s i)" using ex False by (auto simp: exclusive_def)
    ultimately show ?thesis using pc_ok_other[OF fs(2)[of j], of p fs'] g(4,5,8) False
      by (auto simp: same_conf_def)
  qed (use g(3) in simp)
  moreover have "apart ?s" using ap g(2) by (auto simp: apart_def rest_def)
  moreover have "exclusive ?s" using ex g(6,7) unfolding exclusive_def by (auto split: if_splits)
  moreover have "pool_inv (mt_pool ?s) fs' (held ?s)" "conf (mt_pool ?s)" using g(1) h conf_same[OF g(4) c] by simp_all
  ultimately have "mt_inv ?s" unfolding mt_inv_def by (intro conjI exI[of _ fs']) simp_all
  then show ?thesis using x by blast
qed


text \<open>Calls, returns and writes into held slices\<close>

lemma hand_moves:
  assumes inv: "mt_inv s" and same: "in_section pc = in_section (mt_pcs s i)" and ok: "\<And>fs. pc_ok (mt_pool s) fs pc"
    and U: "U \<union> hand pc = used s \<union> hand (mt_pcs s i)" "U \<inter> hand pc = {}"
  shows "mt_inv (s\<lparr>mt_pcs := (mt_pcs s)(i := pc), used := U\<rparr>)"
proof -
  let ?s = "s\<lparr>mt_pcs := (mt_pcs s)(i := pc), used := U\<rparr>"
  obtain fs where fs: "pool_inv (mt_pool s) fs (held s)" "\<And>i. pc_ok (mt_pool s) fs (mt_pcs s i)"
    and ap: "apart s" and ex: "exclusive s" and c: "conf (mt_pool s)" using inv by (auto simp: mt_inv_def)
  have "held ?s = (\<Union>j \<in> - {i}. hand (mt_pcs s j)) \<union> (U \<union> hand pc)" by (auto simp: held_def split: if_splits)
  also have "\<dots> = held s" unfolding U(1) by (auto simp: held_def)
  finally have "pool_inv (mt_pool ?s) fs (held ?s)" using fs(1) by simp
  moreover have "pc_ok (mt_pool ?s) fs (mt_pcs ?s j)" for j using fs(2)[of j] ok[of fs] by simp
  moreover have sub: "U \<subseteq> used s \<union> hand (mt_pcs s i)" "hand pc \<subseteq> used s \<union> hand (mt_pcs s i)" using U(1) by auto
  have "apart ?s" unfolding apart_def
  proof (intro conjI allI impI)
    fix j
    have "j \<noteq> i \<Longrightarrow> hand (mt_pcs s j) \<inter> (used s \<union> hand (mt_pcs s i)) = {}" using ap by (fastforce simp: apart_def)
    then show "used ?s \<inter> hand (mt_pcs ?s j) = {}" using U(2) sub(1) by (cases "j = i") auto
  next
    fix j k :: nat assume jk: "j \<noteq> k"
    have n: "hand (mt_pcs s l) \<inter> hand pc = {}" if "l \<noteq> i" for l
      using ap sub(2) that by (fastforce simp: apart_def)
    show "hand (mt_pcs ?s j) \<inter> hand (mt_pcs ?s k) = {}"
      using n[of j] n[of k] ap jk by (cases "j = i"; cases "k = i") (auto simp: apart_def)
  qed
  moreover have "exclusive ?s" using ex same by (auto simp: exclusive_def)
  ultimately show ?thesis using c unfolding mt_inv_def by (intro conjI exI[of _ fs]) simp_all
qed

lemma write_inv:
  assumes inv: "mt_inv s" and p: "p \<in> used s" and cf: "confined p (mem (mt_pool s)) m"
  shows "mt_inv (s\<lparr>mt_pool := (mt_pool s)\<lparr>mem := m\<rparr>\<rparr>)"
proof -
  let ?s = "s\<lparr>mt_pool := (mt_pool s)\<lparr>mem := m\<rparr>\<rparr>"
  obtain fs where fs: "pool_inv (mt_pool s) fs (held s)" "\<And>i. pc_ok (mt_pool s) fs (mt_pcs s i)"
    and ap: "apart s" and ex: "exclusive s" and c: "conf (mt_pool s)" using inv by (auto simp: mt_inv_def)
  have ph: "p \<in> held s" using p by (simp add: held_def)
  have "p \<noteq> NULL" using pool_invD(8)[OF fs(1)] ph by auto
  have "pc_ok (mt_pool ?s) fs (mt_pcs s i)" for i
  proof (rule pc_ok_other[OF fs(2)])
    fix q assume "q \<in> hand (mt_pcs s i)"
    then have "q \<noteq> p" using ap p by (auto simp: apart_def)
    then show "magics (mem (mt_pool ?s)) q = magics (mem (mt_pool s)) q" using cf by (simp add: confined_def)
  qed simp_all
  moreover have "held ?s = held s" by (simp add: held_def)
  then have "pool_inv (mt_pool ?s) fs (held ?s)" using pool_inv_confined[OF fs(1) cf] ph by simp
  moreover have "conf (mt_pool ?s)" using conf_same[where s = "mt_pool s" and s' = "mt_pool ?s" and b = "mp_locked (mt_pool s)"] c by (simp add: same_conf_def)
  ultimately show ?thesis using ap ex unfolding mt_inv_def
    by (intro conjI exI[of _ fs]) (simp_all add: apart_def exclusive_def)
qed

lemma mt_step_inv:
  assumes "mt_step s s'" and inv: "mt_inv s"
  shows "mt_inv s'"
  using assms(1)
proof cases
  case (run r i pc p)
  then show ?thesis using thread_safe[OF inv run(2,3)] by auto
next
  case (call_alloc i)
  have "mt_inv (s\<lparr>mt_pcs := (mt_pcs s)(i := A_lock), used := used s\<rparr>)"
    by (rule hand_moves[OF inv]) (simp_all add: call_alloc)
  then show ?thesis using call_alloc by simp
next
  case (return_alloc i p)
  show ?thesis unfolding return_alloc(1)
    by (rule hand_moves[OF inv]) (auto simp: return_alloc)
next
  case (call_free i p)
  show ?thesis unfolding call_free(1)
    by (rule hand_moves[OF inv]) (use call_free in auto)
next
  case (call_recycle i)
  have "mt_inv (s\<lparr>mt_pcs := (mt_pcs s)(i := R_lock), used := used s\<rparr>)"
    by (rule hand_moves[OF inv]) (simp_all add: call_recycle)
  then show ?thesis using call_recycle by simp
next
  case (client_write p m)
  then show ?thesis using write_inv[OF inv] by simp
qed

interpretation threads: machine_invariant mt_start mt_step mt_inv
proof
  show "mt_inv s" if "mt_start s" for s
  proof -
    have "client_inv (mt_pool s, used s)" using that client.start_inv by (simp add: mt_start_def)
    then show ?thesis using that
      by (auto simp: mt_inv_def client_inv_def mt_start_def held_def apart_def exclusive_def conf_def)
  qed
qed (rule mt_step_inv)

section \<open>No deadlock\<close>

text \<open>Only a thread at the lock can be held up, and only while another one is in the section.\<close>

fun at_lock :: "mt_pc \<Rightarrow> bool" where
  "at_lock A_lock = True" | "at_lock (F_lock _) = True" | "at_lock R_lock = True"
| "at_lock _ = False"

lemma thread_runs: "pc \<noteq> T_idle \<Longrightarrow> (\<And>p. pc \<noteq> A_return p) \<Longrightarrow> \<not> (at_lock pc \<and> mp_locked s)
    \<Longrightarrow> \<exists>x. thread_step r pc s = Some x"
  by (cases pc) (auto simp: lock_then_def spin_lock_def go_def split: option.splits prod.splits)

lemma step_moves: "thread_step r pc s = Some (Inr (pc', s')) \<Longrightarrow> pc' \<noteq> pc"
  by (cases pc) (auto simp: lock_then_def go_def bindR_eq_Inr bug_on_def split: sum.splits option.splits prod.splits if_splits)

lemma no_deadlock:
  assumes inv: "mt_inv s" and pc: "mt_pcs s i \<noteq> T_idle"
  shows "\<exists>j. (\<exists>p. mt_pcs s j = A_return p) \<or> (\<exists>x. thread_step None (mt_pcs s j) (mt_pool s) = Some (Inr x))"
proof (cases "at_lock (mt_pcs s i) \<and> mp_locked (mt_pool s)")
  case True
  then obtain j where j: "in_section (mt_pcs s j)" using inv by (auto simp: mt_inv_def exclusive_def)
  then have "mt_pcs s j \<noteq> T_idle" "\<And>p. mt_pcs s j \<noteq> A_return p" "\<not> at_lock (mt_pcs s j)" by (cases "mt_pcs s j"; simp)+
  then obtain x where x: "thread_step None (mt_pcs s j) (mt_pool s) = Some x" using thread_runs by blast
  then show ?thesis using thread_safe[OF inv _ x] by (auto simp: fresh_block_def)
next
  case False
  show ?thesis
  proof (cases "\<exists>p. mt_pcs s i = A_return p")
    case no: False
    then obtain x where x: "thread_step None (mt_pcs s i) (mt_pool s) = Some x" using thread_runs False pc by blast
    then show ?thesis using thread_safe[OF inv _ x] by (auto simp: fresh_block_def)
  qed blast
qed

section \<open>Properties\<close>


text \<open>Two threads allocate from a new pool; the first one has the lock.\<close>

definition demo_threads :: mt where
  "demo_threads = \<lparr>mt_pool = demo_start, mt_pcs = (\<lambda>_. T_idle), used = {}\<rparr>"



end
