(* ===== verification/Initops.thy ===== *)
theory Initops
  imports C_Prelude "HOL-Library.Multiset"
begin

text \<open>
  \<open>initops/initops.c\<close>: hooks that subsystems register in a linker section, run by order at
  start-up and shutdown. The section is the list of the registered structures; a hook is a
  function on the state of the program. A failing init hook starts a rollback, which the model
  keeps as the code has it.
\<close>

section \<open>Data\<close>

datatype initops_order =
  INITOPS_ORDER_FIRST | INITOPS_ORDER_XXX | INITOPS_ORDER_LAST | INITOPS_ORDER_MAX

text \<open>The value C gives the enumerator.\<close>

fun order_val :: "initops_order \<Rightarrow> int" where
  "order_val INITOPS_ORDER_FIRST = 0"
| "order_val INITOPS_ORDER_XXX = 1"
| "order_val INITOPS_ORDER_LAST = 2"
| "order_val INITOPS_ORDER_MAX = 3"

abbreviation INITOPS_ORDER_ANY :: initops_order where
  "INITOPS_ORDER_ANY \<equiv> INITOPS_ORDER_LAST"

instantiation initops_order :: linorder
begin

definition less_eq_initops_order :: "initops_order \<Rightarrow> initops_order \<Rightarrow> bool" where
  "less_eq_initops_order a b \<longleftrightarrow> order_val a \<le> order_val b"

definition less_initops_order :: "initops_order \<Rightarrow> initops_order \<Rightarrow> bool" where
  "less_initops_order a b \<longleftrightarrow> order_val a < order_val b"

instance
proof
  fix a b :: initops_order
  show "a \<le> b \<Longrightarrow> b \<le> a \<Longrightarrow> a = b"
    by (cases a; cases b) (simp_all add: less_eq_initops_order_def)
qed (auto simp: less_eq_initops_order_def less_initops_order_def)

end

text \<open>
  \<open>'p\<close> is the private data, \<open>'s\<close> the state of the program. \<open>None\<close> is a null function pointer.
\<close>

record ('p, 's) initops =
  io_name :: string
  io_order :: initops_order
  io_init :: "('p \<Rightarrow> 's \<Rightarrow> 32 word \<times> 's) option"
  io_exit :: "('p \<Rightarrow> 's \<Rightarrow> 's) option"
  io_priv :: 'p

definition INITOPS_INITIALIZER ::
  "string \<Rightarrow> initops_order \<Rightarrow> ('p \<Rightarrow> 's \<Rightarrow> 32 word \<times> 's) option \<Rightarrow> ('p \<Rightarrow> 's \<Rightarrow> 's) option \<Rightarrow> 'p
    \<Rightarrow> ('p, 's) initops" where
  "INITOPS_INITIALIZER n ord i e p =
     \<lparr>io_name = n, io_order = ord, io_init = i, io_exit = e, io_priv = p\<rparr>"

text \<open>The hook \<open>initops.c\<close> registers itself; \<open>sync\<close> is the system call.\<close>

definition initops_dummy_init :: "('s \<Rightarrow> 's) \<Rightarrow> 'p \<Rightarrow> 's \<Rightarrow> 32 word \<times> 's" where
  "initops_dummy_init sync unused s = (0, sync s)"

definition initops_dummy_exit :: "('s \<Rightarrow> 's) \<Rightarrow> 'p \<Rightarrow> 's \<Rightarrow> 's" where
  "initops_dummy_exit sync unused s = sync s"

definition initops_dummy :: "('s \<Rightarrow> 's) \<Rightarrow> 'p \<Rightarrow> ('p, 's) initops" where
  "initops_dummy sync null = INITOPS_INITIALIZER ''initops_dummy'' INITOPS_ORDER_MAX
     (Some (initops_dummy_init sync)) (Some (initops_dummy_exit sync)) null"

section \<open>The operations\<close>

text \<open>The body of the loops that run exit hooks: \<open>initops->order == order && initops->exit\<close>.\<close>

definition exit_one :: "int \<Rightarrow> ('p, 's) initops \<Rightarrow> 's \<Rightarrow> 's" where
  "exit_one order e s =
     (if order_val (io_order e) = order
      then (case io_exit e of None \<Rightarrow> s | Some f \<Rightarrow> f (io_priv e) s) else s)"

fun initops_exec_exit_by_order :: "int \<Rightarrow> ('p, 's) initops list \<Rightarrow> 's \<Rightarrow> 's" where
  "initops_exec_exit_by_order order [] s = s"
| "initops_exec_exit_by_order order (e # sec) s =
     initops_exec_exit_by_order order sec (exit_one order e s)"

text \<open>
  The loop of \<open>initops_exec_init_by_order\<close> over the index \<open>i\<close> of \<open>iter\<close>: \<open>Some i\<close> is the jump
  to \<open>fallback\<close> at \<open>i\<close>.
\<close>

function init_loop :: "int \<Rightarrow> ('p, 's) initops list \<Rightarrow> nat \<Rightarrow> 's \<Rightarrow> nat option \<times> 's" where
  "init_loop order sec i s =
     (if i < length sec then
        (if order_val (io_order (sec ! i)) = order then
           (case io_init (sec ! i) of
              None \<Rightarrow> init_loop order sec (Suc i) s
            | Some f \<Rightarrow>
                (let (ret, s') = f (io_priv (sec ! i)) s in
                 if sint ret < 0 then (Some i, s') else init_loop order sec (Suc i) s'))
         else init_loop order sec (Suc i) s)
      else (None, s))"
  by pat_completeness auto
termination
  by (relation "measure (\<lambda>(order, sec, i, s). length sec - i)") auto

declare init_loop.simps [simp del]

text \<open>\<open>for (; iter > &__start_section_initops; iter--)\<close>\<close>

fun fallback_loop :: "int \<Rightarrow> ('p, 's) initops list \<Rightarrow> nat \<Rightarrow> 's \<Rightarrow> 's" where
  "fallback_loop order sec 0 s = s"
| "fallback_loop order sec (Suc i) s = fallback_loop order sec i (exit_one order (sec ! Suc i) s)"

definition initops_exec_init_by_order :: "int \<Rightarrow> ('p, 's) initops list \<Rightarrow> 's \<Rightarrow> int \<times> 's" where
  "initops_exec_init_by_order order sec s =
     (case init_loop order sec 0 s of
        (None, s') \<Rightarrow> (0, s')
      | (Some i, s') \<Rightarrow> if i = 0 then (-1, s') else (-1, fallback_loop order sec i s'))"

function exit_orders :: "int \<Rightarrow> int \<Rightarrow> ('p, 's) initops list \<Rightarrow> 's \<Rightarrow> 's" where
  "exit_orders order low sec s =
     (if low \<le> order then exit_orders (order - 1) low sec (initops_exec_exit_by_order order sec s)
      else s)"
  by pat_completeness auto
termination
  by (relation "measure (\<lambda>(order, low, sec, s). nat (order - low + 1))") auto

declare exit_orders.simps [simp del]

text \<open>\<open>for (order = INITOPS_ORDER_MAX; order >= INITOPS_ORDER_FIRST; order--)\<close>\<close>

definition initops_exec_exit :: "('p, 's) initops list \<Rightarrow> 's \<Rightarrow> 's" where
  "initops_exec_exit sec s =
     exit_orders (order_val INITOPS_ORDER_MAX) (order_val INITOPS_ORDER_FIRST) sec s"

text \<open>
  The loop of \<open>initops_exec_init\<close>; its fallback starts one order below the one that failed and
  stops above \<open>INITOPS_ORDER_FIRST\<close>.
\<close>

function init_orders :: "int \<Rightarrow> ('p, 's) initops list \<Rightarrow> 's \<Rightarrow> int \<times> 's" where
  "init_orders order sec s =
     (if order \<le> order_val INITOPS_ORDER_MAX then
        (let (ret, s') = initops_exec_init_by_order order sec s in
         if ret \<noteq> 0 then (-1, exit_orders (order - 1) (order_val INITOPS_ORDER_FIRST + 1) sec s')
         else init_orders (order + 1) sec s')
      else (0, s))"
  by pat_completeness auto
termination
  by (relation "measure (\<lambda>(order, sec, s). nat (4 - order))") auto

declare init_orders.simps [simp del]

definition initops_exec_init :: "('p, 's) initops list \<Rightarrow> 's \<Rightarrow> int \<times> 's" where
  "initops_exec_init sec s = init_orders (order_val INITOPS_ORDER_FIRST) sec s"


section \<open>What the hooks are run on\<close>

text \<open>Running exit hooks, and running init hooks up to the first failure, over a list of hooks.\<close>

fun run_exits :: "('p, 's) initops list \<Rightarrow> 's \<Rightarrow> 's" where
  "run_exits [] s = s"
| "run_exits (e # es) s =
     run_exits es (case io_exit e of None \<Rightarrow> s | Some f \<Rightarrow> f (io_priv e) s)"

fun run_inits :: "(nat \<times> ('p, 's) initops) list \<Rightarrow> 's \<Rightarrow> (nat \<times> ('p, 's) initops) option \<times> 's" where
  "run_inits [] s = (None, s)"
| "run_inits ((i, e) # es) s =
     (case io_init e of
        None \<Rightarrow> run_inits es s
      | Some f \<Rightarrow>
          (let (ret, s') = f (io_priv e) s in
           if sint ret < 0 then (Some (i, e), s') else run_inits es s'))"

lemma run_exits_append: "run_exits (xs @ ys) s = run_exits ys (run_exits xs s)"
  by (induction xs arbitrary: s) simp_all

lemma run_inits_append:
  "run_inits (xs @ ys) s = (case run_inits xs s of (None, s') \<Rightarrow> run_inits ys s' | (Some f, s') \<Rightarrow> (Some f, s'))"
  by (induction xs s rule: run_inits.induct) (auto split: option.splits prod.splits)

lemma run_inits_mem: "run_inits xs s = (Some f, s') \<Longrightarrow> f \<in> set xs"
  by (induction xs s rule: run_inits.induct) (auto split: option.splits prod.splits if_splits)

abbreviation of_order :: "int \<Rightarrow> ('p, 's) initops \<Rightarrow> bool" where
  "of_order k e \<equiv> order_val (io_order e) = k"

lemma exec_exit_by_order_eq:
  "initops_exec_exit_by_order k sec s = run_exits (filter (of_order k) sec) s"
  by (induction sec arbitrary: s) (simp_all add: exit_one_def)

lemma init_loop_eq:
  "init_loop k sec i s =
     (case run_inits (filter (\<lambda>(j, e). of_order k e) (enumerate i (drop i sec))) s of
        (None, s') \<Rightarrow> (None, s') | (Some (j, e), s') \<Rightarrow> (Some j, s'))"
proof (induction k sec i s rule: init_loop.induct)
  case (1 k sec i s)
  show ?case
  proof (cases "i < length sec")
    case True
    then have d: "drop i sec = sec ! i # drop (Suc i) sec" by (simp add: Cons_nth_drop_Suc)
    show ?thesis
      unfolding init_loop.simps[of k sec i s] d using True "1.IH"
      by (auto simp: Let_def split: option.splits prod.splits if_splits)
  next
    case False
    then show ?thesis by (simp add: init_loop.simps)
  qed
qed

lemma fallback_loop_eq:
  "i < length sec \<Longrightarrow>
     fallback_loop k sec i s = run_exits (filter (of_order k) (rev (take i (tl sec)))) s"
proof (induction i arbitrary: s)
  case (Suc i)
  have "take (Suc i) (tl sec) = take i (tl sec) @ [sec ! Suc i]"
    using Suc.prems by (simp add: take_Suc_conv_app_nth nth_tl)
  then show ?case using Suc by (simp add: exit_one_def split: option.splits)
qed simp

section \<open>Orders, sorted\<close>

text \<open>Going through the keys in turn and filtering is a stable sort by the key.\<close>

lemma concat_filter_sort_key:
  assumes "sorted_wrt (<) ks" and "f ` set xs \<subseteq> set ks"
  shows "concat (map (\<lambda>k. filter (\<lambda>x. f x = k) xs) ks) = sort_key f xs"
proof (rule sym, rule properties_for_sort_key)
  let ?c = "\<lambda>ks. concat (map (\<lambda>k. filter (\<lambda>x. f x = k) xs) ks)"
  have d: "distinct ks" using assms(1) by (simp add: strict_sorted_iff)
  have fil: "filter (\<lambda>x. f x = k) (?c ks) = (if k \<in> set ks then filter (\<lambda>x. f x = k) xs else [])"
    if "distinct ks" for k ks
    using that by (induction ks) (auto simp: filter_empty_conv intro!: filter_cong)
  have "filter (\<lambda>x. f x = k) (?c ks) = filter (\<lambda>x. f x = k) xs" for k
  proof (cases "k \<in> set ks")
    case False
    then have "filter (\<lambda>x. f x = k) xs = []" using assms(2) by (auto simp: filter_empty_conv)
    then show ?thesis using fil[OF d, of k] False by simp
  qed (use fil[OF d, of k] in simp)
  moreover have "(\<lambda>x. k = f x) = (\<lambda>x. f x = k)" for k by auto
  ultimately have fk: "filter (\<lambda>x. k = f x) (?c ks) = filter (\<lambda>x. k = f x) xs" for k
    by presburger
  then show "filter (\<lambda>x. f k = f x) (?c ks) = filter (\<lambda>x. f k = f x) xs" for k .
  show "mset (?c ks) = mset xs"
  proof (rule multiset_eqI)
    fix x
    have "count (mset (?c ks)) x = count (mset (filter (\<lambda>y. f x = f y) (?c ks))) x"
      by (simp del: mset_filter add: mset_filter)
    then show "count (mset (?c ks)) x = count (mset xs) x"
      by (simp only: fk mset_filter count_filter_mset simp_thms if_True)
  qed
  show "sorted (map f (?c ks))"
    using assms(1)
  proof (induction ks)
    case (Cons k ks)
    have "map f (filter (\<lambda>x. f x = k) xs) = replicate (length (filter (\<lambda>x. f x = k) xs)) k"
      by (induction xs) auto
    then show ?case using Cons by (auto simp: sorted_append less_imp_le)
  qed simp
qed


abbreviation ord_of :: "('p, 's) initops \<Rightarrow> int" where
  "ord_of e \<equiv> order_val (io_order e)"

lemma ord_of_keys: "ord_of e \<in> {0, 1, 2, 3}"
  by (cases "io_order e") auto

lemma neg_keys: "- ord_of e \<in> set [-3, -2, -1, 0]"
  by (cases "io_order e") auto

lemma pair_keys: "(case x of (i, e) \<Rightarrow> ord_of e) \<in> {0, 1, 2, 3}"
  using ord_of_keys by (cases x) simp

lemma sort_by_order: "concat (map (\<lambda>k. filter (\<lambda>x. g x = k) xs) [0, 1, 2, 3 :: int]) = sort_key g xs"
  if "\<And>x. x \<in> set xs \<Longrightarrow> g x \<in> {0, 1, 2, 3}"
  using concat_filter_sort_key[of "[0, 1, 2, 3]" g xs] that by auto

section \<open>Shutdown\<close>

lemma exec_exit_eq: "initops_exec_exit sec s = run_exits (sort_key (\<lambda>e. - ord_of e) sec) s"
proof -
  have step: "exit_orders k low sec s = (if low \<le> k then
      exit_orders (k - 1) low sec (run_exits (filter (of_order k) sec) s) else s)" for k low s
    by (subst exit_orders.simps) (simp add: exec_exit_by_order_eq)
  have "initops_exec_exit sec s
      = run_exits (concat (map (\<lambda>k. filter (\<lambda>e. - ord_of e = k) sec) [-3, -2, -1, 0])) s"
    by (simp add: initops_exec_exit_def step run_exits_append equation_minus_iff minus_equation_iff)
  also have "concat (map (\<lambda>k. filter (\<lambda>e. - ord_of e = k) sec) [-3, -2, -1, 0])
      = sort_key (\<lambda>e. - ord_of e) sec"
    using neg_keys by (intro concat_filter_sort_key image_subsetI) simp_all
  finally show ?thesis .
qed

section \<open>Start-up\<close>

text \<open>
  The rollback after the hook at index \<open>i\<close> of the section, of order \<open>k\<close>, failed: within the
  order, downwards from the failing hook to the second of the section, unless the failing hook
  is the first; then the lower orders downwards, but the first.
\<close>

definition rollback_idx :: "('p, 's) initops list \<Rightarrow> nat \<Rightarrow> int \<Rightarrow> nat list" where
  "rollback_idx sec i k = filter (\<lambda>j. of_order k (sec ! j)) (rev [1..<Suc i])
     @ concat (map (\<lambda>q. filter (\<lambda>j. of_order q (sec ! j)) [0..<length sec]) (filter (\<lambda>q. q < k) [2, 1]))"

abbreviation rollback :: "('p, 's) initops list \<Rightarrow> nat \<Rightarrow> int \<Rightarrow> ('p, 's) initops list" where
  "rollback sec i k \<equiv> map ((!) sec) (rollback_idx sec i k)"

lemma filter_nth: "map ((!) xs) (filter (\<lambda>j. P (xs ! j)) [0..<length xs]) = filter P xs"
proof -
  have "filter P xs = filter P (map ((!) xs) [0..<length xs])" by (simp only: map_nth)
  also have "\<dots> = map ((!) xs) (filter (\<lambda>j. P (xs ! j)) [0..<length xs])"
    by (simp only: filter_map comp_def)
  finally show ?thesis by simp
qed

lemma rollback_eq:
  assumes "i < length sec"
  shows "rollback sec i k = filter (of_order k) (rev (take i (tl sec)))
     @ concat (map (\<lambda>q. filter (of_order q) sec) (filter (\<lambda>q. q < k) [2, 1]))"
proof -
  have "take i (tl sec) = map ((!) sec) [1..<Suc i]"
    using assms by (intro nth_equalityI) (simp_all add: nth_tl del: upt_Suc)
  then have "rev (take i (tl sec)) = map ((!) sec) (rev [1..<Suc i])"
    by (simp only: rev_map)
  then have "filter (of_order k) (rev (take i (tl sec)))
      = map ((!) sec) (filter (\<lambda>j. of_order k (sec ! j)) (rev [1..<Suc i]))"
    by (simp only: filter_map comp_def)
  moreover have "map ((!) sec) (filter (\<lambda>j. of_order q (sec ! j)) [0..<length sec]) = filter (of_order q) sec" for q
    by (rule filter_nth)
  ultimately show ?thesis
    by (simp only: rollback_idx_def map_append map_concat map_map comp_def)
qed

lemma ord_of_between: "0 < ord_of e \<Longrightarrow> ord_of e < 3 \<Longrightarrow> ord_of e = 1 \<or> ord_of e = 2"
  using ord_of_keys[of e] by auto

lemma rollback_idx_set:
  assumes "i < length sec" and "k \<in> {0, 1, 2, 3}"
  shows "distinct (rollback_idx sec i k)"
    and "set (rollback_idx sec i k) = {j. j < length sec \<and>
      (ord_of (sec ! j) = k \<and> 0 < j \<and> j \<le> i \<or> 0 < ord_of (sec ! j) \<and> ord_of (sec ! j) < k)}"
proof -
  show "distinct (rollback_idx sec i k)"
    by (auto simp: rollback_idx_def simp del: upt_Suc)
  show "set (rollback_idx sec i k) = {j. j < length sec \<and>
      (ord_of (sec ! j) = k \<and> 0 < j \<and> j \<le> i \<or> 0 < ord_of (sec ! j) \<and> ord_of (sec ! j) < k)}"
    using assms ord_of_between by (auto simp: rollback_idx_def simp del: upt_Suc)
qed

lemma init_by_order_eq:
  "initops_exec_init_by_order k sec s =
     (case run_inits (filter (\<lambda>(j, e). of_order k e) (enumerate 0 sec)) s of
        (None, s') \<Rightarrow> (0, s')
      | (Some (i, e), s') \<Rightarrow> (-1, run_exits (filter (of_order k) (rev (take i (tl sec)))) s'))"
proof -
  have len: "i < length sec" if "run_inits (filter P (enumerate 0 sec)) s = (Some (i, e), s')" for P i e s'
    using run_inits_mem[OF that] by (auto simp: in_set_enumerate_eq)
  show ?thesis
    by (auto simp: initops_exec_init_by_order_def init_loop_eq fallback_loop_eq len
        split: option.splits prod.splits)
qed

lemma exit_orders_low:
  "exit_orders (k - 1) 1 sec s
     = run_exits (concat (map (\<lambda>j. filter (of_order j) sec) (filter (\<lambda>j. j < k) [2, 1]))) s"
  if "k \<in> {0, 1, 2, 3}"
proof -
  have step: "exit_orders k low sec s = (if low \<le> k then
      exit_orders (k - 1) low sec (run_exits (filter (of_order k) sec) s) else s)" for k low s
    by (subst exit_orders.simps) (simp add: exec_exit_by_order_eq)
  show ?thesis
    using that by (auto simp: step[of "-1" 1] step[of 0 1] step[of 1 1] step[of 2 1] run_exits_append)
qed

lemma run_inits_order: "run_inits (filter (\<lambda>(j, e). of_order k e) xs) s = (Some (i, e), s') \<Longrightarrow> ord_of e = k"
  by (drule run_inits_mem) auto

lemma init_orders_eq:
  assumes "k \<in> {0, 1, 2, 3}"
  shows "init_orders k sec s =
    (case run_inits (filter (\<lambda>(j, e). of_order k e) (enumerate 0 sec)) s of
       (None, s') \<Rightarrow> init_orders (k + 1) sec s'
     | (Some (i, e), s') \<Rightarrow> (-1, run_exits (rollback sec i (ord_of e)) s'))"
proof (cases "run_inits (filter (\<lambda>(j, e). of_order k e) (enumerate 0 sec)) s")
  case (Pair f s')
  have k: "k \<le> order_val INITOPS_ORDER_MAX" using assms by auto
  show ?thesis
  proof (cases f)
    case None
    then show ?thesis
      using Pair k by (simp add: init_orders.simps[of k] init_by_order_eq)
  next
    case (Some ie)
    obtain i e where ie: "ie = (i, e)" by (cases ie) auto
    then have "of_order k e" using run_inits_order Pair Some by metis
    moreover have "i < length sec"
      using run_inits_mem[OF Pair[unfolded Some ie]] by (simp add: in_set_enumerate_eq)
    ultimately show ?thesis
      using Pair Some ie k exit_orders_low[OF assms]
      by (simp add: init_orders.simps[of k] init_by_order_eq rollback_eq run_exits_append
          del: filter.simps map_append)
  qed
qed

lemma exec_init_eq:
  "initops_exec_init sec s =
     (case run_inits (sort_key (\<lambda>(i, e). ord_of e) (enumerate 0 sec)) s of
        (None, s') \<Rightarrow> (0, s')
      | (Some (i, e), s') \<Rightarrow> (-1, run_exits (rollback sec i (ord_of e)) s'))"
proof -
  let ?f = "\<lambda>k. filter (\<lambda>(j, e). of_order k e) (enumerate 0 sec)"
  have "sort_key (\<lambda>(i, e). ord_of e) (enumerate 0 sec) = ?f 0 @ ?f 1 @ ?f 2 @ ?f 3"
    using sort_by_order[where xs = "enumerate 0 sec" and g = "\<lambda>(i, e). ord_of e", OF pair_keys] by (simp add: case_prod_unfold)
  moreover have "init_orders 4 sec s = (0, s)" for s by (subst init_orders.simps) simp
  ultimately show ?thesis
    by (simp add: initops_exec_init_def init_orders_eq run_inits_append
        split: option.splits prod.splits)
qed

section \<open>A concrete section\<close>

text \<open>Hooks that log their name, and their name after a tilde when they exit; \<open>r\<close> is what init returns.\<close>

definition demo_hook :: "char \<Rightarrow> initops_order \<Rightarrow> 32 word \<Rightarrow> (char, string) initops" where
  "demo_hook c ord r = INITOPS_INITIALIZER [c] ord
     (Some (\<lambda>p s. (r, s @ [p]))) (Some (\<lambda>p s. s @ [CHR ''~'', p])) c"

definition demo_section :: "(char, string) initops list" where
  "demo_section = [demo_hook CHR ''a'' INITOPS_ORDER_LAST 0, demo_hook CHR ''b'' INITOPS_ORDER_XXX 0,
     demo_hook CHR ''c'' INITOPS_ORDER_FIRST 0, demo_hook CHR ''d'' INITOPS_ORDER_LAST (-1),
     initops_dummy id CHR '' '']"

section \<open>Properties\<close>

text \<open>C28: start-up. \<open>initops_exec_init\<close> runs the init hooks in increasing order, hooks of one order
  in section order, each once, until one returns a negative value. With none it returns 0; else
  it returns -1 after running the exit hooks of the rollback list on the state the failing hook
  left.\<close>

theorem initops_exec_init_sorts:
  "initops_exec_init sec s =
     (case run_inits (sort_key (\<lambda>(i, e). ord_of e) (enumerate 0 sec)) s of
        (None, s') \<Rightarrow> (0, s')
      | (Some (i, e), s') \<Rightarrow> (-1, run_exits (map ((!) sec) (rollback_idx sec i (ord_of e))) s'))"
  by (rule exec_init_eq)

text \<open>C7: the rollback. When the hook at index \<open>i\<close> of the section fails, exit hooks are run, once
  each, of exactly: the hooks of the same order from index 1 to \<open>i\<close>, so including the failing
  hook's own and never that of the first hook of the section, and all hooks of the lower orders
  but \<open>INITOPS_ORDER_FIRST\<close>.\<close>

theorem initops_rollback_exact:
  assumes "run_inits (sort_key (\<lambda>(i, e). ord_of e) (enumerate 0 sec)) s = (Some (i, e), s')"
  shows "\<exists>js. initops_exec_init sec s = (-1, run_exits (map ((!) sec) js) s') \<and> distinct js
    \<and> set js = {j. j < length sec \<and> (ord_of (sec ! j) = ord_of e \<and> 0 < j \<and> j \<le> i
        \<or> 0 < ord_of (sec ! j) \<and> ord_of (sec ! j) < ord_of e)}"
proof -
  have "(i, e) \<in> set (enumerate 0 sec)" using run_inits_mem[OF assms] by simp
  then have i: "i < length sec" by (simp add: in_set_enumerate_eq)
  show ?thesis
    using rollback_idx_set[OF i ord_of_keys[of e]] assms
    by (intro exI[of _ "rollback_idx sec i (ord_of e)"]) (simp add: exec_init_eq)
qed

theorem initops_rollback_exact_witness:
  "\<exists>js. initops_exec_init demo_section [] = (-1, run_exits (map ((!) demo_section) js) ''cbad'')
    \<and> distinct js \<and> set js = {1, 3}"
proof -
  have run: "run_inits (sort_key (\<lambda>(i, e). ord_of e) (enumerate 0 demo_section)) []
      = (Some (3, demo_section ! 3), ''cbad'')"
    by (simp add: demo_section_def demo_hook_def INITOPS_INITIALIZER_def initops_dummy_def)
  have ords: "map ord_of demo_section = [2, 1, 0, 2, 3]"
    by (simp add: demo_section_def demo_hook_def INITOPS_INITIALIZER_def initops_dummy_def)
  have len: "length demo_section = 5" by (simp add: demo_section_def)
  have nth: "ord_of (demo_section ! j) = [2, 1, 0, 2, 3] ! j" if "j < 5" for j
    using that ords len nth_map[of j demo_section ord_of] by simp
  have "{j. j < length demo_section \<and> (ord_of (demo_section ! j) = ord_of (demo_section ! 3) \<and> 0 < j \<and> j \<le> 3
        \<or> 0 < ord_of (demo_section ! j) \<and> ord_of (demo_section ! j) < ord_of (demo_section ! 3))} = {1, 3}"
  proof (rule set_eqI)
    fix j
    show "j \<in> {j. j < length demo_section \<and> (ord_of (demo_section ! j) = ord_of (demo_section ! 3) \<and> 0 < j \<and> j \<le> 3
        \<or> 0 < ord_of (demo_section ! j) \<and> ord_of (demo_section ! j) < ord_of (demo_section ! 3))} \<longleftrightarrow> j \<in> {1, 3}"
    proof (cases "j \<in> {0, 1, 2, 3, 4}")
      case True
      then show ?thesis using nth len by auto
    next
      case False
      then have "\<not> j < length demo_section" using len by auto
      then show ?thesis using False by auto
    qed
  qed
  then show ?thesis using initops_rollback_exact[OF run] by simp
qed

text \<open>C29: shutdown. \<open>initops_exec_exit\<close> runs every exit hook once, in decreasing order, hooks of one
  order in section order.\<close>

theorem initops_exec_exit_sorts:
  "initops_exec_exit sec s = run_exits (sort_key (\<lambda>e. - ord_of e) sec) s"
  by (rule exec_exit_eq)

end
