(* ===== verification/Threadwq.thy ===== *)
theory Threadwq
  imports C_Prelude
begin

text \<open>
  \<open>threadwq/threadwq.c\<close> and \<open>threadwq.h\<close>: a queue of jobs that one worker thread runs. This
  theory holds the data and the operations as one thread executes them; \<open>Threadwq_Worker\<close> lets
  the threads run together. The lock-free queue and the callbacks after a grace period come from
  a library outside the repository: they are the argument \<open>U\<close> of the operations.
\<close>

section \<open>The library the queue is built on\<close>

text \<open>
  \<open>'q\<close> is the memory of one \<open>cds_lfq_queue_rcu\<close> and its nodes. \<open>lfq_dequeue\<close> gives NULL when
  the queue is empty. The two offsets are those of \<open>lfq_node\<close> and \<open>rcu_head\<close> in
  \<open>struct threadwq_job\<close>, which depend on the sizes of the library's structures.
\<close>

record 'q urcu =
  lfq_init :: "'q \<Rightarrow> 'q"
  lfq_node_init :: "ptr \<Rightarrow> 'q \<Rightarrow> 'q"
  lfq_enqueue :: "ptr \<Rightarrow> 'q \<Rightarrow> 'q"
  lfq_dequeue :: "'q \<Rightarrow> ptr \<times> 'q"
  lfq_node_off :: ptr
  rcu_head_off :: ptr

text \<open>
  What the library documents: \<open>items\<close> reads off the nodes of a queue, first to leave first.
\<close>

definition lfq_fifo :: "'q urcu \<Rightarrow> ('q \<Rightarrow> ptr list) \<Rightarrow> bool" where
  "lfq_fifo U items \<longleftrightarrow>
     (\<forall>q. items (lfq_init U q) = [])
   \<and> (\<forall>n q. n \<noteq> NULL \<longrightarrow> n \<notin> set (items q) \<longrightarrow> items (lfq_enqueue U n q) = items q @ [n])
   \<and> (\<forall>q. items q = [] \<longrightarrow> fst (lfq_dequeue U q) = NULL \<and> items (snd (lfq_dequeue U q)) = [])
   \<and> (\<forall>q n ns. items q = n # ns \<longrightarrow>
        fst (lfq_dequeue U q) = n \<and> items (snd (lfq_dequeue U q)) = ns)"

section \<open>Data\<close>

text \<open>
  Callbacks and hooks act on the state \<open>'e\<close> of the rest of the program. \<open>None\<close> is a null
  function pointer.
\<close>

record 'e threadwq_job =
  job_priv :: ptr
  cb_start :: "ptr \<Rightarrow> ptr \<Rightarrow> 'e \<Rightarrow> 'e"
  cb_finish :: "ptr \<Rightarrow> ptr \<Rightarrow> 'e \<Rightarrow> 'e"

record 'e threadwq_ops =
  worker_init :: "(ptr \<Rightarrow> ptr \<Rightarrow> 'e \<Rightarrow> 32 word \<times> 'e) option"
  worker_init_priv :: ptr
  worker_exit :: "(ptr \<Rightarrow> ptr \<Rightarrow> 'e \<Rightarrow> 'e) option"
  worker_exit_priv :: ptr

definition THREQDWQ_OPS_INITIALIZER ::
  "(ptr \<Rightarrow> ptr \<Rightarrow> 'e \<Rightarrow> 32 word \<times> 'e) option \<Rightarrow> ptr \<Rightarrow> (ptr \<Rightarrow> ptr \<Rightarrow> 'e \<Rightarrow> 'e) option \<Rightarrow> ptr
    \<Rightarrow> 'e threadwq_ops" where
  "THREQDWQ_OPS_INITIALIZER i ip e ep =
     \<lparr>worker_init = i, worker_init_priv = ip, worker_exit = e, worker_exit_priv = ep\<rparr>"

definition zero_ops :: "'e threadwq_ops" where
  "zero_ops = THREQDWQ_OPS_INITIALIZER None NULL None NULL"

text \<open>
  The threads around one queue: its worker, the thread that starts and ends it, and the threads
  that add jobs. \<open>tq_mutex\<close> is the holder of the mutex; \<open>tq_waiter\<close> says that the worker, the
  only thread that ever waits on \<open>cond\<close>, is waiting there.
\<close>

datatype thread = Worker | Main | Adder nat

record ('q, 'e) threadwq =
  tq_exit :: u32
  tq_exit_ack :: u32
  tq_running :: u32
  tq_mutex :: "thread option"
  tq_waiter :: bool
  tq_lfq :: 'q
  tq_ops :: "'e threadwq_ops"
  tq_busy :: u32

text \<open>
  \<open>threadwq_job_init\<close> writes the caller's structure, and initialises the node in it.
\<close>

definition threadwq_job_init ::
  "'q urcu \<Rightarrow> ptr \<Rightarrow> (ptr \<Rightarrow> ptr \<Rightarrow> 'e \<Rightarrow> 'e) \<Rightarrow> (ptr \<Rightarrow> ptr \<Rightarrow> 'e \<Rightarrow> 'e) \<Rightarrow> ptr
    \<Rightarrow> (ptr \<Rightarrow> 'e threadwq_job option) \<times> 'q \<Rightarrow> (ptr \<Rightarrow> 'e threadwq_job option) \<times> 'q" where
  "threadwq_job_init U job st fi priv = (\<lambda>(J, q).
     (J(job \<mapsto> \<lparr>job_priv = priv, cb_start = st, cb_finish = fi\<rparr>),
      lfq_node_init U (job + lfq_node_off U) q))"

section \<open>Setting up\<close>

definition threadwq_set_ops ::
  "'e threadwq_ops \<Rightarrow> ('q, 'e) threadwq \<Rightarrow> ('q, 'e) threadwq res" where
  "threadwq_set_ops ops twq =
     bug_on (worker_exit ops = None \<or> worker_init ops = None) (Inr (twq\<lparr>tq_ops := ops\<rparr>))"

text \<open>A table of queues is a list; an index past its end is not an object.\<close>

definition at_index :: "nat \<Rightarrow> ('a \<Rightarrow> 'b res) \<Rightarrow> 'a list \<Rightarrow> 'b res" where
  "at_index i f tbl = (if i < length tbl then f (tbl ! i) else Inl SegFault)"

text \<open>
  The loops over the first \<open>nr\<close> queues of a table: the body says whether to stop, and the loop
  gives the index where it did.
\<close>

function table_loop ::
  "nat \<Rightarrow> nat \<Rightarrow> (nat \<Rightarrow> 'a \<Rightarrow> (bool \<times> 'a) res) \<Rightarrow> 'a list \<Rightarrow> (nat option \<times> 'a list) res" where
  "table_loop i nr f tbl =
     (if i < nr then
        bindR (at_index i (f i) tbl) (\<lambda>(stop, x).
          if stop then Inr (Some i, tbl[i := x]) else table_loop (Suc i) nr f (tbl[i := x]))
      else Inr (None, tbl))"
  by pat_completeness auto
termination by (relation "measure (\<lambda>(i, nr, _). nr - i)") auto

declare table_loop.simps [simp del]

definition threadwq_set_ops_multi ::
  "'e threadwq_ops \<Rightarrow> u32 \<Rightarrow> ('q, 'e) threadwq list \<Rightarrow> ('q, 'e) threadwq list res" where
  "threadwq_set_ops_multi ops nr tbl =
     bindR (table_loop 0 (unat nr)
              (\<lambda>i twq. bindR (threadwq_set_ops ops twq) (\<lambda>twq. Inr (False, twq))) tbl)
       (\<lambda>(_, tbl). Inr tbl)"

text \<open>
  \<open>create_all_cpu_call_rcu_data\<close> may fail, which is only reported.
\<close>

definition threadwq_init :: "'q urcu \<Rightarrow> ('q, 'e) threadwq \<Rightarrow> int \<times> ('q, 'e) threadwq" where
  "threadwq_init U twq =
     (0, twq\<lparr>tq_exit := 0, tq_exit_ack := 0, tq_running := 0,
             tq_waiter := False, tq_mutex := None,
             tq_lfq := lfq_init U (tq_lfq twq),
             tq_ops := zero_ops\<rparr>)"

section \<open>Starting and stopping, seen from the calling thread\<close>

text \<open>
  Both wait for the worker by polling. \<open>others\<close> is what the other threads do to the queue
  between two polls; the loops take fuel, as nothing makes the worker answer.
\<close>

fun running_loop ::
  "nat \<Rightarrow> (('q, 'e) threadwq \<Rightarrow> ('q, 'e) threadwq) \<Rightarrow> ('q, 'e) threadwq \<Rightarrow> ('q, 'e) threadwq res"
where
  "running_loop 0 others twq = Inl Diverge"
| "running_loop (Suc k) others twq =
     (if tq_running twq \<noteq> 0 then Inr twq else running_loop k others (others twq))"

text \<open>\<open>created\<close> is whether \<open>pthread_create\<close> succeeds.\<close>

definition threadwq_exec ::
  "nat \<Rightarrow> (('q, 'e) threadwq \<Rightarrow> ('q, 'e) threadwq) \<Rightarrow> bool \<Rightarrow> ('q, 'e) threadwq
    \<Rightarrow> (int \<times> ('q, 'e) threadwq) res" where
  "threadwq_exec fuel others created twq =
     (if \<not> created then Inr (-1, twq)
      else bindR (running_loop fuel others twq) (\<lambda>twq. Inr (0, twq)))"

text \<open>One round of \<open>kill_online_worker\<close> takes the mutex, counts \<open>exit\<close> up and wakes the worker.\<close>

fun kill_online_worker ::
  "nat \<Rightarrow> (('q, 'e) threadwq \<Rightarrow> ('q, 'e) threadwq) \<Rightarrow> ('q, 'e) threadwq \<Rightarrow> ('q, 'e) threadwq res"
where
  "kill_online_worker 0 others twq = Inl Diverge"
| "kill_online_worker (Suc k) others twq =
     (let twq = others (twq\<lparr>tq_exit := tq_exit twq + 1, tq_waiter := False\<rparr>) in
      if tq_exit_ack twq \<noteq> 0 then Inr twq else kill_online_worker k others twq)"

definition threadwq_exit ::
  "nat \<Rightarrow> (('q, 'e) threadwq \<Rightarrow> ('q, 'e) threadwq) \<Rightarrow> ('q, 'e) threadwq \<Rightarrow> ('q, 'e) threadwq res"
where
  "threadwq_exit fuel others twq = kill_online_worker fuel others twq"

definition threadwq_exit_multi ::
  "nat \<Rightarrow> (nat \<Rightarrow> ('q, 'e) threadwq \<Rightarrow> ('q, 'e) threadwq) \<Rightarrow> u32 \<Rightarrow> ('q, 'e) threadwq list
    \<Rightarrow> ('q, 'e) threadwq list res" where
  "threadwq_exit_multi fuel others nr tbl =
     bindR (table_loop 0 (unat nr)
              (\<lambda>i twq. bindR (threadwq_exit fuel (others i) twq) (\<lambda>twq. Inr (False, twq))) tbl)
       (\<lambda>(_, tbl). Inr tbl)"

text \<open>\<open>(nr - i) * (-1)\<close>, in unsigned arithmetic and read as an \<open>int\<close>\<close>

definition not_done :: "u32 \<Rightarrow> u32 \<Rightarrow> int" where
  "not_done nr i = sint ((nr - i) * (- 1))"

definition threadwq_init_multi ::
  "'q urcu \<Rightarrow> nat \<Rightarrow> (nat \<Rightarrow> ('q, 'e) threadwq \<Rightarrow> ('q, 'e) threadwq) \<Rightarrow> u32
    \<Rightarrow> ('q, 'e) threadwq list \<Rightarrow> (int \<times> ('q, 'e) threadwq list) res" where
  "threadwq_init_multi U fuel others nr tbl =
     bindR (table_loop 0 (unat nr)
              (\<lambda>i twq. let (ret, twq) = threadwq_init U twq in Inr (ret \<noteq> 0, twq)) tbl)
       (\<lambda>(stop, tbl). case stop of
          None \<Rightarrow> Inr (0, tbl)
        | Some i \<Rightarrow> bindR (threadwq_exit_multi fuel others (of_nat i) tbl)
                      (\<lambda>tbl. Inr (not_done nr (of_nat i), tbl)))"

definition threadwq_exec_multi ::
  "nat \<Rightarrow> (nat \<Rightarrow> ('q, 'e) threadwq \<Rightarrow> ('q, 'e) threadwq) \<Rightarrow> (nat \<Rightarrow> bool) \<Rightarrow> u32
    \<Rightarrow> ('q, 'e) threadwq list \<Rightarrow> (int \<times> ('q, 'e) threadwq list) res" where
  "threadwq_exec_multi fuel others created nr tbl =
     bindR (table_loop 0 (unat nr)
              (\<lambda>i twq. bindR (threadwq_exec fuel (others i) (created i) twq)
                (\<lambda>(ret, twq). Inr (ret \<noteq> 0, twq))) tbl)
       (\<lambda>(stop, tbl). case stop of
          None \<Rightarrow> Inr (0, tbl)
        | Some i \<Rightarrow> Inr (not_done nr (of_nat i), tbl))"

section \<open>Jobs\<close>

text \<open>\<open>threadwq_add_job_locked\<close>: the caller holds the mutex and signals.\<close>

definition threadwq_add_job_locked ::
  "'q urcu \<Rightarrow> ptr \<Rightarrow> ('q, 'e) threadwq \<Rightarrow> ('q, 'e) threadwq res" where
  "threadwq_add_job_locked U job twq =
     bug_on (job = NULL)
       (Inr (twq\<lparr>tq_lfq := lfq_enqueue U (job + lfq_node_off U) (tq_lfq twq)\<rparr>))"

definition mutex_lock :: "thread \<Rightarrow> ('q, 'e) threadwq \<Rightarrow> ('q, 'e) threadwq res" where
  "mutex_lock t twq =
     (if tq_mutex twq = None then Inr (twq\<lparr>tq_mutex := Some t\<rparr>) else Inl Deadlock)"

definition mutex_unlock :: "('q, 'e) threadwq \<Rightarrow> ('q, 'e) threadwq res" where
  "mutex_unlock twq = Inr (twq\<lparr>tq_mutex := None\<rparr>)"

text \<open>\<open>pthread_cond_signal\<close> and \<open>pthread_cond_broadcast\<close>, with at most one thread waiting\<close>

definition cond_signal :: "('q, 'e) threadwq \<Rightarrow> ('q, 'e) threadwq res" where
  "cond_signal twq = Inr (twq\<lparr>tq_waiter := False\<rparr>)"

text \<open>
  \<open>threadwq_add_job\<close>, as the thread \<open>t\<close> runs it when no other thread interferes; \<open>Deadlock\<close>
  would be a mutex that is never released.
\<close>

definition threadwq_add_job ::
  "'q urcu \<Rightarrow> thread \<Rightarrow> ptr \<Rightarrow> ('q, 'e) threadwq \<Rightarrow> ('q, 'e) threadwq res" where
  "threadwq_add_job U t job twq =
     bug_on (job = NULL)
       (seqR [\<lambda>twq. Inr (twq\<lparr>tq_lfq := lfq_enqueue U (job + lfq_node_off U) (tq_lfq twq)\<rparr>),
              mutex_lock t, cond_signal, mutex_unlock] twq)"

definition dequeue_one_job :: "'q urcu \<Rightarrow> 'q \<Rightarrow> ptr \<times> 'q" where
  "dequeue_one_job U q =
     (let (n, q) = lfq_dequeue U q in
      if n = NULL then (NULL, q) else (n - lfq_node_off U, q))"

text \<open>
  What a thread that runs jobs changes: the queue, the callbacks left to \<open>call_rcu\<close>, the rest
  of the program. \<open>J\<close> is the memory of the jobs.
\<close>

record ('q, 'e) work =
  wk_lfq :: 'q
  wk_rcu :: "ptr list"
  wk_env :: 'e

definition start_job ::
  "'q urcu \<Rightarrow> (ptr \<Rightarrow> 'e threadwq_job option) \<Rightarrow> ptr \<Rightarrow> ('q, 'e) work \<Rightarrow> ('q, 'e) work res" where
  "start_job U J job s =
     (case J job of
        None \<Rightarrow> Inl SegFault
      | Some j \<Rightarrow> Inr (s\<lparr>wk_env := cb_start j job (job_priv j) (wk_env s),
                       wk_rcu := wk_rcu s @ [job + rcu_head_off U]\<rparr>))"

text \<open>\<open>__exec_finish_rcu\<close>, which the library calls with the head after the grace period\<close>

definition exec_finish_rcu ::
  "'q urcu \<Rightarrow> (ptr \<Rightarrow> 'e threadwq_job option) \<Rightarrow> ptr \<Rightarrow> 'e \<Rightarrow> 'e res" where
  "exec_finish_rcu U J head e =
     (let job = head - rcu_head_off U in
      case J job of None \<Rightarrow> Inl SegFault | Some j \<Rightarrow> Inr (cb_finish j job (job_priv j) e))"

fun pending_loop ::
  "nat \<Rightarrow> 'q urcu \<Rightarrow> (ptr \<Rightarrow> 'e threadwq_job option) \<Rightarrow> u32 \<Rightarrow> ptr \<Rightarrow> ('q, 'e) work
    \<Rightarrow> (u32 \<times> ('q, 'e) work) res" where
  "pending_loop 0 U J accl job s = Inl Diverge"
| "pending_loop (Suc k) U J accl job s =
     bindR (start_job U J job s) (\<lambda>s.
       let (job', q) = dequeue_one_job U (wk_lfq s); s = s\<lparr>wk_lfq := q\<rparr> in
       if job' \<noteq> NULL then pending_loop k U J (accl + 1) job' s else Inr (accl + 1, s))"

definition exec_pending_jobs ::
  "nat \<Rightarrow> 'q urcu \<Rightarrow> (ptr \<Rightarrow> 'e threadwq_job option) \<Rightarrow> ('q, 'e) work \<Rightarrow> (u32 \<times> ('q, 'e) work) res"
where
  "exec_pending_jobs fuel U J s =
     (let (job, q) = dequeue_one_job U (wk_lfq s); s = s\<lparr>wk_lfq := q\<rparr> in
      if job = NULL then Inr (0, s) else pending_loop fuel U J 0 job s)"


section \<open>The queue as a list of jobs\<close>

text \<open>\<open>holds_jobs U items q js\<close>: the queue holds the jobs \<open>js\<close>, first to run first.\<close>

definition holds_jobs :: "'q urcu \<Rightarrow> ('q \<Rightarrow> ptr list) \<Rightarrow> 'q \<Rightarrow> ptr list \<Rightarrow> bool" where
  "holds_jobs U items q js \<longleftrightarrow>
     items q = map (\<lambda>j. j + lfq_node_off U) js
   \<and> (\<forall>j \<in> set js. j \<noteq> NULL \<and> j + lfq_node_off U \<noteq> NULL)"

lemma lfq_fifoD:
  assumes "lfq_fifo U items"
  shows "items (lfq_init U q) = []"
    and "n \<noteq> NULL \<Longrightarrow> n \<notin> set (items q) \<Longrightarrow> items (lfq_enqueue U n q) = items q @ [n]"
    and "items q = [] \<Longrightarrow> fst (lfq_dequeue U q) = NULL"
    and "items q = [] \<Longrightarrow> items (snd (lfq_dequeue U q)) = []"
    and "items q = n # ns \<Longrightarrow> fst (lfq_dequeue U q) = n"
    and "items q = n # ns \<Longrightarrow> items (snd (lfq_dequeue U q)) = ns"
  using assms unfolding lfq_fifo_def by blast+

lemma holds_jobs_init: "lfq_fifo U items \<Longrightarrow> holds_jobs U items (lfq_init U q) []"
  by (simp add: lfq_fifo_def holds_jobs_def)

lemma holds_jobs_enqueue:
  assumes "lfq_fifo U items" and "holds_jobs U items q js" and "j \<notin> set js"
    and "j \<noteq> NULL" and "j + lfq_node_off U \<noteq> NULL"
  shows "holds_jobs U items (lfq_enqueue U (j + lfq_node_off U) q) (js @ [j])"
proof -
  have "j + lfq_node_off U \<notin> set (items q)" using assms(2,3) by (auto simp: holds_jobs_def)
  then show ?thesis
    using assms lfq_fifoD(2)[OF assms(1) assms(5)] by (auto simp: holds_jobs_def)
qed

lemma dequeue_empty:
  assumes "lfq_fifo U items" and "holds_jobs U items q []"
  obtains q' where "dequeue_one_job U q = (NULL, q')" and "holds_jobs U items q' []"
proof (cases "lfq_dequeue U q")
  case (Pair n q')
  then show ?thesis
    using assms that[of q'] lfq_fifoD(3,4)[OF assms(1), of q]
    by (simp add: holds_jobs_def dequeue_one_job_def)
qed

lemma dequeue_Cons:
  assumes "lfq_fifo U items" and "holds_jobs U items q (j # js)"
  obtains q' where "dequeue_one_job U q = (j, q')" and "holds_jobs U items q' js" and "j \<noteq> NULL"
proof (cases "lfq_dequeue U q")
  case (Pair n q')
  have "items q = (j + lfq_node_off U) # map (\<lambda>j. j + lfq_node_off U) js"
    using assms(2) by (simp add: holds_jobs_def)
  then have "n = j + lfq_node_off U" and "items q' = map (\<lambda>j. j + lfq_node_off U) js"
    using lfq_fifoD(5,6)[OF assms(1)] Pair by (metis fst_conv, metis snd_conv)
  then show ?thesis
    using assms that[of q'] Pair by (auto simp: holds_jobs_def dequeue_one_job_def)
qed

text \<open>A queue in the contract, as plain lists of nodes.\<close>

definition list_urcu :: "ptr list urcu" where
  "list_urcu = \<lparr>lfq_init = (\<lambda>_. []), lfq_node_init = (\<lambda>_ q. q), lfq_enqueue = (\<lambda>n q. q @ [n]),
     lfq_dequeue = (\<lambda>q. case q of [] \<Rightarrow> (NULL, []) | n # q \<Rightarrow> (n, q)),
     lfq_node_off = 40, rcu_head_off = 24\<rparr>"

lemma list_urcu_simps [simp]:
  "lfq_init list_urcu = (\<lambda>_. [])"
  "lfq_enqueue list_urcu = (\<lambda>n q. q @ [n])"
  "lfq_dequeue list_urcu = (\<lambda>q. case q of [] \<Rightarrow> (NULL, []) | n # q \<Rightarrow> (n, q))"
  "lfq_node_off list_urcu = 40"
  "rcu_head_off list_urcu = 24"
  by (simp_all add: list_urcu_def)

lemma list_urcu_fifo: "lfq_fifo list_urcu (\<lambda>q. q)"
  by (auto simp: lfq_fifo_def)

section \<open>Running what is pending\<close>

abbreviation start_env :: "(ptr \<Rightarrow> 'e threadwq_job option) \<Rightarrow> ptr \<Rightarrow> 'e \<Rightarrow> 'e" where
  "start_env J j e \<equiv> cb_start (the (J j)) j (job_priv (the (J j))) e"

lemma pending_loop_eq:
  assumes "lfq_fifo U items" and "holds_jobs U items (wk_lfq s) js"
    and "set (j # js) \<subseteq> dom J" and "length js < fuel"
  shows "\<exists>s'. pending_loop fuel U J accl j s = Inr (accl + of_nat (Suc (length js)), s')
    \<and> holds_jobs U items (wk_lfq s') []
    \<and> wk_rcu s' = wk_rcu s @ map (\<lambda>j. j + rcu_head_off U) (j # js)
    \<and> wk_env s' = fold (start_env J) (j # js) (wk_env s)"
  using assms(2-)
proof (induction js arbitrary: fuel accl j s)
  case Nil
  obtain k where k: "fuel = Suc k" using Nil.prems by (cases fuel) auto
  obtain q' where q': "dequeue_one_job U (wk_lfq s) = (NULL, q')" "holds_jobs U items q' []"
    using dequeue_empty[OF assms(1) Nil.prems(1)] .
  from Nil.prems obtain jb where "J j = Some jb" by auto
  with q' show ?case by (simp add: k start_job_def)
next
  case (Cons i js)
  obtain k where k: "fuel = Suc k" using Cons.prems by (cases fuel) auto
  obtain q' where q': "dequeue_one_job U (wk_lfq s) = (i, q')" "holds_jobs U items q' js" "i \<noteq> NULL"
    using dequeue_Cons[OF assms(1) Cons.prems(1)] .
  from Cons.prems obtain jb where jb: "J j = Some jb" by auto
  let ?s = "s\<lparr>wk_env := cb_start jb j (job_priv jb) (wk_env s),
              wk_rcu := wk_rcu s @ [j + rcu_head_off U], wk_lfq := q'\<rparr>"
  have step: "pending_loop fuel U J accl j s = pending_loop k U J (accl + 1) i ?s"
    using q' jb by (simp add: k start_job_def)
  have "holds_jobs U items (wk_lfq ?s) js" using q' by simp
  from Cons.IH[OF this, of i k "accl + 1"] Cons.prems k show ?case
    unfolding step using jb by (auto simp: algebra_simps)
qed

section \<open>Loops over the table\<close>

lemma table_loop_all:
  assumes "\<And>j. i \<le> j \<Longrightarrow> j < nr \<Longrightarrow> f j (tbl ! j) = Inr (False, g j (tbl ! j))"
    and "nr \<le> length tbl" and "i \<le> nr"
  shows "table_loop i nr f tbl
    = Inr (None, take i tbl @ map (\<lambda>j. g j (tbl ! j)) [i..<nr] @ drop nr tbl)"
  using assms
proof (induction i nr f tbl rule: table_loop.induct)
  case (1 i nr f tbl)
  show ?case
  proof (cases "i < nr")
    case True
    let ?t = "tbl[i := g i (tbl ! i)]"
    have "table_loop i nr f tbl = table_loop (Suc i) nr f ?t"
      using True "1.prems" by (simp add: table_loop.simps[of i] at_index_def)
    also have "\<dots> = Inr (None, take (Suc i) ?t @ map (\<lambda>j. g j (?t ! j)) [Suc i..<nr] @ drop nr ?t)"
    proof (rule "1.IH"[OF True])
      show "f j (?t ! j) = Inr (False, g j (?t ! j))" if "Suc i \<le> j" "j < nr" for j
        using "1.prems"(1)[of j] that by simp
    qed (use True "1.prems" in auto)
    also have "take (Suc i) ?t = take i tbl @ [g i (tbl ! i)]"
      using True "1.prems"(2) by (simp add: take_Suc_conv_app_nth)
    also have "map (\<lambda>j. g j (?t ! j)) [Suc i..<nr] = map (\<lambda>j. g j (tbl ! j)) [Suc i..<nr]"
      by (rule map_cong) auto
    finally show ?thesis using True "1.prems"(2) by (simp add: upt_conv_Cons)
  next
    case False
    then have "i = nr" using "1.prems" by simp
    then show ?thesis by (simp add: table_loop.simps)
  qed
qed

lemma table_loop_stop:
  assumes "\<And>j. i \<le> j \<Longrightarrow> j < k \<Longrightarrow> f j (tbl ! j) = Inr (False, g j (tbl ! j))"
    and "f k (tbl ! k) = Inr (True, x)"
    and "k < nr" and "k < length tbl" and "i \<le> k"
  shows "table_loop i nr f tbl
    = Inr (Some k, take i tbl @ map (\<lambda>j. g j (tbl ! j)) [i..<k] @ x # drop (Suc k) tbl)"
  using assms
proof (induction i nr f tbl rule: table_loop.induct)
  case (1 i nr f tbl)
  show ?case
  proof (cases "i < k")
    case True
    let ?t = "tbl[i := g i (tbl ! i)]"
    have "table_loop i nr f tbl = table_loop (Suc i) nr f ?t"
      using True "1.prems" by (simp add: table_loop.simps[of i] at_index_def)
    also have "\<dots> = Inr (Some k, take (Suc i) ?t @ map (\<lambda>j. g j (?t ! j)) [Suc i..<k] @ x # drop (Suc k) ?t)"
    proof (rule "1.IH")
      show "f j (?t ! j) = Inr (False, g j (?t ! j))" if "Suc i \<le> j" "j < k" for j
        using "1.prems"(1)[of j] that by simp
    qed (use True "1.prems" in auto)
    also have "take (Suc i) ?t = take i tbl @ [g i (tbl ! i)]"
      using True "1.prems" by (simp add: take_Suc_conv_app_nth)
    also have "map (\<lambda>j. g j (?t ! j)) [Suc i..<k] = map (\<lambda>j. g j (tbl ! j)) [Suc i..<k]"
      by (rule map_cong) auto
    finally show ?thesis using True "1.prems" by (simp add: upt_conv_Cons)
  next
    case False
    then have "i = k" using "1.prems" by simp
    then show ?thesis using "1.prems"
      by (simp add: table_loop.simps at_index_def upd_conv_take_nth_drop)
  qed
qed

lemma sint_neg_of_nat:
  assumes "n \<le> 2 ^ 31"
  shows "sint (- of_nat n :: u32) = - int n"
proof -
  have "sint (- of_nat n :: u32) = sint (word_of_int (- int n) :: u32)" by simp
  also have "\<dots> = signed_take_bit 31 (- int n)"
    by (subst sint_sbintrunc') simp
  also have "\<dots> = - int n"
    using assms by (intro signed_take_bit_int_eq_self) auto
  finally show ?thesis .
qed

lemma not_done_eq:
  assumes "k \<le> unat nr" and "unat nr - k \<le> 2 ^ 31"
  shows "not_done nr (of_nat k) = - int (unat nr - k)"
proof -
  have "(nr - of_nat k) * (- 1) = - of_nat (unat nr - k)"
    using assms(1) by (simp add: of_nat_diff)
  then show ?thesis using sint_neg_of_nat[OF assms(2)] by (simp add: not_done_def)
qed

section \<open>Properties\<close>

text \<open>Flushing. \<open>exec_pending_jobs\<close> runs every job in the queue, in the order they were
  added, each once; it leaves the queue empty, hands the finish callback of each to the library
  in the same order, and returns their number.\<close>

theorem exec_pending_jobs_fifo:
  assumes "lfq_fifo U items" and "holds_jobs U items (wk_lfq s) js"
    and "set js \<subseteq> dom J" and "length js \<le> fuel"
  shows "\<exists>s'. exec_pending_jobs fuel U J s = Inr (of_nat (length js), s')
    \<and> holds_jobs U items (wk_lfq s') []
    \<and> wk_rcu s' = wk_rcu s @ map (\<lambda>j. j + rcu_head_off U) js
    \<and> wk_env s' = fold (\<lambda>j. cb_start (the (J j)) j (job_priv (the (J j)))) js (wk_env s)"
proof (cases js)
  case Nil
  then obtain q' where "dequeue_one_job U (wk_lfq s) = (NULL, q')" "holds_jobs U items q' []"
    using dequeue_empty[OF assms(1)] assms(2) by blast
  then show ?thesis using Nil by (simp add: exec_pending_jobs_def)
next
  case (Cons j js')
  then obtain q' where q': "dequeue_one_job U (wk_lfq s) = (j, q')" "holds_jobs U items q' js'" "j \<noteq> NULL"
    using dequeue_Cons[OF assms(1)] assms(2) by blast
  have "holds_jobs U items (wk_lfq (s\<lparr>wk_lfq := q'\<rparr>)) js'" using q' by simp
  from pending_loop_eq[OF assms(1) this, of j J fuel 0] assms(3,4) Cons q' show ?thesis
    by (simp add: exec_pending_jobs_def)
qed

definition demo_job :: "string threadwq_job" where
  "demo_job = \<lparr>job_priv = 7, cb_start = (\<lambda>j p e. e @ ''s''), cb_finish = (\<lambda>j p e. e @ ''f'')\<rparr>"

theorem exec_pending_jobs_fifo_witness:
  "\<exists>s'. exec_pending_jobs 2 list_urcu [0x1000 \<mapsto> demo_job, 0x2000 \<mapsto> demo_job]
      \<lparr>wk_lfq = [0x1028, 0x2028], wk_rcu = [], wk_env = ''''\<rparr> = Inr (2, s')
    \<and> wk_rcu s' = [0x1018, 0x2018] \<and> wk_env s' = ''ss''"
  using exec_pending_jobs_fifo[where U = list_urcu and js = "[0x1000, 0x2000]" and fuel = 2
      and s = "\<lparr>wk_lfq = [0x1028, 0x2028], wk_rcu = [], wk_env = ''''\<rparr>"
      and J = "[0x1000 \<mapsto> demo_job, 0x2000 \<mapsto> demo_job]", OF list_urcu_fifo]
  by (auto simp: holds_jobs_def demo_job_def)

text \<open>Starting a table of queues. When \<open>pthread_create\<close> first fails for the queue at index
  \<open>k\<close>, \<open>threadwq_exec_multi\<close> returns minus the number of queues that have no worker, the first
  \<open>k\<close> queues have a running worker, and the others are untouched.\<close>

theorem threadwq_exec_multi_partial:
  assumes "k < unat nr" and "unat nr \<le> length tbl" and "unat nr - k \<le> 2 ^ 31"
    and "\<not> created k" and "\<And>i. i < k \<Longrightarrow> created i"
    and "\<And>i. i < k \<Longrightarrow> running_loop fuel (others i) (tbl ! i) = Inr (on i)"
  shows "threadwq_exec_multi fuel others created nr tbl
    = Inr (- int (unat nr - k), map on [0..<k] @ drop k tbl)"
proof -
  let ?f = "\<lambda>i twq. bindR (threadwq_exec fuel (others i) (created i) twq)
                (\<lambda>(ret, twq). Inr (ret \<noteq> 0, twq))"
  have "table_loop 0 (unat nr) ?f tbl
      = Inr (Some k, take 0 tbl @ map (\<lambda>j. on j) [0..<k] @ tbl ! k # drop (Suc k) tbl)"
    by (rule table_loop_stop[where g = "\<lambda>j _. on j"]) (use assms in \<open>auto simp: threadwq_exec_def\<close>)
  also have "tbl ! k # drop (Suc k) tbl = drop k tbl"
    using assms(1,2) by (simp add: Cons_nth_drop_Suc)
  finally show ?thesis
    using not_done_eq[of k nr] assms(1,3) by (simp add: threadwq_exec_multi_def)
qed

definition demo_twq :: "(ptr list, string) threadwq" where
  "demo_twq = \<lparr>tq_exit = 0, tq_exit_ack = 0, tq_running = 0, tq_mutex = None, tq_waiter = False,
     tq_lfq = [], tq_ops = zero_ops, tq_busy = 0\<rparr>"

theorem threadwq_exec_multi_partial_witness:
  "threadwq_exec_multi 2 (\<lambda>i twq. twq\<lparr>tq_running := 1\<rparr>) (\<lambda>i. i < 1) 3 [demo_twq, demo_twq, demo_twq]
    = Inr (-2, [demo_twq\<lparr>tq_running := 1\<rparr>, demo_twq, demo_twq])"
proof -
  have "running_loop 2 (\<lambda>twq. twq\<lparr>tq_running := 1\<rparr>) demo_twq = Inr (demo_twq\<lparr>tq_running := 1\<rparr>)"
    by (simp add: demo_twq_def eval_nat_numeral)
  then show ?thesis
    using threadwq_exec_multi_partial[where k = 1 and nr = 3 and fuel = 2
      and tbl = "[demo_twq, demo_twq, demo_twq]" and created = "\<lambda>i. i < 1"
      and others = "\<lambda>i twq. twq\<lparr>tq_running := 1\<rparr>" and on = "\<lambda>_. demo_twq\<lparr>tq_running := 1\<rparr>"]
    by simp
qed

text \<open>The hooks are written in exactly the first \<open>nr\<close> queues, or the program stops.\<close>

lemma threadwq_set_ops_multi_eq:
  assumes "unat nr \<le> length tbl" and "0 < unat nr"
  shows "threadwq_set_ops_multi ops nr tbl =
      (if worker_init ops = None \<or> worker_exit ops = None then Inl BugOn
       else Inr (map (\<lambda>twq. twq\<lparr>tq_ops := ops\<rparr>) (take (unat nr) tbl) @ drop (unat nr) tbl))"
proof (cases "worker_init ops = None \<or> worker_exit ops = None")
  case True
  have "table_loop 0 (unat nr)
        (\<lambda>i twq. bindR (threadwq_set_ops ops twq) (\<lambda>twq. Inr (False, twq))) tbl = Inl BugOn"
    using assms True by (subst table_loop.simps) (auto simp: at_index_def threadwq_set_ops_def)
  then show ?thesis using True by (simp add: threadwq_set_ops_multi_def)
next
  case False
  then have "table_loop 0 (unat nr)
      (\<lambda>i twq. bindR (threadwq_set_ops ops twq) (\<lambda>twq. Inr (False, twq))) tbl
    = Inr (None, take 0 tbl @ map (\<lambda>j. (tbl ! j)\<lparr>tq_ops := ops\<rparr>) [0..<unat nr] @ drop (unat nr) tbl)"
    using assms by (intro table_loop_all) (auto simp: threadwq_set_ops_def)
  moreover have "map (\<lambda>j. (tbl ! j)\<lparr>tq_ops := ops\<rparr>) [0..<unat nr]
      = map (\<lambda>twq. twq\<lparr>tq_ops := ops\<rparr>) (take (unat nr) tbl)"
    using assms by (intro nth_equalityI) auto
  ultimately show ?thesis using False by (auto simp: threadwq_set_ops_multi_def)
qed

end
