(* ===== verification/Threadwq_Worker.thy ===== *)
theory Threadwq_Worker
  imports Threadwq "HOL-Library.Multiset" "HOL-Library.Sublist"
begin

text \<open>
  One queue with its threads running together: the worker (\<open>thread_func\<close>), the thread that
  starts it and stops it (\<open>threadwq_exec\<close>, \<open>threadwq_exit\<close>), and any number of threads that
  add jobs (\<open>threadwq_add_job\<close>). Each access to shared state is a step; the program counters
  name the statements.
\<close>

section \<open>The state\<close>

text \<open>\<open>thread_func\<close>; the argument is the local variable \<open>job\<close>.\<close>

datatype worker_pc =
  W_none \<comment> \<open>no thread yet\<close>
| W_new \<comment> \<open>\<open>worker_init\<close>\<close>
| W_abort \<comment> \<open>\<open>BUG()\<close>\<close>
| W_online \<comment> \<open>\<open>twq->running = 1\<close>\<close>
| W_loop \<comment> \<open>\<open>while (twq->exit == 0)\<close>\<close>
| W_take \<comment> \<open>the first \<open>dequeue_one_job\<close>\<close>
| W_start ptr \<comment> \<open>\<open>job->cb_start\<close>\<close>
| W_defer ptr \<comment> \<open>\<open>call_rcu\<close>\<close>
| W_next \<comment> \<open>the next \<open>dequeue_one_job\<close>\<close>
| W_lock \<comment> \<open>\<open>wait4job\<close>\<close>
| W_wait
| W_sleep
| W_unlock
| W_flush \<comment> \<open>\<open>exec_pending_jobs\<close>\<close>
| W_flush_start ptr
| W_flush_defer ptr
| W_exit \<comment> \<open>\<open>worker_exit\<close>\<close>
| W_ack \<comment> \<open>\<open>twq->exit_ack = 1\<close>\<close>
| W_done

text \<open>
  \<open>threadwq_add_job\<close> is \<open>A_enqueue\<close>, \<open>A_lock\<close>, \<open>A_signal\<close>, \<open>A_unlock\<close>. A thread that has the mutex
  already (\<open>rr4idle_add_job\<close>, in \<open>Man_Threads\<close>) enters at \<open>A_put\<close>, \<open>threadwq_add_job_locked\<close>.
\<close>

datatype adder_pc = A_idle | A_enqueue ptr | A_put ptr | A_lock | A_signal | A_unlock

datatype main_pc =
  M_create | M_spin | M_ready \<comment> \<open>\<open>threadwq_exec\<close>, and when it has returned\<close>
| M_failed \<comment> \<open>\<open>pthread_create\<close> failed\<close>
| M_lock | M_count | M_broadcast | M_unlock | M_poll | M_join \<comment> \<open>\<open>kill_online_worker\<close>\<close>
| M_done

text \<open>
  \<open>accepted\<close>, \<open>started\<close> and \<open>finished\<close> are the jobs enqueued, started and finished so far, in
  that order; \<open>deferred\<close> are the \<open>rcu_head\<close>s whose grace period has not passed.
\<close>

record ('q, 'e) sys =
  twq :: "('q, 'e) threadwq"
  wpc :: worker_pc
  mpc :: main_pc
  apc :: "nat \<Rightarrow> adder_pc"
  cnt :: u32
  busy :: u32
  env :: 'e
  accepted :: "ptr list"
  started :: "ptr list"
  deferred :: "ptr list"
  finished :: "ptr list"

definition THREADWQ_STAT_PERIOD :: u32 where
  "THREADWQ_STAT_PERIOD = 1000"

section \<open>The threads\<close>

text \<open>\<open>None\<close>: the thread is blocked or has ended.\<close>

definition take_mutex :: "thread \<Rightarrow> ('q, 'e) sys \<Rightarrow> ('q, 'e) sys option" where
  "take_mutex t s =
     (if tq_mutex (twq s) = None then Some (s\<lparr>twq := (twq s)\<lparr>tq_mutex := Some t\<rparr>\<rparr>) else None)"

definition drop_mutex :: "('q, 'e) sys \<Rightarrow> ('q, 'e) sys" where
  "drop_mutex s = s\<lparr>twq := (twq s)\<lparr>tq_mutex := None\<rparr>\<rparr>"

definition wake :: "('q, 'e) sys \<Rightarrow> ('q, 'e) sys" where
  "wake s = s\<lparr>twq := (twq s)\<lparr>tq_waiter := False\<rparr>\<rparr>"

text \<open>\<open>dequeue_one_job\<close>: where to go when there is none, and when there is one.\<close>

definition take_job ::
  "'q urcu \<Rightarrow> worker_pc \<Rightarrow> (ptr \<Rightarrow> worker_pc) \<Rightarrow> ('q, 'e) sys \<Rightarrow> ('q, 'e) sys" where
  "take_job U none some s =
     (let (job, q) = dequeue_one_job U (tq_lfq (twq s)) in
      s\<lparr>twq := (twq s)\<lparr>tq_lfq := q\<rparr>, wpc := if job = NULL then none else some job\<rparr>)"

definition call_start :: "(ptr \<Rightarrow> 'e threadwq_job) \<Rightarrow> ptr \<Rightarrow> ('q, 'e) sys \<Rightarrow> ('q, 'e) sys" where
  "call_start J job s =
     s\<lparr>env := cb_start (J job) job (job_priv (J job)) (env s), started := started s @ [job]\<rparr>"

definition call_rcu :: "'q urcu \<Rightarrow> ptr \<Rightarrow> ('q, 'e) sys \<Rightarrow> ('q, 'e) sys" where
  "call_rcu U job s = s\<lparr>deferred := deferred s @ [job + rcu_head_off U]\<rparr>"

text \<open>The statistics at the head of the loop body\<close>

definition loop_stat :: "('q, 'e) sys \<Rightarrow> ('q, 'e) sys" where
  "loop_stat s =
     (let c = cnt s + 1 in
      if c \<ge> THREADWQ_STAT_PERIOD
      then s\<lparr>twq := (twq s)\<lparr>tq_busy := busy s\<rparr>, cnt := 0, busy := drop_bit 1 (busy s)\<rparr>
      else s\<lparr>cnt := c\<rparr>)"

fun worker_step ::
  "'q urcu \<Rightarrow> (ptr \<Rightarrow> 'e threadwq_job) \<Rightarrow> ptr \<Rightarrow> worker_pc \<Rightarrow> ('q, 'e) sys \<Rightarrow> ('q, 'e) sys option"
where
  "worker_step U J self W_none s = None"
| "worker_step U J self W_new s =
     (case worker_init (tq_ops (twq s)) of
        None \<Rightarrow> Some (s\<lparr>wpc := W_online\<rparr>)
      | Some f \<Rightarrow>
          (let (ret, e) = f self (worker_init_priv (tq_ops (twq s))) (env s) in
           Some (s\<lparr>env := e, wpc := if ret \<noteq> 0 then W_abort else W_online\<rparr>)))"
| "worker_step U J self W_abort s = None"
| "worker_step U J self W_online s =
     Some (s\<lparr>twq := (twq s)\<lparr>tq_running := 1\<rparr>, cnt := 0, busy := 0, wpc := W_loop\<rparr>)"
| "worker_step U J self W_loop s =
     (if tq_exit (twq s) = 0 then Some ((loop_stat s)\<lparr>wpc := W_take\<rparr>) else Some (s\<lparr>wpc := W_flush\<rparr>))"
| "worker_step U J self W_take s = Some (take_job U W_lock W_start s)"
| "worker_step U J self (W_start job) s =
     Some ((call_start J job s)\<lparr>busy := busy s + 1, wpc := W_defer job\<rparr>)"
| "worker_step U J self (W_defer job) s = Some ((call_rcu U job s)\<lparr>wpc := W_next\<rparr>)"
| "worker_step U J self W_next s = Some (take_job U W_lock W_start s)"
| "worker_step U J self W_lock s = map_option (\<lambda>s. s\<lparr>wpc := W_wait\<rparr>) (take_mutex Worker s)"
| "worker_step U J self W_wait s =
     Some (s\<lparr>twq := (twq s)\<lparr>tq_mutex := None, tq_waiter := True\<rparr>, wpc := W_sleep\<rparr>)"
| "worker_step U J self W_sleep s =
     (if tq_waiter (twq s) then None
      else map_option (\<lambda>s. s\<lparr>wpc := W_unlock\<rparr>) (take_mutex Worker s))"
| "worker_step U J self W_unlock s = Some ((drop_mutex s)\<lparr>wpc := W_loop\<rparr>)"
| "worker_step U J self W_flush s = Some (take_job U W_exit W_flush_start s)"
| "worker_step U J self (W_flush_start job) s = Some ((call_start J job s)\<lparr>wpc := W_flush_defer job\<rparr>)"
| "worker_step U J self (W_flush_defer job) s = Some ((call_rcu U job s)\<lparr>wpc := W_flush\<rparr>)"
| "worker_step U J self W_exit s =
     (case worker_exit (tq_ops (twq s)) of
        None \<Rightarrow> Some (s\<lparr>wpc := W_ack\<rparr>)
      | Some f \<Rightarrow> Some (s\<lparr>env := f self (worker_exit_priv (tq_ops (twq s))) (env s), wpc := W_ack\<rparr>))"
| "worker_step U J self W_ack s = Some (s\<lparr>twq := (twq s)\<lparr>tq_exit_ack := 1\<rparr>, wpc := W_done\<rparr>)"
| "worker_step U J self W_done s = None"

text \<open>\<open>threadwq_add_job\<close> in the thread \<open>i\<close>, once called\<close>

fun adder_step :: "'q urcu \<Rightarrow> nat \<Rightarrow> adder_pc \<Rightarrow> ('q, 'e) sys \<Rightarrow> ('q, 'e) sys option" where
  "adder_step U i A_idle s = None"
| "adder_step U i (A_enqueue job) s =
     Some (s\<lparr>twq := (twq s)\<lparr>tq_lfq := lfq_enqueue U (job + lfq_node_off U) (tq_lfq (twq s))\<rparr>,
             accepted := accepted s @ [job], apc := (apc s)(i := A_lock)\<rparr>)"
| "adder_step U i (A_put job) s =
     Some (s\<lparr>twq := (twq s)\<lparr>tq_lfq := lfq_enqueue U (job + lfq_node_off U) (tq_lfq (twq s))\<rparr>,
             accepted := accepted s @ [job], apc := (apc s)(i := A_signal)\<rparr>)"
| "adder_step U i A_lock s =
     map_option (\<lambda>s. s\<lparr>apc := (apc s)(i := A_signal)\<rparr>) (take_mutex (Adder i) s)"
| "adder_step U i A_signal s = Some ((wake s)\<lparr>apc := (apc s)(i := A_unlock)\<rparr>)"
| "adder_step U i A_unlock s = Some ((drop_mutex s)\<lparr>apc := (apc s)(i := A_idle)\<rparr>)"

text \<open>\<open>created\<close>: whether \<open>pthread_create\<close> succeeds\<close>

fun main_step :: "bool \<Rightarrow> main_pc \<Rightarrow> ('q, 'e) sys \<Rightarrow> ('q, 'e) sys option" where
  "main_step created M_create s =
     (if created then Some (s\<lparr>wpc := W_new, mpc := M_spin\<rparr>) else Some (s\<lparr>mpc := M_failed\<rparr>))"
| "main_step created M_failed s = None"
| "main_step created M_spin s = Some (if tq_running (twq s) \<noteq> 0 then s\<lparr>mpc := M_ready\<rparr> else s)"
| "main_step created M_ready s = Some (s\<lparr>mpc := M_lock\<rparr>)"
| "main_step created M_lock s = map_option (\<lambda>s. s\<lparr>mpc := M_count\<rparr>) (take_mutex Main s)"
| "main_step created M_count s =
     Some (s\<lparr>twq := (twq s)\<lparr>tq_exit := tq_exit (twq s) + 1\<rparr>, mpc := M_broadcast\<rparr>)"
| "main_step created M_broadcast s = Some ((wake s)\<lparr>mpc := M_unlock\<rparr>)"
| "main_step created M_unlock s = Some ((drop_mutex s)\<lparr>mpc := M_poll\<rparr>)"
| "main_step created M_poll s =
     Some (s\<lparr>mpc := if tq_exit_ack (twq s) \<noteq> 0 then M_join else M_lock\<rparr>)"
| "main_step created M_join s = (if wpc s = W_done then Some (s\<lparr>mpc := M_done\<rparr>) else None)"
| "main_step created M_done s = None"

text \<open>
  A job may be added when it is an object, not NULL, and not on its way already: between
  \<open>threadwq_add_job\<close> and its finish callback the library owns the node in it.
\<close>

fun in_hand :: "worker_pc \<Rightarrow> ptr list" where
  "in_hand (W_start j) = [j]"
| "in_hand (W_flush_start j) = [j]"
| "in_hand _ = []"

fun to_defer :: "worker_pc \<Rightarrow> ptr list" where
  "to_defer (W_defer j) = [j]"
| "to_defer (W_flush_defer j) = [j]"
| "to_defer _ = []"

fun adding :: "adder_pc \<Rightarrow> ptr list" where
  "adding (A_enqueue j) = [j]"
| "adding (A_put j) = [j]"
| "adding _ = []"

definition under_way :: "'q urcu \<Rightarrow> ('q \<Rightarrow> ptr list) \<Rightarrow> ('q, 'e) sys \<Rightarrow> ptr set" where
  "under_way U items s =
     {j. \<exists>i. j \<in> set (adding (apc s i))}
   \<union> {j. j + lfq_node_off U \<in> set (items (tq_lfq (twq s)))}
   \<union> set (in_hand (wpc s)) \<union> set (to_defer (wpc s))
   \<union> {j. j + rcu_head_off U \<in> set (deferred s)}"

text \<open>
  The steps of the program: \<open>spurious\<close> is the wake-up without a signal that POSIX allows, which
  occurs when \<open>sp\<close> says so,
  \<open>finish\<close> the library calling \<open>__exec_finish_rcu\<close>, \<open>call\<close> a thread calling
  \<open>threadwq_add_job\<close>. After \<open>BUG()\<close> nothing runs.
\<close>

inductive step :: "bool \<Rightarrow> 'q urcu \<Rightarrow> ('q \<Rightarrow> ptr list) \<Rightarrow> (ptr \<Rightarrow> 'e threadwq_job) \<Rightarrow> ptr
    \<Rightarrow> ('q, 'e) sys \<Rightarrow> ('q, 'e) sys \<Rightarrow> bool"
  for sp U items J self where
  worker: "worker_step U J self (wpc s) s = Some s' \<Longrightarrow> step sp U items J self s s'"
| adder: "wpc s \<noteq> W_abort \<Longrightarrow> adder_step U i (apc s i) s = Some s' \<Longrightarrow> step sp U items J self s s'"
| main: "wpc s \<noteq> W_abort \<Longrightarrow> main_step created (mpc s) s = Some s' \<Longrightarrow> step sp U items J self s s'"
| spurious: "sp \<Longrightarrow> wpc s = W_sleep \<Longrightarrow> step sp U items J self s (wake s)"
| finish: "wpc s \<noteq> W_abort \<Longrightarrow> deferred s = as @ head # bs \<Longrightarrow> job = head - rcu_head_off U
    \<Longrightarrow> step sp U items J self s (s\<lparr>env := cb_finish (J job) job (job_priv (J job)) (env s),
          deferred := as @ bs, finished := finished s @ [job]\<rparr>)"
| call: "wpc s \<noteq> W_abort \<Longrightarrow> apc s i = A_idle \<Longrightarrow> job \<noteq> NULL \<Longrightarrow> job + lfq_node_off U \<noteq> NULL
    \<Longrightarrow> job \<notin> under_way U items s \<Longrightarrow> step sp U items J self s (s\<lparr>apc := (apc s)(i := A_enqueue job)\<rparr>)"

inductive_cases stepE: "step sp U items J self s s'"

text \<open>A queue after \<open>threadwq_init\<close> and \<open>threadwq_set_ops\<close>\<close>

definition initial :: "'q urcu \<Rightarrow> ('q \<Rightarrow> ptr list) \<Rightarrow> ('q, 'e) sys \<Rightarrow> bool" where
  "initial U items s \<longleftrightarrow>
     (\<exists>t ops. worker_init ops \<noteq> None \<and> worker_exit ops \<noteq> None
        \<and> twq s = (snd (threadwq_init U t))\<lparr>tq_ops := ops\<rparr>)
   \<and> wpc s = W_none \<and> mpc s = M_create \<and> apc s = (\<lambda>_. A_idle)
   \<and> accepted s = [] \<and> started s = [] \<and> deferred s = [] \<and> finished s = []"


section \<open>Invariants\<close>

text \<open>Who is between taking and dropping the mutex\<close>

fun in_section :: "('q, 'e) sys \<Rightarrow> thread \<Rightarrow> bool" where
  "in_section s Worker \<longleftrightarrow> wpc s = W_wait \<or> wpc s = W_unlock"
| "in_section s Main \<longleftrightarrow> mpc s \<in> {M_count, M_broadcast, M_unlock}"
| "in_section s (Adder i) \<longleftrightarrow> (\<exists>j. apc s i = A_put j) \<or> apc s i = A_signal \<or> apc s i = A_unlock"

definition mutex_inv :: "('q, 'e) sys \<Rightarrow> bool" where
  "mutex_inv s \<longleftrightarrow> (\<forall>t. in_section s t \<longleftrightarrow> tq_mutex (twq s) = Some t)"

text \<open>The worker has left its loop; it has come on line; \<open>threadwq_exit\<close> has been called.\<close>

fun flushing :: "worker_pc \<Rightarrow> bool" where
  "flushing W_flush = True"
| "flushing (W_flush_start _) = True"
| "flushing (W_flush_defer _) = True"
| "flushing W_exit = True"
| "flushing W_ack = True"
| "flushing W_done = True"
| "flushing _ = False"

fun serving :: "worker_pc \<Rightarrow> bool" where
  "serving W_none = False"
| "serving W_new = False"
| "serving W_abort = False"
| "serving W_online = False"
| "serving _ = True"

fun stopping :: "main_pc \<Rightarrow> bool" where
  "stopping M_create = False"
| "stopping M_spin = False"
| "stopping M_ready = False"
| "stopping M_failed = False"
| "stopping _ = True"

definition phase_ok :: "worker_pc \<Rightarrow> main_pc \<Rightarrow> ('q, 'e) threadwq \<Rightarrow> bool" where
  "phase_ok w m t \<longleftrightarrow>
     (w = W_none \<longleftrightarrow> m = M_create \<or> m = M_failed)
   \<and> (tq_running t \<noteq> 0 \<longleftrightarrow> serving w)
   \<and> (m = M_ready \<or> stopping m \<longrightarrow> serving w)
   \<and> (tq_exit t \<noteq> 0 \<longrightarrow> stopping m)
   \<and> (flushing w \<longrightarrow> stopping m)
   \<and> (tq_exit_ack t \<noteq> 0 \<longleftrightarrow> w = W_done)
   \<and> (m = M_join \<or> m = M_done \<longrightarrow> w = W_done)
   \<and> (tq_waiter t \<longrightarrow> w = W_sleep)"

abbreviation phase_inv :: "('q, 'e) sys \<Rightarrow> bool" where
  "phase_inv s \<equiv> phase_ok (wpc s) (mpc s) (twq s)"

text \<open>What the adding threads are about to enqueue is not NULL, not queued and theirs alone.\<close>

definition calls_ok :: "'q urcu \<Rightarrow> ptr list \<Rightarrow> (nat \<Rightarrow> adder_pc) \<Rightarrow> bool" where
  "calls_ok U js a \<longleftrightarrow>
     (\<forall>i. \<forall>j \<in> set (adding (a i)). j \<noteq> NULL \<and> j + lfq_node_off U \<noteq> NULL \<and> j \<notin> set js)
   \<and> (\<forall>i k j. j \<in> set (adding (a i)) \<longrightarrow> j \<in> set (adding (a k)) \<longrightarrow> i = k)"

definition jobs_inv :: "'q urcu \<Rightarrow> ('q \<Rightarrow> ptr list) \<Rightarrow> ('q, 'e) sys \<Rightarrow> bool" where
  "jobs_inv U items s \<longleftrightarrow>
     (\<exists>js. holds_jobs U items (tq_lfq (twq s)) js
        \<and> accepted s = started s @ in_hand (wpc s) @ js \<and> calls_ok U js (apc s))
   \<and> mset (started s) = mset (to_defer (wpc s))
       + mset (map (\<lambda>h. h - rcu_head_off U) (deferred s)) + mset (finished s)"

definition twq_inv :: "'q urcu \<Rightarrow> ('q \<Rightarrow> ptr list) \<Rightarrow> ('q, 'e) sys \<Rightarrow> bool" where
  "twq_inv U items s \<longleftrightarrow> lfq_fifo U items \<and> mutex_inv s \<and> phase_inv s \<and> jobs_inv U items s"

lemmas thread_ops = take_mutex_def drop_mutex_def wake_def call_start_def call_rcu_def loop_stat_def Let_def

lemma all_threads: "(\<forall>t. P t) \<longleftrightarrow> P Worker \<and> P Main \<and> (\<forall>i. P (Adder i))"
  by (metis thread.exhaust)

text \<open>What a job taken off the queue does to the state\<close>

lemma take_job_cases:
  assumes "lfq_fifo U items" and "holds_jobs U items (tq_lfq (twq s)) js"
  obtains (none) q where "js = []" and "holds_jobs U items q []"
      and "take_job U w f s = s\<lparr>twq := (twq s)\<lparr>tq_lfq := q\<rparr>, wpc := w\<rparr>"
  | (some) q j js' where "js = j # js'" and "holds_jobs U items q js'"
      and "take_job U w f s = s\<lparr>twq := (twq s)\<lparr>tq_lfq := q\<rparr>, wpc := f j\<rparr>"
proof (cases js)
  case Nil
  then obtain q where "dequeue_one_job U (tq_lfq (twq s)) = (NULL, q)" "holds_jobs U items q []"
    using dequeue_empty[OF assms(1)] assms(2) by blast
  with Nil show ?thesis by (intro none) (auto simp: take_job_def)
next
  case (Cons j js')
  then obtain q where "dequeue_one_job U (tq_lfq (twq s)) = (j, q)" "holds_jobs U items q js'" "j \<noteq> NULL"
    using dequeue_Cons[OF assms(1)] assms(2) by blast
  with Cons show ?thesis by (intro some) (auto simp: take_job_def)
qed

lemma take_job_simps [simp]:
  "wpc (take_job U w f s) = (case dequeue_one_job U (tq_lfq (twq s)) of (j, q) \<Rightarrow> if j = NULL then w else f j)"
  "twq (take_job U w f s) = (twq s)\<lparr>tq_lfq := snd (dequeue_one_job U (tq_lfq (twq s)))\<rparr>"
  "mpc (take_job U w f s) = mpc s" "apc (take_job U w f s) = apc s"
  "accepted (take_job U w f s) = accepted s" "started (take_job U w f s) = started s"
  "deferred (take_job U w f s) = deferred s" "finished (take_job U w f s) = finished s"
  by (simp_all add: take_job_def split: prod.splits)

lemma loop_stat_simps [simp]:
  "wpc (loop_stat s) = wpc s" "mpc (loop_stat s) = mpc s" "apc (loop_stat s) = apc s"
  "accepted (loop_stat s) = accepted s" "started (loop_stat s) = started s"
  "deferred (loop_stat s) = deferred s" "finished (loop_stat s) = finished s"
  "tq_mutex (twq (loop_stat s)) = tq_mutex (twq s)" "tq_waiter (twq (loop_stat s)) = tq_waiter (twq s)"
  "tq_lfq (twq (loop_stat s)) = tq_lfq (twq s)" "tq_exit (twq (loop_stat s)) = tq_exit (twq s)"
  "tq_exit_ack (twq (loop_stat s)) = tq_exit_ack (twq s)"
  "tq_running (twq (loop_stat s)) = tq_running (twq s)" "tq_ops (twq (loop_stat s)) = tq_ops (twq s)"
  by (simp_all add: loop_stat_def Let_def)

subsection \<open>The mutex\<close>

lemma mutex_keep:
  assumes "mutex_inv s" and "tq_mutex (twq s') = tq_mutex (twq s)" and "in_section s' = in_section s"
  shows "mutex_inv s'"
  using assms by (simp add: mutex_inv_def)

lemma mutex_enter:
  assumes "mutex_inv s" and "tq_mutex (twq s) = None" and "tq_mutex (twq s') = Some t"
    and "in_section s' = (in_section s)(t := True)"
  shows "mutex_inv s'"
  using assms by (simp add: mutex_inv_def)

lemma mutex_leave:
  assumes "mutex_inv s" and "in_section s t" and "tq_mutex (twq s') = None"
    and "in_section s' = (in_section s)(t := False)"
  shows "mutex_inv s'"
  using assms by (simp add: mutex_inv_def)

lemma in_section_cong:
  assumes "\<And>t. t = Worker \<Longrightarrow> in_section s' Worker = b Worker"
    and "in_section s' Main = b Main" and "\<And>i. in_section s' (Adder i) = b (Adder i)"
  shows "in_section s' = b"
proof (rule ext)
  show "in_section s' t = b t" for t by (cases t) (use assms in auto)
qed

lemma worker_frame:
  assumes "worker_step U J self (wpc s) s = Some s'"
  shows "mpc s' = mpc s \<and> apc s' = apc s \<and> accepted s' = accepted s
    \<and> finished s' = finished s \<and> tq_exit (twq s') = tq_exit (twq s)"
  using assms
  by (cases "wpc s") (auto simp: thread_ops split: option.splits prod.splits if_splits)

lemma in_section_worker_frame:
  assumes "mpc s' = mpc s" and "apc s' = apc s"
  shows "in_section s' = (in_section s)(Worker := (wpc s' = W_wait \<or> wpc s' = W_unlock))"
  by (rule in_section_cong) (use assms in auto)

lemma worker_mutex:
  assumes "worker_step U J self (wpc s) s = Some s'" and inv: "mutex_inv s"
  shows "mutex_inv s'"
proof -
  have sec: "in_section s' = (in_section s)(Worker := (wpc s' = W_wait \<or> wpc s' = W_unlock))"
    using worker_frame[OF assms(1)] by (intro in_section_worker_frame) simp_all
  consider (enter) "wpc s \<in> {W_lock, W_sleep}" "tq_mutex (twq s) = None"
      "tq_mutex (twq s') = Some Worker" "wpc s' \<in> {W_wait, W_unlock}"
    | (leave) "wpc s \<in> {W_wait, W_unlock}" "tq_mutex (twq s') = None" "wpc s' \<notin> {W_wait, W_unlock}"
    | (keep) "wpc s \<notin> {W_wait, W_unlock}" "wpc s' \<notin> {W_wait, W_unlock}"
      "tq_mutex (twq s') = tq_mutex (twq s)"
    using assms(1)
    by (cases "wpc s") (auto simp: thread_ops split: option.splits prod.splits if_splits)
  then show ?thesis
  proof cases
    case enter
    then show ?thesis using sec by (intro mutex_enter[OF inv, where t = Worker]) auto
  next
    case leave
    then show ?thesis using sec by (intro mutex_leave[OF inv, where t = Worker]) auto
  next
    case keep
    have "in_section s Worker = False" using keep(1) by simp
    then show ?thesis
      using keep sec by (intro mutex_keep[OF inv]) (auto simp: fun_upd_idem)
  qed
qed


lemma adder_mutex:
  assumes "adder_step U i (apc s i) s = Some s'" and inv: "mutex_inv s"
  shows "mutex_inv s'"
proof (cases "apc s i")
  case A_lock
  then show ?thesis using assms(1)
    by (intro mutex_enter[OF inv, where t = "Adder i"] in_section_cong)
      (auto simp: thread_ops split: if_splits)
next
  case A_unlock
  then show ?thesis using assms(1)
    by (intro mutex_leave[OF inv, where t = "Adder i"] in_section_cong) (auto simp: thread_ops)
qed (use assms(1) in \<open>auto simp: thread_ops intro!: mutex_keep[OF inv] in_section_cong split: if_splits\<close>)

lemma main_mutex:
  assumes "main_step c (mpc s) s = Some s'" and inv: "mutex_inv s" and ph: "phase_inv s"
  shows "mutex_inv s'"
proof (cases "mpc s")
  case M_create
  then have "wpc s = W_none" using ph by (simp add: phase_ok_def)
  then show ?thesis using assms(1) M_create
    by (intro mutex_keep[OF inv] in_section_cong) (auto split: if_splits)
next
  case M_lock
  then show ?thesis using assms(1)
    by (intro mutex_enter[OF inv, where t = Main] in_section_cong)
      (auto simp: thread_ops split: if_splits)
next
  case M_unlock
  then show ?thesis using assms(1)
    by (intro mutex_leave[OF inv, where t = Main] in_section_cong) (auto simp: thread_ops)
qed (use assms(1) in \<open>auto simp: thread_ops split: if_splits intro!: mutex_keep[OF inv] in_section_cong\<close>)

subsection \<open>The phases\<close>

lemma phase_ok_cong:
  "tq_running t' = tq_running t \<Longrightarrow> tq_exit t' = tq_exit t \<Longrightarrow> tq_exit_ack t' = tq_exit_ack t
    \<Longrightarrow> tq_waiter t' = tq_waiter t \<Longrightarrow> phase_ok w m t' = phase_ok w m t"
  by (simp add: phase_ok_def)

lemma phase_ok_move:
  assumes "phase_ok w m t" and "serving w' = serving w" and "flushing w' \<longrightarrow> flushing w \<or> stopping m"
    and "w \<notin> {W_done, W_none, W_sleep}" and "w' \<notin> {W_done, W_none}"
  shows "phase_ok w' m t"
  using assms by (auto simp: phase_ok_def)

lemma phase_ok_mutex [simp]:
  "phase_ok w m (t\<lparr>tq_mutex := x\<rparr>) = phase_ok w m t"
  "phase_ok w m (t\<lparr>tq_lfq := q\<rparr>) = phase_ok w m t"
  "phase_ok w m (t\<lparr>tq_busy := c\<rparr>) = phase_ok w m t"
  by (simp_all add: phase_ok_def)

lemma adder_phase:
  assumes "adder_step U i (apc s i) s = Some s'" and "phase_inv s"
  shows "phase_inv s'"
proof (cases "apc s i")
  case A_signal
  then have "s' = (wake s)\<lparr>apc := (apc s)(i := A_unlock)\<rparr>" using assms(1) by simp
  then show ?thesis using assms(2) by (simp add: wake_def phase_ok_def)
qed (use assms in \<open>auto simp: thread_ops split: if_splits\<close>)

lemma phase_ok_steps:
  "phase_ok W_online m t \<Longrightarrow> phase_ok W_loop m (t\<lparr>tq_running := 1\<rparr>)"
  "phase_ok W_loop m t \<Longrightarrow> tq_exit t \<noteq> 0 \<Longrightarrow> phase_ok W_flush m t"
  "phase_ok W_wait m t \<Longrightarrow> phase_ok W_sleep m (t\<lparr>tq_mutex := None, tq_waiter := True\<rparr>)"
  "phase_ok W_sleep m t \<Longrightarrow> \<not> tq_waiter t \<Longrightarrow> phase_ok W_unlock m t"
  "phase_ok W_ack m t \<Longrightarrow> phase_ok W_done m (t\<lparr>tq_exit_ack := 1\<rparr>)"
  by (cases m; simp add: phase_ok_def)+

lemma phase_ok_main_steps:
  "phase_ok W_none M_create t \<Longrightarrow> phase_ok W_new M_spin t"
  "phase_ok w M_create t \<Longrightarrow> phase_ok w M_failed t"
  "phase_ok w M_spin t \<Longrightarrow> tq_running t \<noteq> 0 \<Longrightarrow> phase_ok w M_ready t"
  "phase_ok w M_ready t \<Longrightarrow> phase_ok w M_lock t"
  "phase_ok w M_lock t \<Longrightarrow> phase_ok w M_count t"
  "phase_ok w M_count t \<Longrightarrow> phase_ok w M_broadcast (t\<lparr>tq_exit := x\<rparr>)"
  "phase_ok w M_broadcast t \<Longrightarrow> phase_ok w M_unlock (t\<lparr>tq_waiter := False\<rparr>)"
  "phase_ok w M_unlock t \<Longrightarrow> phase_ok w M_poll t"
  "phase_ok w M_poll t \<Longrightarrow> tq_exit_ack t \<noteq> 0 \<Longrightarrow> phase_ok w M_join t"
  "phase_ok w M_poll t \<Longrightarrow> phase_ok w M_lock t"
  "phase_ok w M_join t \<Longrightarrow> phase_ok w M_done t"
  by (cases w; simp add: phase_ok_def)+

lemma worker_phase:
  assumes "worker_step U J self (wpc s) s = Some s'" and "phase_inv s"
  shows "phase_inv s'"
proof (cases "wpc s")
  case W_loop
  then show ?thesis
    using assms phase_ok_steps(2)[of "mpc s" "twq s"] phase_ok_move[of W_loop "mpc s" "twq s" W_take]
    by (auto simp: loop_stat_def Let_def split: if_splits)
next
  case W_sleep
  then show ?thesis
    using assms phase_ok_steps(4)[of "mpc s" "twq s"] by (auto simp: thread_ops split: if_splits)
qed (use assms phase_ok_steps in
  \<open>auto simp: thread_ops split: option.splits prod.splits if_splits elim!: phase_ok_move\<close>)

lemma main_phase:
  assumes "main_step c (mpc s) s = Some s'" and "phase_inv s"
  shows "phase_inv s'"
proof (cases "mpc s")
  case M_create
  then have "wpc s = W_none" using assms(2) by (simp add: phase_ok_def)
  then show ?thesis using assms M_create phase_ok_main_steps(1,2) by (auto split: if_splits)
qed (use assms phase_ok_main_steps in \<open>auto simp: thread_ops split: if_splits\<close>)

lemma wake_inv:
  assumes "wpc s = W_sleep" and "mutex_inv s" and "phase_inv s"
  shows "mutex_inv (wake s)" and "phase_inv (wake s)"
proof -
  show "mutex_inv (wake s)"
    by (rule mutex_keep[OF assms(2)]) (auto simp: wake_def intro!: in_section_cong)
  show "phase_inv (wake s)" using assms(1,3) by (simp add: wake_def phase_ok_def)
qed

subsection \<open>The jobs\<close>

lemma calls_ok_sub: "calls_ok U js a \<Longrightarrow> set js' \<subseteq> set js \<Longrightarrow> calls_ok U js' a"
  unfolding calls_ok_def by auto

lemma take_job_jobs:
  assumes fifo: "lfq_fifo U items" and inv: "jobs_inv U items s"
    and w: "in_hand (wpc s) = []" "to_defer (wpc s) = []" "in_hand w = []" "to_defer w = []"
    and f: "\<And>j. in_hand (f j) = [j]" "\<And>j. to_defer (f j) = []"
  shows "jobs_inv U items (take_job U w f s)"
proof -
  obtain js where js: "holds_jobs U items (tq_lfq (twq s)) js"
      "accepted s = started s @ js" "calls_ok U js (apc s)"
    using inv w by (auto simp: jobs_inv_def)
  show ?thesis
    using fifo js(1)
  proof (cases rule: take_job_cases[where w = w and f = f])
    case none
    with js w inv show ?thesis by (auto simp: jobs_inv_def elim: calls_ok_sub)
  next
    case (some q j js')
    moreover from some js(3) have "calls_ok U js' (apc s)"
      by (auto elim: calls_ok_sub)
    ultimately show ?thesis using js w f inv by (auto simp: jobs_inv_def)
  qed
qed

lemma worker_jobs:
  assumes "worker_step U J self (wpc s) s = Some s'" and "lfq_fifo U items" and inv: "jobs_inv U items s"
  shows "jobs_inv U items s'"
proof (cases "wpc s")
  case W_take
  then have "s' = take_job U W_lock W_start s" using assms(1) by simp
  then show ?thesis using W_take by (auto intro!: take_job_jobs assms)
next
  case W_next
  then have "s' = take_job U W_lock W_start s" using assms(1) by simp
  then show ?thesis using W_next by (auto intro!: take_job_jobs assms)
next
  case W_flush
  then have "s' = take_job U W_exit W_flush_start s" using assms(1) by simp
  then show ?thesis using W_flush by (auto intro!: take_job_jobs assms)
qed (use assms(1) inv in
  \<open>auto simp: jobs_inv_def thread_ops split: option.splits prod.splits if_splits\<close>)

lemma main_jobs:
  assumes "main_step c (mpc s) s = Some s'" and "phase_inv s" and inv: "jobs_inv U items s"
  shows "jobs_inv U items s'"
proof (cases "mpc s")
  case M_create
  then have "wpc s = W_none" using assms(2) by (simp add: phase_ok_def)
  then show ?thesis
    using assms(1) inv M_create
    by (auto simp: jobs_inv_def split: if_splits)
qed (use assms(1) inv in \<open>auto simp: jobs_inv_def thread_ops split: if_splits\<close>)

lemma calls_okD:
  assumes "calls_ok U js a" and "j \<in> set (adding (a i))"
  shows "j \<noteq> NULL" and "j + lfq_node_off U \<noteq> NULL" and "j \<notin> set js"
  using assms unfolding calls_ok_def by blast+

lemma calls_ok_put:
  assumes "calls_ok U js a" and "adding (a i) = [j]" and "adding p = []"
  shows "calls_ok U (js @ [j]) (a(i := p))"
  unfolding calls_ok_def
proof (intro conjI allI ballI impI)
  fix k l assume l: "l \<in> set (adding ((a(i := p)) k))"
  then have k: "k \<noteq> i" "l \<in> set (adding (a k))" using assms(3) by (auto split: if_splits)
  have "l \<noteq> j" using assms(1,2) k unfolding calls_ok_def by (metis list.set_intros(1))
  then show "l \<noteq> NULL" "l + lfq_node_off U \<noteq> NULL" "l \<notin> set (js @ [j])"
    using calls_okD[OF assms(1) k(2)] by simp_all
  fix k' assume "l \<in> set (adding ((a(i := p)) k'))"
  then have "l \<in> set (adding (a k'))" using assms(3) by (auto split: if_splits)
  then show "k = k'" using assms(1) k(2) unfolding calls_ok_def by blast
qed

lemma put_jobs:
  assumes fifo: "lfq_fifo U items" and inv: "jobs_inv U items s"
    and i: "adding (apc s i) = [j]" "adding p = []"
  shows "jobs_inv U items (s\<lparr>twq := (twq s)\<lparr>tq_lfq := lfq_enqueue U (j + lfq_node_off U) (tq_lfq (twq s))\<rparr>,
             accepted := accepted s @ [j], apc := (apc s)(i := p)\<rparr>)" (is "jobs_inv U items ?s")
proof -
  obtain js where js: "holds_jobs U items (tq_lfq (twq s)) js"
      "accepted s = started s @ in_hand (wpc s) @ js" "calls_ok U js (apc s)"
    using inv by (auto simp: jobs_inv_def)
  have "holds_jobs U items (tq_lfq (twq ?s)) (js @ [j])"
    using holds_jobs_enqueue[OF fifo js(1)] calls_okD[OF js(3), of j i] i by simp
  moreover have "calls_ok U (js @ [j]) (apc ?s)" using calls_ok_put[OF js(3) i] by simp
  ultimately show ?thesis using js(2) inv by (auto simp: jobs_inv_def)
qed

lemma adder_jobs:
  assumes "adder_step U i (apc s i) s = Some s'" and fifo: "lfq_fifo U items" and inv: "jobs_inv U items s"
  shows "jobs_inv U items s'"
proof (cases "apc s i")
  case (A_enqueue j)
  then show ?thesis using assms(1) put_jobs[OF fifo inv, of i j A_lock] by simp
next
  case (A_put j)
  then show ?thesis using assms(1) put_jobs[OF fifo inv, of i j A_signal] by simp
qed (use assms(1) inv in \<open>auto simp: jobs_inv_def calls_ok_def thread_ops split: if_splits\<close>)

lemma call_jobs:
  assumes inv: "jobs_inv U items s" and "apc s i = A_idle" and "job \<noteq> NULL"
    and "job + lfq_node_off U \<noteq> NULL" and "job \<notin> under_way U items s"
  shows "jobs_inv U items (s\<lparr>apc := (apc s)(i := A_enqueue job)\<rparr>)"
proof -
  obtain js where js: "holds_jobs U items (tq_lfq (twq s)) js"
      "accepted s = started s @ in_hand (wpc s) @ js" "calls_ok U js (apc s)"
    using inv by (auto simp: jobs_inv_def)
  have "job \<notin> set js" and "\<And>k. job \<notin> set (adding (apc s k))"
    using assms(5) js(1) by (auto simp: under_way_def holds_jobs_def)
  then have "calls_ok U js ((apc s)(i := A_enqueue job))"
    using js(3) assms(3,4) by (auto simp: calls_ok_def)
  then show ?thesis using js inv by (auto simp: jobs_inv_def)
qed

lemma finish_jobs:
  assumes inv: "jobs_inv U items s" and "deferred s = as @ head # bs" and "job = head - rcu_head_off U"
  shows "jobs_inv U items (s\<lparr>env := e, deferred := as @ bs, finished := finished s @ [job]\<rparr>)"
  using inv assms(2,3) by (auto simp: jobs_inv_def)


subsection \<open>All of it\<close>

lemma twq_inv_step:
  assumes "step sp U items J self s s'" and "twq_inv U items s"
  shows "twq_inv U items s'"
proof -
  have fifo: "lfq_fifo U items" and mx: "mutex_inv s" and ph: "phase_inv s" and jb: "jobs_inv U items s"
    using assms(2) by (auto simp: twq_inv_def)
  have "mutex_inv s' \<and> phase_inv s' \<and> jobs_inv U items s'"
    using assms(1)
  proof (rule stepE)
    assume "worker_step U J self (wpc s) s = Some s'"
    then show ?thesis using worker_mutex worker_phase worker_jobs fifo mx ph jb by blast
  next
    fix i assume "adder_step U i (apc s i) s = Some s'"
    then show ?thesis using adder_mutex adder_phase adder_jobs fifo mx ph jb by blast
  next
    fix c assume "main_step c (mpc s) s = Some s'"
    then show ?thesis using main_mutex main_phase main_jobs mx ph jb by blast
  next
    assume "wpc s = W_sleep" and s': "s' = wake s"
    moreover have "jobs_inv U items (wake s)" using jb by (auto simp: jobs_inv_def wake_def)
    ultimately show ?thesis using wake_inv mx ph by blast
  next
    fix as head bs
    let ?job = "head - rcu_head_off U"
    assume d: "deferred s = as @ head # bs"
      and s': "s' = s\<lparr>env := cb_finish (J ?job) ?job (job_priv (J ?job)) (env s),
        deferred := as @ bs, finished := finished s @ [?job]\<rparr>"
    have "jobs_inv U items s'" unfolding s' by (rule finish_jobs[OF jb d refl])
    moreover have "mutex_inv s'"
      unfolding s' by (rule mutex_keep[OF mx]) (auto intro!: in_section_cong)
    ultimately show ?thesis using ph s' by simp
  next
    fix i job
    assume c: "apc s i = A_idle" "job \<noteq> NULL" "job + lfq_node_off U \<noteq> NULL" "job \<notin> under_way U items s"
      and s': "s' = s\<lparr>apc := (apc s)(i := A_enqueue job)\<rparr>"
    have "jobs_inv U items s'" unfolding s' by (rule call_jobs[OF jb c])
    moreover have "mutex_inv s'"
      unfolding s' by (rule mutex_keep[OF mx]) (use c(1) in \<open>auto intro!: in_section_cong split: if_splits\<close>)
    ultimately show ?thesis using ph s' by simp
  qed
  then show ?thesis using fifo by (simp add: twq_inv_def)
qed

lemma twq_inv_initial:
  assumes "lfq_fifo U items" and "initial U items s"
  shows "twq_inv U items s"
proof -
  obtain t ops where t: "twq s = (snd (threadwq_init U t))\<lparr>tq_ops := ops\<rparr>"
    using assms(2) by (auto simp: initial_def)
  have "mutex_inv s"
    using assms(2) t by (auto simp: mutex_inv_def all_threads initial_def threadwq_init_def)
  moreover have "phase_inv s"
    using assms(2) t by (auto simp: phase_ok_def initial_def threadwq_init_def)
  moreover have "jobs_inv U items s"
    using assms(2) t holds_jobs_init[OF assms(1)]
    by (auto simp: jobs_inv_def calls_ok_def initial_def threadwq_init_def)
  ultimately show ?thesis using assms(1) by (simp add: twq_inv_def)
qed

interpretation worker_machine: machine_invariant
  "\<lambda>s. lfq_fifo U items \<and> initial U items s" "step sp U items J self" "twq_inv U items"
  for sp and U :: "'q urcu" and items and J :: "ptr \<Rightarrow> 'e threadwq_job" and self
  by unfold_locales (auto intro: twq_inv_initial twq_inv_step)

lemma reachable_twq_inv:
  assumes "lfq_fifo U items" and "initial U items s0" and "(step sp U items J self)\<^sup>*\<^sup>* s0 s"
  shows "twq_inv U items s"
  using worker_machine.reachable_inv assms by blast

section \<open>Nothing accepted is lost when the queue is stopped\<close>

definition flushed :: "worker_pc \<Rightarrow> bool" where
  "flushed w \<longleftrightarrow> w = W_exit \<or> w = W_ack \<or> w = W_done"

definition flush_inv :: "ptr list \<Rightarrow> ('q, 'e) sys \<Rightarrow> bool" where
  "flush_inv js s \<longleftrightarrow> prefix js (accepted s) \<and> (flushed (wpc s) \<longrightarrow> prefix js (started s))"

lemma flush_inv_worker:
  assumes "worker_step U J self (wpc s) s = Some s'" and inv: "twq_inv U items s" and fl: "flush_inv js s"
  shows "flush_inv js s'"
proof (cases "wpc s")
  case W_flush
  then have s': "s' = take_job U W_exit W_flush_start s" using assms(1) by simp
  obtain ks where ks: "holds_jobs U items (tq_lfq (twq s)) ks" "accepted s = started s @ ks"
    using inv W_flush by (auto simp: twq_inv_def jobs_inv_def)
  have "lfq_fifo U items" using inv by (simp add: twq_inv_def)
  from this ks(1) show ?thesis
  proof (cases rule: take_job_cases[where w = W_exit and f = W_flush_start])
    case none
    then show ?thesis using s' ks(2) fl by (simp add: flush_inv_def)
  next
    case (some q j ks')
    then show ?thesis using s' ks(2) fl by (simp add: flush_inv_def flushed_def)
  qed
qed (use assms(1) fl in \<open>auto simp: flush_inv_def flushed_def thread_ops split: option.splits prod.splits if_splits\<close>)

lemma flush_inv_step:
  assumes "step sp U items J self s s'" and inv: "twq_inv U items s" and fl: "flush_inv js s"
  shows "flush_inv js s'"
  using assms(1)
proof (rule stepE)
  assume "worker_step U J self (wpc s) s = Some s'"
  then show ?thesis using flush_inv_worker inv fl by blast
next
  fix i assume "adder_step U i (apc s i) s = Some s'"
  then show ?thesis using fl by (cases "apc s i") (auto simp: flush_inv_def thread_ops split: if_splits)
next
  fix c assume m: "main_step c (mpc s) s = Some s'"
  have "mpc s = M_create \<Longrightarrow> wpc s = W_none" using inv by (simp add: twq_inv_def phase_ok_def)
  then show ?thesis
    using m fl by (cases "mpc s") (auto simp: flush_inv_def flushed_def thread_ops split: if_splits)
qed (use fl in \<open>auto simp: flush_inv_def wake_def\<close>)

lemma flush_inv_steps:
  assumes "(step sp U items J self)\<^sup>*\<^sup>* s s'" and "twq_inv U items s" and "flush_inv js s"
  shows "twq_inv U items s' \<and> flush_inv js s'"
  using assms by (induction rule: rtranclp_induct) (auto intro: twq_inv_step flush_inv_step)


section \<open>A signal that comes too early\<close>

text \<open>
  The run up to the worker looking at the empty queue, then a whole \<open>threadwq_add_job\<close>, then
  the worker going to sleep.
\<close>

abbreviation steps :: "bool \<Rightarrow> 'q urcu \<Rightarrow> ('q \<Rightarrow> ptr list) \<Rightarrow> (ptr \<Rightarrow> 'e threadwq_job) \<Rightarrow> ptr
    \<Rightarrow> ('q, 'e) sys \<Rightarrow> ('q, 'e) sys \<Rightarrow> bool" where
  "steps sp U items J self \<equiv> (step sp U items J self)\<^sup>*\<^sup>*"

lemma steps_head: "step sp U items J self s t \<Longrightarrow> steps sp U items J self t u \<Longrightarrow> steps sp U items J self s u"
  by (rule converse_rtranclp_into_rtranclp)

lemma worker_steps: "worker_step U J self (wpc s) s = Some t \<Longrightarrow> steps sp U items J self t u \<Longrightarrow> steps sp U items J self s u"
  by (rule steps_head, rule step.worker)

lemma adder_steps:
  "wpc s \<noteq> W_abort \<Longrightarrow> adder_step U i (apc s i) s = Some t \<Longrightarrow> steps sp U items J self t u
    \<Longrightarrow> steps sp U items J self s u"
  by (rule steps_head, rule step.adder)

lemma main_steps:
  "wpc s \<noteq> W_abort \<Longrightarrow> main_step c (mpc s) s = Some t \<Longrightarrow> steps sp U items J self t u
    \<Longrightarrow> steps sp U items J self s u"
  by (rule steps_head, rule step.main)

definition init_succeeds :: "('q, 'e) sys \<Rightarrow> bool" where
  "init_succeeds s \<longleftrightarrow> (\<forall>f x y e. worker_init (tq_ops (twq s)) = Some f \<longrightarrow> fst (f x y e) = 0)"

text \<open>
  Worker and starting thread alone, up to the worker finding the queue empty; also for other
  step relations that contain these steps
\<close>

lemma run_to_empty_by:
  assumes fifo: "lfq_fifo U items" and init: "initial U items s0"
    and hook: "init_succeeds s0"
    and w: "\<And>s t. worker_step U J self (wpc s) s = Some t \<Longrightarrow> wpc s \<noteq> W_lock \<Longrightarrow> R s t"
    and m: "\<And>s t. wpc s \<noteq> W_abort \<Longrightarrow> main_step True (mpc s) s = Some t \<Longrightarrow> R s t"
  shows "\<exists>s. R\<^sup>*\<^sup>* s0 s \<and> wpc s = W_lock \<and> mpc s = M_ready
    \<and> apc s = (\<lambda>_. A_idle) \<and> tq_mutex (twq s) = None \<and> \<not> tq_waiter (twq s)
    \<and> holds_jobs U items (tq_lfq (twq s)) [] \<and> accepted s = [] \<and> started s = [] \<and> deferred s = []
    \<and> tq_exit (twq s) = 0"
proof -
  obtain t ops where twq0: "twq s0 = (snd (threadwq_init U t))\<lparr>tq_ops := ops\<rparr>" "worker_init ops \<noteq> None"
    using init by (auto simp: initial_def)
  note s0 = init[unfolded initial_def] twq0(1)[unfolded threadwq_init_def, simplified]
  obtain f where f: "worker_init ops = Some f" using twq0(2) by auto
  obtain e where e: "f self (worker_init_priv ops) (env s0) = (0, e)"
    using hook[unfolded init_succeeds_def, rule_format, of f self "worker_init_priv ops" "env s0"] f s0(2)
    by (cases "f self (worker_init_priv ops) (env s0)") auto
  obtain q where q: "dequeue_one_job U (tq_lfq (twq s0)) = (NULL, q)" "holds_jobs U items q []"
    using dequeue_empty[OF fifo holds_jobs_init[OF fifo]] s0(2) by auto
  let ?t = "(twq s0)\<lparr>tq_running := 1\<rparr>"
  let ?s1 = "s0\<lparr>wpc := W_new, mpc := M_spin\<rparr>"
  let ?s2 = "?s1\<lparr>env := e, wpc := W_online\<rparr>"
  let ?s3 = "?s2\<lparr>twq := ?t, cnt := 0, busy := 0, wpc := W_loop\<rparr>"
  let ?s4 = "?s3\<lparr>mpc := M_ready\<rparr>"
  let ?s5 = "?s4\<lparr>cnt := 1, wpc := W_take\<rparr>"
  let ?s = "?s5\<lparr>twq := ?t\<lparr>tq_lfq := q\<rparr>, wpc := W_lock\<rparr>"
  have "R s0 ?s1" by (rule m) (use s0 in simp_all)
  moreover have "R ?s1 ?s2" by (rule w) (use s0 f e in simp_all)
  moreover have "R ?s2 ?s3" by (rule w) (use s0 in simp_all)
  moreover have "R ?s3 ?s4" by (rule m) (use s0 in simp_all)
  moreover have "R ?s4 ?s5"
    by (rule w) (use s0 in \<open>simp_all add: loop_stat_def Let_def THREADWQ_STAT_PERIOD_def word_le_nat_alt\<close>)
  moreover have "R ?s5 ?s" by (rule w) (use q in \<open>simp_all add: take_job_def\<close>)
  ultimately have "R\<^sup>*\<^sup>* s0 ?s" by (meson converse_rtranclp_into_rtranclp rtranclp.rtrancl_refl)
  then show ?thesis using s0 q by (intro exI[of _ ?s]) simp
qed

lemma run_to_empty:
  assumes "lfq_fifo U items" and "initial U items s0" and "init_succeeds s0"
  shows "\<exists>s. steps sp U items J self s0 s \<and> wpc s = W_lock \<and> mpc s = M_ready
    \<and> apc s = (\<lambda>_. A_idle) \<and> tq_mutex (twq s) = None \<and> \<not> tq_waiter (twq s)
    \<and> holds_jobs U items (tq_lfq (twq s)) [] \<and> accepted s = [] \<and> started s = [] \<and> deferred s = []
    \<and> tq_exit (twq s) = 0"
  by (rule run_to_empty_by[OF assms]) (auto intro: step.worker step.main)

lemma add_then_sleep:
  assumes fifo: "lfq_fifo U items" and s: "wpc s = W_lock" "apc s = (\<lambda>_. A_idle)" "tq_mutex (twq s) = None"
    and q: "holds_jobs U items (tq_lfq (twq s)) []" and j: "job \<noteq> NULL" "job + lfq_node_off U \<noteq> NULL"
    and d: "deferred s = []"
  shows "\<exists>s'. steps sp U items J self s s' \<and> wpc s' = W_sleep \<and> tq_waiter (twq s')
    \<and> tq_mutex (twq s') = None \<and> apc s' = apc s \<and> mpc s' = mpc s
    \<and> holds_jobs U items (tq_lfq (twq s')) [job] \<and> accepted s' = accepted s @ [job]
    \<and> started s' = started s \<and> deferred s' = deferred s"
proof -
  let ?q = "lfq_enqueue U (job + lfq_node_off U) (tq_lfq (twq s))"
  let ?s1 = "s\<lparr>apc := (apc s)(0 := A_enqueue job)\<rparr>"
  let ?s2 = "?s1\<lparr>twq := (twq s)\<lparr>tq_lfq := ?q\<rparr>, accepted := accepted s @ [job], apc := (apc s)(0 := A_lock)\<rparr>"
  let ?s3 = "?s2\<lparr>twq := (twq s)\<lparr>tq_lfq := ?q, tq_mutex := Some (Adder 0)\<rparr>, apc := (apc s)(0 := A_signal)\<rparr>"
  let ?s4 = "?s3\<lparr>twq := (twq s)\<lparr>tq_lfq := ?q, tq_mutex := Some (Adder 0), tq_waiter := False\<rparr>, apc := (apc s)(0 := A_unlock)\<rparr>"
  let ?s5 = "?s4\<lparr>twq := (twq s)\<lparr>tq_lfq := ?q, tq_mutex := None, tq_waiter := False\<rparr>, apc := (apc s)(0 := A_idle)\<rparr>"
  let ?s6 = "?s5\<lparr>twq := (twq s)\<lparr>tq_lfq := ?q, tq_mutex := Some Worker, tq_waiter := False\<rparr>, wpc := W_wait\<rparr>"
  let ?e = "?s6\<lparr>twq := (twq s)\<lparr>tq_lfq := ?q, tq_mutex := None, tq_waiter := True\<rparr>, wpc := W_sleep\<rparr>"
  have call: "step sp U items J self s ?s1"
    using s q j d by (intro step.call) (auto simp: under_way_def holds_jobs_def)
  have idle: "(apc s)(0 := A_idle) = apc s" using s(2) by auto
  have "steps sp U items J self ?s6 ?e"
    by (rule worker_steps[where t = ?e]) simp_all
  then have "steps sp U items J self ?s5 ?e"
    by (rule worker_steps[where t = ?s6, rotated 1]) (simp_all add: s take_mutex_def)
  then have "steps sp U items J self ?s4 ?e"
    by (rule adder_steps[where i = 0 and t = ?s5, rotated 2]) (simp_all add: s drop_mutex_def)
  then have "steps sp U items J self ?s3 ?e"
    by (rule adder_steps[where i = 0 and t = ?s4, rotated 2]) (simp_all add: s wake_def)
  then have "steps sp U items J self ?s2 ?e"
    by (rule adder_steps[where i = 0 and t = ?s3, rotated 2]) (simp_all add: s take_mutex_def)
  then have "steps sp U items J self ?s1 ?e"
    by (rule adder_steps[where i = 0 and t = ?s2, rotated 2]) (simp_all add: s)
  then have "steps sp U items J self s ?e"
    by (rule steps_head[OF call])
  moreover have "holds_jobs U items ?q [job]"
    using holds_jobs_enqueue[OF fifo q _ j] by simp
  ultimately show ?thesis using s idle by (intro exI[of _ ?e]) simp
qed


section \<open>Properties\<close>

text \<open>C2: each job once, in order. In every state the program can reach, the jobs whose start
  callback has run are exactly the first accepted ones, in the order of \<open>threadwq_add_job\<close>; the
  others are still in the queue in that order (or the next one is in the worker's hand); and a job
  finishes at most once, after it was started.\<close>

theorem threadwq_fifo_exactly_once:
  assumes "lfq_fifo U items" and "initial U items s0" and "(step sp U items J self)\<^sup>*\<^sup>* s0 s"
  shows "\<exists>js. holds_jobs U items (tq_lfq (twq s)) js
    \<and> accepted s = started s @ in_hand (wpc s) @ js
    \<and> mset (started s) = mset (to_defer (wpc s))
        + mset (map (\<lambda>h. h - rcu_head_off U) (deferred s)) + mset (finished s)"
  using reachable_twq_inv[OF assms] by (auto simp: twq_inv_def jobs_inv_def)

text \<open>C35: the mutex. At most one thread is between taking and dropping the mutex, and the mutex is
  held exactly then. The worker does not hold it while it runs a job, nor while it sleeps, so
  \<open>pthread_mutex_trylock\<close>, by which \<open>rr4idle_add_job\<close> looks for an idle worker, cannot tell a busy
  worker from an idle one.\<close>

theorem threadwq_mutex_says_nothing_of_work:
  assumes "lfq_fifo U items" and "initial U items s0" and "(step sp U items J self)\<^sup>*\<^sup>* s0 s"
  shows "(in_section s a \<and> in_section s b \<longrightarrow> a = b)
    \<and> (tq_mutex (twq s) = None \<longleftrightarrow> (\<forall>a. \<not> in_section s a))
    \<and> (wpc s = W_sleep \<or> in_hand (wpc s) \<noteq> [] \<longrightarrow> tq_mutex (twq s) \<noteq> Some Worker)"
proof -
  have "mutex_inv s" using reachable_twq_inv[OF assms] by (simp add: twq_inv_def)
  then have m: "in_section s t \<longleftrightarrow> tq_mutex (twq s) = Some t" for t by (simp add: mutex_inv_def)
  have "\<not> in_section s Worker" if "wpc s = W_sleep \<or> in_hand (wpc s) \<noteq> []"
    using that by auto
  then have "wpc s = W_sleep \<or> in_hand (wpc s) \<noteq> [] \<longrightarrow> tq_mutex (twq s) \<noteq> Some Worker"
    using m[of Worker] by blast
  then show ?thesis by (auto simp: m)
qed

text \<open>C3: stopping flushes. When \<open>threadwq_exit\<close> has returned, the worker has ended, and every job
  accepted before \<open>threadwq_exit\<close> was called has been started.\<close>

theorem threadwq_exit_flushes:
  assumes "lfq_fifo U items" and "initial U items s0" and "(step sp U items J self)\<^sup>*\<^sup>* s0 s"
    and "mpc s \<in> {M_create, M_spin, M_ready}"
    and "(step sp U items J self)\<^sup>*\<^sup>* s s'" and "mpc s' = M_done"
  shows "wpc s' = W_done \<and> prefix (accepted s) (started s')"
proof -
  have inv: "twq_inv U items s" using reachable_twq_inv[OF assms(1-3)] .
  then have "phase_inv s" by (simp add: twq_inv_def)
  then have "\<not> flushing (wpc s)" using assms(4) unfolding phase_ok_def by auto
  then have "flush_inv (accepted s) s" by (auto simp: flush_inv_def flushed_def)
  then have "twq_inv U items s' \<and> flush_inv (accepted s) s'"
    using flush_inv_steps[OF assms(5) inv] by simp
  moreover from this have "wpc s' = W_done"
    using assms(6) by (simp add: twq_inv_def phase_ok_def)
  ultimately show ?thesis by (simp add: flush_inv_def flushed_def)
qed

text \<open>C17: a wake-up can be lost. From every start there is a run in which one \<open>threadwq_add_job\<close>
  signals between the worker's look at the empty queue and its wait: afterwards the job is
  in the queue, the worker sleeps, and without a spurious wake-up every further step is that
  another job is added or \<open>threadwq_exit\<close> is called.\<close>

theorem threadwq_wakeup_can_be_lost:
  assumes "lfq_fifo U items" and "initial U items s0" and "init_succeeds s0"
    and "job \<noteq> NULL" and "job + lfq_node_off U \<noteq> NULL"
  shows "\<exists>s. (step False U items J self)\<^sup>*\<^sup>* s0 s \<and> accepted s = [job] \<and> started s = []
    \<and> holds_jobs U items (tq_lfq (twq s)) [job] \<and> wpc s = W_sleep
    \<and> (\<forall>s'. step False U items J self s s'
        \<longrightarrow> s' = s\<lparr>mpc := M_lock\<rparr> \<or> (\<exists>i j. s' = s\<lparr>apc := (apc s)(i := A_enqueue j)\<rparr>))"
proof -
  obtain s1 where s1: "steps False U items J self s0 s1" "wpc s1 = W_lock" "mpc s1 = M_ready"
      "apc s1 = (\<lambda>_. A_idle)" "tq_mutex (twq s1) = None" "holds_jobs U items (tq_lfq (twq s1)) []"
      "accepted s1 = []" "started s1 = []" "deferred s1 = []" "tq_exit (twq s1) = 0"
    using run_to_empty[OF assms(1-3)] by blast
  obtain s2 where s2: "steps False U items J self s1 s2" "wpc s2 = W_sleep" "tq_waiter (twq s2)"
      "tq_mutex (twq s2) = None" "apc s2 = apc s1" "mpc s2 = mpc s1" "deferred s2 = deferred s1"
      "holds_jobs U items (tq_lfq (twq s2)) [job]" "accepted s2 = accepted s1 @ [job]"
      "started s2 = started s1"
    using add_then_sleep[OF assms(1) s1(2,4,5,6) assms(4,5) s1(9)] by blast
  have "s' = s2\<lparr>mpc := M_lock\<rparr> \<or> (\<exists>i j. s' = s2\<lparr>apc := (apc s2)(i := A_enqueue j)\<rparr>)"
    if "step False U items J self s2 s'" for s'
    using that by (rule stepE) (use s1 s2 in auto)
  moreover have "steps False U items J self s0 s2" using s1(1) s2(1) by (rule rtranclp_trans)
  ultimately show ?thesis using s1 s2 by (intro exI[of _ s2]) simp
qed


section \<open>Stopping can always finish\<close>

text \<open>How far the worker is from its end once \<open>exit\<close> is set, apart from the jobs in the queue\<close>

fun to_go :: "worker_pc \<Rightarrow> nat" where
  "to_go (W_start _) = 15" | "to_go (W_defer _) = 14" | "to_go W_take = 13" | "to_go W_next = 13"
| "to_go W_lock = 12" | "to_go W_wait = 11" | "to_go W_sleep = 10" | "to_go W_unlock = 9"
| "to_go W_loop = 8" | "to_go (W_flush_start _) = 7" | "to_go (W_flush_defer _) = 6"
| "to_go W_flush = 5" | "to_go W_exit = 4" | "to_go W_ack = 3" | "to_go _ = 0"

definition work_left :: "('q \<Rightarrow> ptr list) \<Rightarrow> ('q, 'e) sys \<Rightarrow> nat" where
  "work_left items s = 20 * length (items (tq_lfq (twq s))) + to_go (wpc s)"

definition parked :: "('q, 'e) sys \<Rightarrow> bool" where
  "parked s \<longleftrightarrow> wpc s = W_done \<or> wpc s = W_sleep \<and> tq_waiter (twq s)"

definition awake_late :: "('q, 'e) sys \<Rightarrow> bool" where
  "awake_late s \<longleftrightarrow> to_go (wpc s) \<le> 10 \<and> (wpc s = W_sleep \<longrightarrow> \<not> tq_waiter (twq s))"

text \<open>The worker may run: \<open>exit\<close> is set, and no other thread has the mutex.\<close>

definition may_run :: "'q urcu \<Rightarrow> ('q \<Rightarrow> ptr list) \<Rightarrow> ('q, 'e) sys \<Rightarrow> bool" where
  "may_run U items s \<longleftrightarrow> twq_inv U items s \<and> serving (wpc s) \<and> tq_exit (twq s) \<noteq> 0
     \<and> (tq_mutex (twq s) = None \<or> tq_mutex (twq s) = Some Worker)"

lemma worker_ready:
  assumes "may_run U items s" and "\<not> parked s"
  obtains s' where "worker_step U J self (wpc s) s = Some s'"
proof -
  have "mutex_inv s" using assms(1) by (simp add: may_run_def twq_inv_def)
  then have "in_section s Worker \<longleftrightarrow> tq_mutex (twq s) = Some Worker" unfolding mutex_inv_def by blast
  note sec = this
  show ?thesis
  proof (cases "wpc s")
    case W_exit
    then show ?thesis using that by (cases "worker_exit (tq_ops (twq s))") auto
  qed (use sec assms that in \<open>auto simp: may_run_def parked_def take_mutex_def split: if_splits\<close>)
qed

lemma take_job_left:
  assumes "lfq_fifo U items" and "jobs_inv U items s"
    and "to_go w < to_go (wpc s)" and "\<And>j. to_go (f j) < to_go (wpc s) + 20"
  shows "work_left items (take_job U w f s) < work_left items s"
proof -
  obtain js where js: "holds_jobs U items (tq_lfq (twq s)) js"
    using assms(2) by (auto simp: jobs_inv_def)
  from assms(1) js show ?thesis
  proof (cases rule: take_job_cases[where w = w and f = f])
    case none
    then show ?thesis using js assms(3) by (simp add: work_left_def holds_jobs_def)
  next
    case (some q j js')
    then show ?thesis using js assms(4)[of j] by (simp add: work_left_def holds_jobs_def)
  qed
qed

lemma worker_left:
  assumes run: "may_run U items s" and st: "worker_step U J self (wpc s) s = Some s'"
  shows "work_left items s' < work_left items s"
proof -
  have fifo: "lfq_fifo U items" and jb: "jobs_inv U items s"
    using run by (auto simp: may_run_def twq_inv_def)
  show ?thesis
  proof (cases "wpc s")
    case W_take
    then show ?thesis using st by (auto intro!: take_job_left[OF fifo jb])
  next
    case W_next
    then show ?thesis using st by (auto intro!: take_job_left[OF fifo jb])
  next
    case W_flush
    then show ?thesis using st by (auto intro!: take_job_left[OF fifo jb])
  qed (use st run in \<open>auto simp: may_run_def work_left_def thread_ops split: option.splits prod.splits if_splits\<close>)
qed

lemma worker_runs_on:
  assumes run: "may_run U items s" and st: "worker_step U J self (wpc s) s = Some s'"
  shows "may_run U items s'" and "awake_late s \<Longrightarrow> awake_late s'" and "mpc s' = mpc s"
proof -
  have exit: "tq_exit (twq s) \<noteq> 0" using run by (simp add: may_run_def)
  show "may_run U items s'"
    using run st twq_inv_step[OF step.worker[OF st]] worker_frame[OF st]
    by (cases "wpc s") (auto simp: may_run_def thread_ops split: option.splits prod.splits if_splits)
  show "awake_late s'" if "awake_late s"
    using that st exit
    by (cases "wpc s") (auto simp: awake_late_def thread_ops split: option.splits prod.splits if_splits)
  show "mpc s' = mpc s" using worker_frame[OF st] by simp
qed

lemma worker_parks:
  assumes "may_run U items s"
  shows "\<exists>s'. steps sp U items J self s s' \<and> may_run U items s' \<and> parked s' \<and> mpc s' = mpc s
    \<and> (awake_late s \<longrightarrow> wpc s' = W_done)"
  using assms
proof (induction "work_left items s" arbitrary: s rule: less_induct)
  case less
  show ?case
  proof (cases "parked s")
    case True
    then have "awake_late s \<longrightarrow> wpc s = W_done" by (auto simp: parked_def awake_late_def)
    then show ?thesis using less.prems True by blast
  next
    case False
    obtain t where t: "worker_step U J self (wpc s) s = Some t"
      using worker_ready[OF less.prems False] by blast
    note on = worker_runs_on[OF less.prems t]
    obtain s' where "steps sp U items J self t s'" "may_run U items s'" "parked s'" "mpc s' = mpc t"
        "awake_late t \<longrightarrow> wpc s' = W_done"
      using less.hyps[OF worker_left[OF less.prems t] on(1)] by blast
    then show ?thesis using worker_steps[OF t] on(2,3) by metis
  qed
qed


text \<open>Whoever has the mutex gives it back by its own steps.\<close>

definition returned :: "('q, 'e) sys \<Rightarrow> bool" where
  "returned s \<longleftrightarrow> tq_mutex (twq s) = None \<and> mpc s \<in> {M_lock, M_poll, M_join, M_done}"

lemma worker_returns:
  assumes "wpc s = W_wait \<or> wpc s = W_unlock" and "mpc s \<in> {M_lock, M_poll, M_join, M_done}"
  shows "\<exists>s'. steps sp U items J self s s' \<and> returned s'"
proof -
  obtain s' where s': "worker_step U J self (wpc s) s = Some s'" "tq_mutex (twq s') = None"
    using assms(1) by (auto simp: drop_mutex_def)
  have "mpc s' = mpc s" using worker_frame[OF s'(1)] by simp
  then have "returned s'" using s'(2) assms(2) by (simp add: returned_def)
  then show ?thesis using worker_steps[OF s'(1)] by blast
qed

lemma adder_returns:
  assumes "in_section s (Adder i)" and "mpc s \<in> {M_lock, M_poll, M_join, M_done}"
    and ab: "wpc s \<noteq> W_abort"
  shows "\<exists>s'. steps sp U items J self s s' \<and> returned s'"
proof -
  have drop: "\<exists>s'. steps sp U items J self v s' \<and> returned s'"
    if v: "apc v i = A_unlock" "wpc v \<noteq> W_abort" "mpc v = mpc s" for v :: "('a, 'b) sys"
  proof -
    let ?v = "(drop_mutex v)\<lparr>apc := (apc v)(i := A_idle)\<rparr>"
    have "adder_step U i (apc v i) v = Some ?v" using v by simp
    moreover have "returned ?v" using v assms(2) by (simp add: returned_def drop_mutex_def)
    ultimately show ?thesis using adder_steps[OF v(2)] by blast
  qed
  have signal: "\<exists>s'. steps sp U items J self v s' \<and> returned s'"
    if v: "apc v i = A_signal" "wpc v \<noteq> W_abort" "mpc v = mpc s" for v :: "('a, 'b) sys"
  proof -
    let ?u = "(wake v)\<lparr>apc := (apc v)(i := A_unlock)\<rparr>"
    have "adder_step U i (apc v i) v = Some ?u" using v by simp
    moreover have "\<exists>s'. steps sp U items J self ?u s' \<and> returned s'"
      by (rule drop) (use v in \<open>simp_all add: wake_def\<close>)
    ultimately show ?thesis using adder_steps[OF v(2)] by blast
  qed
  consider (put) j where "apc s i = A_put j" | "apc s i = A_signal" | "apc s i = A_unlock"
    using assms(1) by auto
  then show ?thesis
  proof cases
    case put
    let ?u = "s\<lparr>twq := (twq s)\<lparr>tq_lfq := lfq_enqueue U (j + lfq_node_off U) (tq_lfq (twq s))\<rparr>,
             accepted := accepted s @ [j], apc := (apc s)(i := A_signal)\<rparr>"
    have "adder_step U i (apc s i) s = Some ?u" using put by simp
    moreover have "\<exists>s'. steps sp U items J self ?u s' \<and> returned s'"
      by (rule signal) (use ab in simp_all)
    ultimately show ?thesis using adder_steps[OF ab] by blast
  qed (use drop[of s] signal[of s] ab in blast)+
qed

text \<open>Main steps from \<open>M_count\<close> to \<open>M_poll\<close>\<close>

lemma main_returns:
  assumes "mpc s \<in> {M_count, M_broadcast, M_unlock}" and ab: "wpc s \<noteq> W_abort"
  shows "\<exists>s'. steps sp U items J self s s' \<and> returned s'"
proof -
  have unlock: "\<exists>s'. steps sp U items J self v s' \<and> returned s'"
    if v: "mpc v = M_unlock" "wpc v \<noteq> W_abort" for v :: "('a, 'b) sys"
  proof -
    let ?v = "(drop_mutex v)\<lparr>mpc := M_poll\<rparr>"
    have "main_step True (mpc v) v = Some ?v" using v by simp
    moreover have "returned ?v" by (simp add: returned_def drop_mutex_def)
    ultimately show ?thesis using main_steps[OF v(2)] by blast
  qed
  have broadcast: "\<exists>s'. steps sp U items J self v s' \<and> returned s'"
    if v: "mpc v = M_broadcast" "wpc v \<noteq> W_abort" for v :: "('a, 'b) sys"
  proof -
    let ?v = "(wake v)\<lparr>mpc := M_unlock\<rparr>"
    have "main_step True (mpc v) v = Some ?v" using v by simp
    moreover have "\<exists>s'. steps sp U items J self ?v s' \<and> returned s'"
      by (rule unlock) (use v in \<open>simp_all add: wake_def\<close>)
    ultimately show ?thesis using main_steps[OF v(2)] by blast
  qed
  consider "mpc s = M_count" | "mpc s = M_broadcast" | "mpc s = M_unlock" using assms(1) by blast
  then show ?thesis
  proof cases
    case 1
    let ?v = "s\<lparr>twq := (twq s)\<lparr>tq_exit := tq_exit (twq s) + 1\<rparr>, mpc := M_broadcast\<rparr>"
    have "main_step True (mpc s) s = Some ?v" using 1 by simp
    moreover have "\<exists>s'. steps sp U items J self ?v s' \<and> returned s'"
      by (rule broadcast) (use ab in simp_all)
    ultimately show ?thesis using main_steps[OF ab] by blast
  qed (use ab unlock broadcast in blast)+
qed

lemma mutex_comes_free:
  assumes inv: "twq_inv U items s" and stop: "stopping (mpc s)"
  shows "\<exists>s'. steps sp U items J self s s' \<and> returned s'"
proof -
  have sec: "in_section s t \<longleftrightarrow> tq_mutex (twq s) = Some t" for t
    using inv by (simp add: twq_inv_def mutex_inv_def)
  have "serving (wpc s)" using inv stop by (simp add: twq_inv_def phase_ok_def)
  then have ab: "wpc s \<noteq> W_abort" by auto
  have out: "mpc s \<in> {M_lock, M_poll, M_join, M_done}" if "tq_mutex (twq s) \<noteq> Some Main"
    using that stop sec[of Main] by (cases "mpc s") auto
  show ?thesis
  proof (cases "tq_mutex (twq s)")
    case None
    then have "returned s" using out by (simp add: returned_def)
    then show ?thesis by blast
  next
    case (Some t)
    then show ?thesis
    proof (cases t)
      case Worker
      then show ?thesis using worker_returns[of s] out Some sec[of Worker] by simp
    next
      case (Adder i)
      then show ?thesis using adder_returns[of s i] out Some sec[of "Adder i"] ab by simp
    next
      case Main
      then show ?thesis using main_returns[of s] Some sec[of Main] ab by simp
    qed
  qed
qed


lemma steps_trans: "steps sp U items J self s t \<Longrightarrow> steps sp U items J self t u \<Longrightarrow> steps sp U items J self s u"
  by (rule rtranclp_trans)

text \<open>A whole round of \<open>kill_online_worker\<close>\<close>

abbreviation after_round :: "('q, 'e) sys \<Rightarrow> ('q, 'e) sys" where
  "after_round s \<equiv> s\<lparr>twq := (twq s)\<lparr>tq_exit := tq_exit (twq s) + 1, tq_waiter := False, tq_mutex := None\<rparr>,
     mpc := M_poll\<rparr>"

lemma kill_round:
  assumes "mpc s = M_lock" and "tq_mutex (twq s) = None" and "wpc s \<noteq> W_abort"
  shows "steps sp U items J self s (after_round s)"
proof -
  let ?s1 = "s\<lparr>twq := (twq s)\<lparr>tq_mutex := Some Main\<rparr>, mpc := M_count\<rparr>"
  let ?s2 = "?s1\<lparr>twq := (twq s)\<lparr>tq_mutex := Some Main, tq_exit := tq_exit (twq s) + 1\<rparr>, mpc := M_broadcast\<rparr>"
  let ?s3 = "?s2\<lparr>twq := (twq s)\<lparr>tq_mutex := Some Main, tq_exit := tq_exit (twq s) + 1, tq_waiter := False\<rparr>,
     mpc := M_unlock\<rparr>"
  have "steps sp U items J self ?s3 (after_round s)"
    by (rule main_steps[where c = True and t = "after_round s"]) (use assms in \<open>simp_all add: drop_mutex_def\<close>)
  then have "steps sp U items J self ?s2 (after_round s)"
    by (rule main_steps[where c = True and t = ?s3, rotated 2]) (use assms in \<open>simp_all add: wake_def\<close>)
  then have "steps sp U items J self ?s1 (after_round s)"
    by (rule main_steps[where c = True and t = ?s2, rotated 2]) (use assms in simp_all)
  then show ?thesis
    by (rule main_steps[where c = True and t = ?s1, rotated 2]) (use assms in \<open>simp_all add: take_mutex_def\<close>)
qed

text \<open>\<open>signalled\<close>: main polls, \<open>exit\<close> is set and nobody waits.\<close>

definition signalled :: "('q, 'e) sys \<Rightarrow> bool" where
  "signalled s \<longleftrightarrow> mpc s = M_poll \<and> tq_exit (twq s) \<noteq> 0 \<and> \<not> tq_waiter (twq s) \<and> tq_mutex (twq s) = None"

lemma poll_again:
  assumes "mpc s = M_poll" and "tq_exit_ack (twq s) = 0" and "wpc s \<noteq> W_abort"
  shows "steps sp U items J self s (s\<lparr>mpc := M_lock\<rparr>)"
  by (rule main_steps[where c = True and t = "s\<lparr>mpc := M_lock\<rparr>"]) (use assms in simp_all)

text \<open>When \<open>exit\<close> wraps to 0 a second round sets it again.\<close>

lemma signal_from_lock:
  assumes "mpc s = M_lock" and "tq_mutex (twq s) = None" and "wpc s \<noteq> W_abort" and "tq_exit_ack (twq s) = 0"
  shows "\<exists>s'. steps sp U items J self s s' \<and> signalled s' \<and> wpc s' = wpc s"
proof (cases "tq_exit (twq s) + 1 = 0")
  case False
  then have "signalled (after_round s)" by (simp add: signalled_def)
  moreover have "wpc (after_round s) = wpc s" by simp
  ultimately show ?thesis using kill_round[OF assms(1-3)] by blast
next
  case True
  let ?s1 = "(after_round s)\<lparr>mpc := M_lock\<rparr>"
  have "steps sp U items J self s (after_round s)" using kill_round[OF assms(1-3)] .
  moreover have "steps sp U items J self (after_round s) ?s1" by (rule poll_again) (use assms in simp_all)
  moreover have "steps sp U items J self ?s1 (after_round ?s1)" by (rule kill_round) (use assms in simp_all)
  ultimately have "steps sp U items J self s (after_round ?s1)" using steps_trans by blast
  moreover have "signalled (after_round ?s1)" using True by (simp add: signalled_def)
  moreover have "wpc (after_round ?s1) = wpc s" by simp
  ultimately show ?thesis by blast
qed

lemma signal:
  assumes "mpc s = M_lock \<or> mpc s = M_poll" and "tq_mutex (twq s) = None" and "wpc s \<noteq> W_abort"
    and "tq_exit_ack (twq s) = 0"
  shows "\<exists>s'. steps sp U items J self s s' \<and> signalled s' \<and> wpc s' = wpc s"
proof (cases "mpc s = M_lock")
  case True
  then show ?thesis using signal_from_lock assms(2-4) by blast
next
  case False
  then have "steps sp U items J self s (s\<lparr>mpc := M_lock\<rparr>)" using assms poll_again by blast
  moreover have "\<exists>s'. steps sp U items J self (s\<lparr>mpc := M_lock\<rparr>) s' \<and> signalled s' \<and> wpc s' = wpc (s\<lparr>mpc := M_lock\<rparr>)"
    by (rule signal_from_lock) (use assms in simp_all)
  ultimately show ?thesis using steps_trans by fastforce
qed

lemma join_when_done:
  assumes inv: "twq_inv U items s" and "mpc s \<in> {M_lock, M_poll, M_join, M_done}"
    and "wpc s = W_done" and "tq_mutex (twq s) = None"
  shows "\<exists>s'. steps sp U items J self s s' \<and> mpc s' = M_done"
proof -
  have ack: "tq_exit_ack (twq s) \<noteq> 0" using assms by (simp add: twq_inv_def phase_ok_def)
  have join: "steps sp U items J self v (v\<lparr>mpc := M_done\<rparr>)" if "mpc v = M_join" "wpc v = W_done" for v :: "('a, 'b) sys"
    by (rule main_steps[where c = True and t = "v\<lparr>mpc := M_done\<rparr>"]) (use that in simp_all)
  have poll: "steps sp U items J self v (v\<lparr>mpc := M_done\<rparr>)"
    if "mpc v = M_poll" "wpc v = W_done" "tq_exit_ack (twq v) \<noteq> 0" for v :: "('a, 'b) sys"
    by (rule main_steps[where c = True and t = "v\<lparr>mpc := M_join\<rparr>"])
      (use that join[of "v\<lparr>mpc := M_join\<rparr>"] in simp_all)
  consider "mpc s = M_lock" | "mpc s = M_poll" | "mpc s = M_join" | "mpc s = M_done" using assms(2) by blast
  then show ?thesis
  proof cases
    case 1
    have "steps sp U items J self s (after_round s)" using 1 assms by (intro kill_round) simp_all
    moreover have "steps sp U items J self (after_round s) ((after_round s)\<lparr>mpc := M_done\<rparr>)"
      using assms ack by (intro poll) simp_all
    ultimately have "steps sp U items J self s ((after_round s)\<lparr>mpc := M_done\<rparr>)" by (rule steps_trans)
    then show ?thesis by (intro exI[of _ "(after_round s)\<lparr>mpc := M_done\<rparr>"]) simp
  next
    case 2
    have "steps sp U items J self s (s\<lparr>mpc := M_done\<rparr>)" by (rule poll) (use 2 assms ack in simp_all)
    then show ?thesis by (intro exI[of _ "s\<lparr>mpc := M_done\<rparr>"]) simp
  next
    case 3
    have "steps sp U items J self s (s\<lparr>mpc := M_done\<rparr>)" by (rule join) (use 3 assms in simp_all)
    then show ?thesis by (intro exI[of _ "s\<lparr>mpc := M_done\<rparr>"]) simp
  qed blast
qed

lemma steps_twq_inv: "steps sp U items J self s s' \<Longrightarrow> twq_inv U items s \<Longrightarrow> twq_inv U items s'"
  by (rule worker_machine.steps_inv)

lemma signalled_parks:
  assumes inv: "twq_inv U items s" and sig: "signalled s"
  shows "\<exists>s'. steps sp U items J self s s' \<and> twq_inv U items s' \<and> mpc s' = M_poll \<and> parked s'
    \<and> tq_mutex (twq s') = None \<and> (wpc s = W_sleep \<longrightarrow> wpc s' = W_done)"
proof -
  have "serving (wpc s)" using inv sig by (simp add: twq_inv_def phase_ok_def signalled_def)
  then have run: "may_run U items s" using inv sig by (simp add: may_run_def signalled_def)
  obtain s' where s': "steps sp U items J self s s'" "may_run U items s'" "parked s'" "mpc s' = mpc s"
      "awake_late s \<longrightarrow> wpc s' = W_done"
    using worker_parks[OF run] by blast
  have "\<not> in_section s' Worker" using s'(3) by (auto simp: parked_def)
  moreover have "in_section s' Worker \<longleftrightarrow> tq_mutex (twq s') = Some Worker"
    using s'(2) unfolding may_run_def twq_inv_def mutex_inv_def by blast
  ultimately have "tq_mutex (twq s') = None" using s'(2) by (simp add: may_run_def)
  moreover have "wpc s = W_sleep \<longrightarrow> awake_late s" using sig by (simp add: awake_late_def signalled_def)
  moreover have "mpc s' = M_poll" using s'(4) sig by (simp add: signalled_def)
  ultimately show ?thesis using s' by (intro exI[of _ s']) (simp add: may_run_def)
qed


lemma exit_can_finish:
  assumes inv: "twq_inv U items s" and stop: "stopping (mpc s)"
  shows "\<exists>s'. steps sp U items J self s s' \<and> mpc s' = M_done"
proof -
  have finish: "\<exists>s'. steps sp U items J self v s' \<and> mpc s' = M_done"
    if v: "twq_inv U items v" "returned v" "wpc v = W_done" for v :: "('a, 'b) sys"
    using join_when_done[OF v(1) _ v(3)] v(2) by (simp add: returned_def)
  have round: "\<exists>s'. steps sp U items J self v s' \<and> twq_inv U items s' \<and> returned s' \<and> parked s'
      \<and> (wpc v = W_sleep \<longrightarrow> wpc s' = W_done)"
    if v: "twq_inv U items v" "returned v" "wpc v \<noteq> W_done" for v :: "('a, 'b) sys"
  proof -
    have m: "mpc v = M_lock \<or> mpc v = M_poll" "tq_exit_ack (twq v) = 0" "wpc v \<noteq> W_abort"
      "tq_mutex (twq v) = None"
      using v by (auto simp: returned_def twq_inv_def phase_ok_def)
    obtain u where u: "steps sp U items J self v u" "signalled u" "wpc u = wpc v"
      using signal[OF m(1,4,3,2)] by blast
    obtain s' where "steps sp U items J self u s'" "twq_inv U items s'" "mpc s' = M_poll" "parked s'"
        "tq_mutex (twq s') = None" "wpc u = W_sleep \<longrightarrow> wpc s' = W_done"
      using signalled_parks[OF steps_twq_inv[OF u(1) v(1)] u(2)] by blast
    then show ?thesis using steps_trans[OF u(1)] u(3) by (auto simp: returned_def)
  qed
  obtain s1 where s1: "steps sp U items J self s s1" "returned s1"
    using mutex_comes_free[OF assms] by blast
  note inv1 = steps_twq_inv[OF s1(1) inv]
  have "\<exists>s'. steps sp U items J self s1 s' \<and> mpc s' = M_done"
  proof (cases "wpc s1 = W_done")
    case False
    obtain s2 where s2: "steps sp U items J self s1 s2" "twq_inv U items s2" "returned s2" "parked s2"
      using round[OF inv1 s1(2) False] by blast
    have "\<exists>s'. steps sp U items J self s2 s' \<and> mpc s' = M_done"
    proof (cases "wpc s2 = W_done")
      case False
      then have "wpc s2 = W_sleep" using s2(4) by (simp add: parked_def)
      then obtain s3 where "steps sp U items J self s2 s3" "twq_inv U items s3" "returned s3" "wpc s3 = W_done"
        using round[OF s2(2,3) False] by blast
      then show ?thesis using finish steps_trans by blast
    qed (use finish s2 in blast)
    then show ?thesis using steps_trans[OF s2(1)] by blast
  qed (use finish inv1 s1 in blast)
  then show ?thesis using steps_trans[OF s1(1)] by blast
qed

text \<open>C11: stopping can always finish. Wherever the threads are once \<open>threadwq_exit\<close> has been called,
  there is a way on to its return that needs no spurious wake-up: no interleaving runs into a
  deadlock, also when the worker sleeps or \<open>exit\<close> wraps around to 0.\<close>

theorem threadwq_exit_can_finish:
  assumes "lfq_fifo U items" and "initial U items s0" and "(step sp U items J self)\<^sup>*\<^sup>* s0 s"
    and "stopping (mpc s)"
  shows "\<exists>s'. (step False U items J self)\<^sup>*\<^sup>* s s' \<and> mpc s' = M_done \<and> wpc s' = W_done"
proof -
  have inv: "twq_inv U items s" using reachable_twq_inv[OF assms(1-3)] .
  obtain s' where s': "steps False U items J self s s'" "mpc s' = M_done"
    using exit_can_finish[OF inv assms(4)] by blast
  have "wpc s' = W_done" using steps_twq_inv[OF s'(1) inv] s'(2) by (simp add: twq_inv_def phase_ok_def)
  then show ?thesis using s' by blast
qed


section \<open>A concrete program\<close>

definition demo_ops :: "string threadwq_ops" where
  "demo_ops = THREQDWQ_OPS_INITIALIZER (Some (\<lambda>self priv e. (0, e @ ''i''))) NULL
     (Some (\<lambda>self priv e. e @ ''x'')) NULL"

definition demo_sys :: "(ptr list, string) sys" where
  "demo_sys = \<lparr>twq = (snd (threadwq_init list_urcu demo_twq))\<lparr>tq_ops := demo_ops\<rparr>,
     wpc = W_none, mpc = M_create, apc = (\<lambda>_. A_idle), cnt = 0, busy = 0, env = '''',
     accepted = [], started = [], deferred = [], finished = []\<rparr>"

abbreviation demo_steps :: "(ptr list, string) sys \<Rightarrow> (ptr list, string) sys \<Rightarrow> bool" where
  "demo_steps \<equiv> steps False list_urcu (\<lambda>q. q) (\<lambda>_. demo_job) 0x5000"

lemma demo_initial: "initial list_urcu (\<lambda>q. q) demo_sys"
proof -
  have "worker_init demo_ops \<noteq> None \<and> worker_exit demo_ops \<noteq> None
      \<and> twq demo_sys = (snd (threadwq_init list_urcu demo_twq))\<lparr>tq_ops := demo_ops\<rparr>"
    by (simp add: demo_sys_def demo_ops_def THREQDWQ_OPS_INITIALIZER_def)
  then show ?thesis unfolding initial_def by (auto simp: demo_sys_def)
qed

lemma demo_init_succeeds: "init_succeeds demo_sys"
  by (simp add: init_succeeds_def demo_sys_def demo_ops_def THREQDWQ_OPS_INITIALIZER_def)

lemma demo_run:
  obtains s where "demo_steps demo_sys s" and "accepted s = [0x1000]" and "started s = []"
    and "mpc s = M_ready" and "wpc s = W_sleep"
proof -
  obtain s1 where s1: "demo_steps demo_sys s1" "wpc s1 = W_lock" "mpc s1 = M_ready"
      "apc s1 = (\<lambda>_. A_idle)" "tq_mutex (twq s1) = None" "holds_jobs list_urcu (\<lambda>q. q) (tq_lfq (twq s1)) []"
      "accepted s1 = []" "started s1 = []" "deferred s1 = []"
    using run_to_empty[OF list_urcu_fifo demo_initial demo_init_succeeds] by blast
  obtain s2 where s2: "demo_steps s1 s2" "wpc s2 = W_sleep" "mpc s2 = mpc s1"
      "accepted s2 = accepted s1 @ [0x1000]" "started s2 = started s1"
    using add_then_sleep[OF list_urcu_fifo s1(2,4,5,6) _ _ s1(9), of "0x1000" False "\<lambda>_. demo_job" "0x5000"]
    by auto
  show ?thesis
    by (rule that[OF steps_trans[OF s1(1) s2(1)]]) (use s1 s2 in simp_all)
qed

lemma demo_exit_called:
  assumes "demo_steps demo_sys s" and "mpc s = M_ready" and "wpc s = W_sleep"
  shows "demo_steps demo_sys (s\<lparr>mpc := M_lock\<rparr>)" and "demo_steps s (s\<lparr>mpc := M_lock\<rparr>)"
proof -
  show "demo_steps s (s\<lparr>mpc := M_lock\<rparr>)"
    by (rule main_steps[where c = True and t = "s\<lparr>mpc := M_lock\<rparr>"]) (use assms in simp_all)
  then show "demo_steps demo_sys (s\<lparr>mpc := M_lock\<rparr>)" using steps_trans[OF assms(1)] by blast
qed

lemma demo_done:
  obtains s s' where "demo_steps demo_sys s" and "accepted s = [0x1000]" and "mpc s = M_ready"
    and "demo_steps s s'" and "mpc s' = M_done"
proof -
  obtain s where s: "demo_steps demo_sys s" "accepted s = [0x1000]" "mpc s = M_ready" "wpc s = W_sleep"
    using demo_run by metis
  note call = demo_exit_called[OF s(1,3,4)]
  have "twq_inv list_urcu (\<lambda>q. q) (s\<lparr>mpc := M_lock\<rparr>)"
    using reachable_twq_inv[OF list_urcu_fifo demo_initial call(1)] .
  then obtain s' where "demo_steps (s\<lparr>mpc := M_lock\<rparr>) s'" "mpc s' = M_done"
    using exit_can_finish[of list_urcu "\<lambda>q. q" "s\<lparr>mpc := M_lock\<rparr>" False "\<lambda>_. demo_job" "0x5000"] by auto
  then show ?thesis using that s(1-3) steps_trans[OF call(2)] by blast
qed

theorem threadwq_fifo_exactly_once_witness:
  "\<exists>s js. demo_steps demo_sys s \<and> accepted s = [0x1000] \<and> [0x1000] = started s @ in_hand (wpc s) @ js
    \<and> holds_jobs list_urcu (\<lambda>q. q) (tq_lfq (twq s)) js"
proof -
  obtain s where s: "demo_steps demo_sys s" "accepted s = [0x1000]"
    using demo_run by metis
  show ?thesis
    using threadwq_fifo_exactly_once[OF list_urcu_fifo demo_initial s(1)] s by auto
qed

theorem threadwq_mutex_says_nothing_of_work_witness:
  "\<exists>s. demo_steps demo_sys s \<and> wpc s = W_sleep \<and> tq_mutex (twq s) \<noteq> Some Worker"
proof -
  obtain s where s: "demo_steps demo_sys s" "wpc s = W_sleep"
    using demo_run by metis
  show ?thesis
    using threadwq_mutex_says_nothing_of_work[OF list_urcu_fifo demo_initial s(1)] s by auto
qed

theorem threadwq_exit_flushes_witness:
  "\<exists>s'. demo_steps demo_sys s' \<and> mpc s' = M_done \<and> wpc s' = W_done \<and> prefix [0x1000] (started s')"
proof -
  obtain s s' where s: "demo_steps demo_sys s" "accepted s = [0x1000]" "mpc s = M_ready"
      "demo_steps s s'" "mpc s' = M_done"
    using demo_done by metis
  have "mpc s \<in> {M_create, M_spin, M_ready}" using s(3) by simp
  then have "wpc s' = W_done \<and> prefix [0x1000] (started s')"
    using threadwq_exit_flushes[OF list_urcu_fifo demo_initial s(1) _ s(4,5)] s(2) by simp
  then show ?thesis using steps_trans[OF s(1,4)] s(5) by blast
qed

theorem threadwq_wakeup_can_be_lost_witness:
  "\<exists>s. demo_steps demo_sys s \<and> accepted s = [0x1000] \<and> started s = [] \<and> wpc s = W_sleep
    \<and> \<not> step False list_urcu (\<lambda>q. q) (\<lambda>_. demo_job) 0x5000 s (s\<lparr>wpc := W_unlock\<rparr>)"
proof -
  obtain s where s: "demo_steps demo_sys s" "accepted s = [0x1000]" "started s = []" "wpc s = W_sleep"
    "\<forall>s'. step False list_urcu (\<lambda>q. q) (\<lambda>_. demo_job) 0x5000 s s'
      \<longrightarrow> s' = s\<lparr>mpc := M_lock\<rparr> \<or> (\<exists>i j. s' = s\<lparr>apc := (apc s)(i := A_enqueue j)\<rparr>)"
    using threadwq_wakeup_can_be_lost[OF list_urcu_fifo demo_initial demo_init_succeeds,
        where job = "0x1000" and J = "\<lambda>_. demo_job" and self = "0x5000"] by auto
  have "wpc (s\<lparr>wpc := W_unlock\<rparr>) \<noteq> wpc (s\<lparr>mpc := M_lock\<rparr>)" using s(4) by simp
  moreover have "wpc (s\<lparr>wpc := W_unlock\<rparr>) \<noteq> wpc (s\<lparr>apc := a\<rparr>)" for a using s(4) by simp
  ultimately show ?thesis using s by metis
qed

theorem threadwq_exit_can_finish_witness:
  "\<exists>s s'. demo_steps demo_sys s \<and> mpc s = M_lock \<and> wpc s = W_sleep \<and> demo_steps s s'
    \<and> mpc s' = M_done \<and> wpc s' = W_done"
proof -
  obtain s where s: "demo_steps demo_sys s" "mpc s = M_ready" "wpc s = W_sleep"
    using demo_run by metis
  have "stopping (mpc (s\<lparr>mpc := M_lock\<rparr>))" by simp
  then obtain s' where "demo_steps (s\<lparr>mpc := M_lock\<rparr>) s'" "mpc s' = M_done" "wpc s' = W_done"
    using threadwq_exit_can_finish[OF list_urcu_fifo demo_initial demo_exit_called(1)[OF s]] by blast
  then show ?thesis
    using demo_exit_called(1)[OF s] s(3)
    by (intro exI[of _ "s\<lparr>mpc := M_lock\<rparr>"] exI[of _ s']) simp
qed

end
