(* ===== verification/Threadwq_Builds.thy ===== *)
theory Threadwq_Builds
  imports Threadwq_Worker
begin

text \<open>
  The builds of \<open>threadwq.c\<close> and \<open>threadwq.h\<close> with \<open>THREADWQ_BLOCKED_ENQUEUE\<close> 0: the adding threads
  signal without the mutex, and \<open>wait4job\<close> is either the wait that means to have a time limit
  (\<open>Timedwait\<close>) or \<open>caa_cpu_relax\<close> (\<open>Relax\<close>). All other statements are those of \<open>Threadwq_Worker\<close>.
\<close>

section \<open>The steps that differ\<close>

datatype wait_build = Timedwait | Relax

text \<open>
  The time that the \<open>Timedwait\<close> build computes goes nowhere: the call is \<open>pthread_cond_wait\<close>.
\<close>

fun wait4job :: "wait_build \<Rightarrow> ('q, 'e) sys \<Rightarrow> ('q, 'e) sys option" where
  "wait4job Relax s = Some (s\<lparr>wpc := W_loop\<rparr>)"
| "wait4job Timedwait s = map_option (\<lambda>s. s\<lparr>wpc := W_wait\<rparr>) (take_mutex Worker s)"

definition nb_worker_step ::
  "wait_build \<Rightarrow> 'q urcu \<Rightarrow> (ptr \<Rightarrow> 'e threadwq_job) \<Rightarrow> ptr \<Rightarrow> ('q, 'e) sys \<Rightarrow> ('q, 'e) sys option" where
  "nb_worker_step b U J self s = (if wpc s = W_lock then wait4job b s else worker_step U J self (wpc s) s)"

text \<open>\<open>threadwq_add_job\<close>; its other program points do not occur.\<close>

fun nb_adder_step :: "'q urcu \<Rightarrow> nat \<Rightarrow> adder_pc \<Rightarrow> ('q, 'e) sys \<Rightarrow> ('q, 'e) sys option" where
  "nb_adder_step U i (A_enqueue job) s =
     Some (s\<lparr>twq := (twq s)\<lparr>tq_lfq := lfq_enqueue U (job + lfq_node_off U) (tq_lfq (twq s))\<rparr>,
             accepted := accepted s @ [job], apc := (apc s)(i := A_signal)\<rparr>)"
| "nb_adder_step U i A_signal s = Some ((wake s)\<lparr>apc := (apc s)(i := A_idle)\<rparr>)"
| "nb_adder_step U i _ s = None"

inductive nb_step :: "wait_build \<Rightarrow> bool \<Rightarrow> 'q urcu \<Rightarrow> ('q \<Rightarrow> ptr list) \<Rightarrow> (ptr \<Rightarrow> 'e threadwq_job) \<Rightarrow> ptr
    \<Rightarrow> ('q, 'e) sys \<Rightarrow> ('q, 'e) sys \<Rightarrow> bool"
  for b sp U items J self where
  nb_worker: "nb_worker_step b U J self s = Some s' \<Longrightarrow> nb_step b sp U items J self s s'"
| nb_adder: "wpc s \<noteq> W_abort \<Longrightarrow> nb_adder_step U i (apc s i) s = Some s' \<Longrightarrow> nb_step b sp U items J self s s'"
| nb_main: "wpc s \<noteq> W_abort \<Longrightarrow> main_step created (mpc s) s = Some s' \<Longrightarrow> nb_step b sp U items J self s s'"
| nb_spurious: "sp \<Longrightarrow> wpc s = W_sleep \<Longrightarrow> nb_step b sp U items J self s (wake s)"
| nb_finish: "wpc s \<noteq> W_abort \<Longrightarrow> deferred s = as @ head # bs \<Longrightarrow> job = head - rcu_head_off U
    \<Longrightarrow> nb_step b sp U items J self s (s\<lparr>env := cb_finish (J job) job (job_priv (J job)) (env s),
          deferred := as @ bs, finished := finished s @ [job]\<rparr>)"
| nb_call: "wpc s \<noteq> W_abort \<Longrightarrow> apc s i = A_idle \<Longrightarrow> job \<noteq> NULL \<Longrightarrow> job + lfq_node_off U \<noteq> NULL
    \<Longrightarrow> job \<notin> under_way U items s \<Longrightarrow> nb_step b sp U items J self s (s\<lparr>apc := (apc s)(i := A_enqueue job)\<rparr>)"

inductive_cases nb_stepE: "nb_step b sp U items J self s s'"

section \<open>The invariant\<close>

text \<open>The jobs and the phases are as in the blocked build; a build that relaxes never waits.\<close>

definition nb_inv :: "wait_build \<Rightarrow> 'q urcu \<Rightarrow> ('q \<Rightarrow> ptr list) \<Rightarrow> ('q, 'e) sys \<Rightarrow> bool" where
  "nb_inv b U items s \<longleftrightarrow> lfq_fifo U items \<and> phase_inv s \<and> jobs_inv U items s
     \<and> (b = Relax \<longrightarrow> wpc s \<notin> {W_wait, W_sleep, W_unlock})"

lemma phase_relax: "phase_ok W_lock m t \<Longrightarrow> phase_ok W_loop m t"
  by (rule phase_ok_move[where w = W_lock]) simp_all

lemma worker_never_waits:
  assumes "worker_step U J self (wpc s) s = Some s'" and "wpc s \<notin> {W_lock, W_wait, W_sleep, W_unlock}"
  shows "wpc s' \<notin> {W_wait, W_sleep, W_unlock}"
  using assms by (cases "wpc s") (auto simp: thread_ops split: option.splits prod.splits if_splits)

lemma nb_worker_inv:
  assumes "nb_worker_step b U J self s = Some s'" and inv: "nb_inv b U items s"
  shows "nb_inv b U items s'"
proof (cases "wpc s = W_lock \<and> b = Relax")
  case True
  then have "s' = s\<lparr>wpc := W_loop\<rparr>" using assms(1) by (simp add: nb_worker_step_def)
  then show ?thesis using True inv phase_relax[of "mpc s" "twq s"] by (auto simp: nb_inv_def jobs_inv_def)
next
  case False
  then have w: "worker_step U J self (wpc s) s = Some s'"
    using assms(1) by (cases b) (auto simp: nb_worker_step_def split: if_splits)
  then show ?thesis
    using inv False worker_phase[OF w] worker_jobs[OF w] worker_never_waits[OF w] by (auto simp: nb_inv_def)
qed

lemma nb_adder_inv:
  assumes "nb_adder_step U i (apc s i) s = Some s'" and inv: "nb_inv b U items s"
  shows "nb_inv b U items s'"
proof (cases "apc s i")
  case (A_enqueue j)
  have "lfq_fifo U items" "jobs_inv U items s" using inv by (auto simp: nb_inv_def)
  from put_jobs[OF this, of i j A_signal] show ?thesis
    using assms(1) inv A_enqueue by (auto simp: nb_inv_def)
next
  case A_signal
  then have s': "s' = (wake s)\<lparr>apc := (apc s)(i := A_idle)\<rparr>" using assms(1) by simp
  have "jobs_inv U items s'"
    using inv A_signal by (auto simp: nb_inv_def jobs_inv_def calls_ok_def s' wake_def split: if_splits)
  then show ?thesis using inv by (auto simp: nb_inv_def s' wake_def phase_ok_def)
qed (use assms(1) in simp_all)

lemma nb_step_inv:
  assumes "nb_step b sp U items J self s s'" and inv: "nb_inv b U items s"
  shows "nb_inv b U items s'"
  using assms(1)
proof (rule nb_stepE)
  assume "nb_worker_step b U J self s = Some s'"
  then show ?thesis using nb_worker_inv inv by blast
next
  fix i assume "nb_adder_step U i (apc s i) s = Some s'"
  then show ?thesis using nb_adder_inv inv by blast
next
  fix c assume m: "main_step c (mpc s) s = Some s'"
  have "mpc s = M_create \<longrightarrow> wpc s = W_none" using inv by (simp add: nb_inv_def phase_ok_def)
  then have "wpc s' \<in> {wpc s, W_new}" using m by (cases "mpc s") (auto simp: thread_ops split: if_splits)
  then show ?thesis using inv main_phase[OF m] main_jobs[OF m] by (auto simp: nb_inv_def)
next
  assume "wpc s = W_sleep" and s': "s' = wake s"
  then show ?thesis using inv by (auto simp: nb_inv_def wake_def phase_ok_def jobs_inv_def)
next
  fix as head bs
  let ?job = "head - rcu_head_off U"
  assume d: "deferred s = as @ head # bs"
    and s': "s' = s\<lparr>env := cb_finish (J ?job) ?job (job_priv (J ?job)) (env s),
      deferred := as @ bs, finished := finished s @ [?job]\<rparr>"
  have "jobs_inv U items s" using inv by (simp add: nb_inv_def)
  from finish_jobs[OF this d refl] show ?thesis using inv s' by (simp add: nb_inv_def)
next
  fix i job
  assume c: "apc s i = A_idle" "job \<noteq> NULL" "job + lfq_node_off U \<noteq> NULL" "job \<notin> under_way U items s"
    and s': "s' = s\<lparr>apc := (apc s)(i := A_enqueue job)\<rparr>"
  have "jobs_inv U items s" using inv by (simp add: nb_inv_def)
  from call_jobs[OF this c] show ?thesis using inv s' by (simp add: nb_inv_def)
qed

interpretation nb_machine: machine_invariant
  "\<lambda>s. lfq_fifo U items \<and> initial U items s" "nb_step b sp U items J self" "nb_inv b U items"
  for b sp and U :: "'q urcu" and items and J :: "ptr \<Rightarrow> 'e threadwq_job" and self
proof
  show "nb_inv b U items s" if "lfq_fifo U items \<and> initial U items s" for s
    using that twq_inv_initial[of U items s] by (auto simp: nb_inv_def twq_inv_def initial_def)
qed (rule nb_step_inv)

section \<open>A worker that relaxes\<close>

abbreviation relax_run :: "'q urcu \<Rightarrow> (ptr \<Rightarrow> 'e threadwq_job) \<Rightarrow> ptr \<Rightarrow> ('q, 'e) sys \<Rightarrow> ('q, 'e) sys \<Rightarrow> bool" where
  "relax_run U J self \<equiv> (\<lambda>s t. nb_worker_step Relax U J self s = Some t)\<^sup>*\<^sup>*"

fun to_take :: "worker_pc \<Rightarrow> nat" where
  "to_take (W_defer _) = 7" | "to_take (W_flush_defer _) = 7"
| "to_take W_lock = 4" | "to_take W_loop = 3"
| "to_take W_take = 2" | "to_take W_next = 2" | "to_take W_flush = 2"
| "to_take _ = 1"

definition ahead :: "('q \<Rightarrow> ptr list) \<Rightarrow> ('q, 'e) sys \<Rightarrow> nat" where
  "ahead items s = 10 * (length (items (tq_lfq (twq s))) + length (in_hand (wpc s))) + to_take (wpc s)"

text \<open>The worker runs its loop or flushes.\<close>

definition working :: "('q, 'e) sys \<Rightarrow> bool" where
  "working s \<longleftrightarrow> serving (wpc s) \<and> \<not> flushed (wpc s)"

lemma take_some:
  assumes "lfq_fifo U items" and js: "holds_jobs U items (tq_lfq (twq s)) js" "js \<noteq> []"
    and f: "\<And>j. in_hand (f j) = [j]" "\<And>j. to_take (f j) = 1" "\<And>j. serving (f j) \<and> \<not> flushed (f j)"
    and w: "in_hand (wpc s) = []" "to_take (wpc s) = 2"
  shows "working (take_job U w f s) \<and> ahead items (take_job U w f s) < ahead items s"
  using assms(1) js(1)
proof (cases rule: take_job_cases[where w = w and f = f])
  case none
  then show ?thesis using js(2) by simp
next
  case (some q j js')
  then show ?thesis using js(1) f w by (simp add: working_def ahead_def holds_jobs_def)
qed

lemma relax_step:
  assumes inv: "nb_inv Relax U items s" and on: "working s" and more: "started s \<noteq> accepted s"
  shows "\<exists>s'. nb_worker_step Relax U J self s = Some s' \<and> working s' \<and> ahead items s' < ahead items s"
proof -
  have fifo: "lfq_fifo U items" and never: "wpc s \<notin> {W_wait, W_sleep, W_unlock}"
    using inv by (auto simp: nb_inv_def)
  obtain js where js: "holds_jobs U items (tq_lfq (twq s)) js" "accepted s = started s @ in_hand (wpc s) @ js"
    using inv by (auto simp: nb_inv_def jobs_inv_def)
  have some: "js \<noteq> []" if "in_hand (wpc s) = []" using js(2) more that by auto
  show ?thesis
  proof (cases "wpc s")
    case W_take
    then show ?thesis using take_some[OF fifo js(1) some] by (simp add: nb_worker_step_def flushed_def)
  next
    case W_next
    then show ?thesis using take_some[OF fifo js(1) some] by (simp add: nb_worker_step_def flushed_def)
  next
    case W_flush
    then show ?thesis using take_some[OF fifo js(1) some] by (simp add: nb_worker_step_def flushed_def)
  qed (use on never in \<open>auto simp: nb_worker_step_def working_def flushed_def ahead_def thread_ops\<close>)
qed

lemma relax_worker_accepted:
  assumes "nb_worker_step Relax U J self s = Some s'"
  shows "accepted s' = accepted s"
  using assms worker_frame[of U J self s s'] by (auto simp: nb_worker_step_def split: if_splits)

lemma relax_catches_up:
  assumes "nb_inv Relax U items s" and "working s"
  shows "\<exists>s'. relax_run U J self s s' \<and> started s' = accepted s"
  using assms
proof (induction "ahead items s" arbitrary: s rule: less_induct)
  case less
  show ?case
  proof (cases "started s = accepted s")
    case False
    obtain s1 where s1: "nb_worker_step Relax U J self s = Some s1" "working s1" "ahead items s1 < ahead items s"
      using relax_step[OF less.prems False] by blast
    obtain s' where "relax_run U J self s1 s'" "started s' = accepted s1"
      using less.hyps[OF s1(3) nb_worker_inv[OF s1(1) less.prems(1)] s1(2)] by blast
    then show ?thesis using s1(1) relax_worker_accepted[OF s1(1)] by (metis (mono_tags, lifting) converse_rtranclp_into_rtranclp)
  qed blast
qed

lemma nb_run_to_empty:
  assumes "lfq_fifo U items" and "initial U items s0" and "init_succeeds s0"
  shows "\<exists>s. (nb_step b sp U items J self)\<^sup>*\<^sup>* s0 s \<and> wpc s = W_lock \<and> mpc s = M_ready
    \<and> apc s = (\<lambda>_. A_idle) \<and> tq_mutex (twq s) = None \<and> \<not> tq_waiter (twq s)
    \<and> holds_jobs U items (tq_lfq (twq s)) [] \<and> accepted s = [] \<and> started s = [] \<and> deferred s = []
    \<and> tq_exit (twq s) = 0"
  by (rule run_to_empty_by[OF assms, where J = J and self = self])
    (auto intro: nb_step.nb_main nb_step.nb_worker simp: nb_worker_step_def)

section \<open>Properties\<close>


text \<open>C36: the timed wait has no time limit. In the \<open>Timedwait\<close> build, as in the default one, there is
  from every start a run after which a job is in the queue, the worker sleeps, and every further
  step, unless the wait ends spuriously, is that another job is added or \<open>threadwq_exit\<close> is
  called: nothing in the code ends the wait when its time is up.\<close>

theorem timedwait_build_never_times_out:
  assumes "lfq_fifo U items" and "initial U items s0" and "init_succeeds s0"
    and "job \<noteq> NULL" and "job + lfq_node_off U \<noteq> NULL"
  shows "\<exists>s. (nb_step Timedwait False U items J self)\<^sup>*\<^sup>* s0 s \<and> accepted s = [job] \<and> started s = []
    \<and> holds_jobs U items (tq_lfq (twq s)) [job] \<and> wpc s = W_sleep
    \<and> (\<forall>s'. nb_step Timedwait False U items J self s s'
        \<longrightarrow> s' = s\<lparr>mpc := M_lock\<rparr> \<or> (\<exists>i j. s' = s\<lparr>apc := (apc s)(i := A_enqueue j)\<rparr>))"
proof -
  let ?R = "nb_step Timedwait False U items J self"
  obtain s where s: "?R\<^sup>*\<^sup>* s0 s" "wpc s = W_lock" "mpc s = M_ready" "apc s = (\<lambda>_. A_idle)"
      "tq_mutex (twq s) = None" "holds_jobs U items (tq_lfq (twq s)) []" "accepted s = []" "started s = []"
      "deferred s = []"
    using nb_run_to_empty[OF assms(1-3)] by blast
  let ?q = "lfq_enqueue U (job + lfq_node_off U) (tq_lfq (twq s))"
  let ?s1 = "s\<lparr>apc := (apc s)(0 := A_enqueue job)\<rparr>"
  let ?s2 = "?s1\<lparr>twq := (twq s)\<lparr>tq_lfq := ?q\<rparr>, accepted := accepted s @ [job], apc := (apc s)(0 := A_signal)\<rparr>"
  let ?s3 = "?s2\<lparr>twq := (twq s)\<lparr>tq_lfq := ?q, tq_waiter := False\<rparr>, apc := (apc s)(0 := A_idle)\<rparr>"
  let ?s4 = "?s3\<lparr>twq := (twq s)\<lparr>tq_lfq := ?q, tq_mutex := Some Worker, tq_waiter := False\<rparr>, wpc := W_wait\<rparr>"
  let ?e = "?s4\<lparr>twq := (twq s)\<lparr>tq_lfq := ?q, tq_mutex := None, tq_waiter := True\<rparr>, wpc := W_sleep\<rparr>"
  have "?R s ?s1"
    by (rule nb_step.nb_call) (use s assms(4,5) in \<open>auto simp: under_way_def holds_jobs_def\<close>)
  moreover have "?R ?s1 ?s2" by (rule nb_step.nb_adder[where i = 0]) (simp_all add: s)
  moreover have "?R ?s2 ?s3" by (rule nb_step.nb_adder[where i = 0]) (simp_all add: s wake_def)
  moreover have "?R ?s3 ?s4" by (rule nb_step.nb_worker) (simp add: s nb_worker_step_def take_mutex_def)
  moreover have "?R ?s4 ?e" by (rule nb_step.nb_worker) (simp add: nb_worker_step_def)
  ultimately have "?R\<^sup>*\<^sup>* s ?e" by (meson converse_rtranclp_into_rtranclp rtranclp.rtrancl_refl)
  then have run: "?R\<^sup>*\<^sup>* s0 ?e" using s(1) by (rule rtranclp_trans[rotated])
  have "t = ?e\<lparr>mpc := M_lock\<rparr> \<or> (\<exists>i j. t = ?e\<lparr>apc := (apc ?e)(i := A_enqueue j)\<rparr>)" if "?R ?e t" for t
    using that by (rule nb_stepE) (use s in \<open>auto simp: nb_worker_step_def\<close>)
  moreover have "holds_jobs U items ?q [job]"
    using holds_jobs_enqueue[OF assms(1) s(6) _ assms(4,5)] by simp
  ultimately show ?thesis using run s by (intro exI[of _ ?e]) simp
qed

section \<open>A concrete run\<close>

lemma relax_demo:
  obtains s where "(nb_step Relax False list_urcu (\<lambda>q. q) (\<lambda>_. demo_job) 0x5000)\<^sup>*\<^sup>* demo_sys s"
    and "wpc s = W_lock" and "accepted s = [0x1000]"
proof -
  let ?R = "nb_step Relax False list_urcu (\<lambda>q. q) (\<lambda>_. demo_job) 0x5000"
  obtain s where s: "?R\<^sup>*\<^sup>* demo_sys s" "wpc s = W_lock" "apc s = (\<lambda>_. A_idle)" "accepted s = []"
      "holds_jobs list_urcu (\<lambda>q. q) (tq_lfq (twq s)) []" "deferred s = []"
    using nb_run_to_empty[OF list_urcu_fifo demo_initial demo_init_succeeds] by blast
  let ?s1 = "s\<lparr>apc := (apc s)(0 := A_enqueue 0x1000)\<rparr>"
  let ?s2 = "?s1\<lparr>twq := (twq s)\<lparr>tq_lfq := tq_lfq (twq s) @ [0x1028]\<rparr>, accepted := accepted s @ [0x1000], apc := (apc s)(0 := A_signal)\<rparr>"
  have "?R s ?s1" by (rule nb_step.nb_call) (use s in \<open>auto simp: under_way_def holds_jobs_def\<close>)
  moreover have "?R ?s1 ?s2" by (rule nb_step.nb_adder[where i = 0]) (simp_all add: s)
  ultimately have "?R\<^sup>*\<^sup>* s ?s2" by (meson converse_rtranclp_into_rtranclp rtranclp.rtrancl_refl)
  from rtranclp_trans[OF s(1) this] show ?thesis by (rule that) (simp_all add: s)
qed


theorem timedwait_build_never_times_out_witness:
  "\<exists>s. (nb_step Timedwait False list_urcu (\<lambda>q. q) (\<lambda>_. demo_job) 0x5000)\<^sup>*\<^sup>* demo_sys s
    \<and> accepted s = [0x1000] \<and> started s = [] \<and> wpc s = W_sleep"
  using timedwait_build_never_times_out[OF list_urcu_fifo demo_initial demo_init_succeeds,
      where job = "0x1000" and J = "\<lambda>_. demo_job" and self = "0x5000"] by auto

end
