(* ===== verification/Threadwq_Man.thy ===== *)
theory Threadwq_Man
  imports Threadwq "HOL-Library.Multiset" "HOL-Library.Sublist"
begin

text \<open>
  \<open>threadwq/threadwq_man.c\<close>, \<open>threadwq_man.h\<close>, \<open>threadwq_man_ops.h\<close> and
  \<open>threadwq_man_rr.c\<close>: a manager hands each job to one queue of a pool, by a policy behind a
  table of function pointers. The locales state what a client may rely on whatever the policy
  is, and what a policy that deals jobs in a cycle adds to it; both policies of the program are
  interpretations.
\<close>

section \<open>Data\<close>

text \<open>\<open>struct threadwq_man\<close> is \<open>man_core\<close>, what the policies work on, and the table.\<close>

record ('q, 'e) man_core =
  twq_pool :: "('q, 'e) threadwq list"
  twq_pool_nr :: u32
  twq_idx :: u32

record ('q, 'e) threadwq_man_ops =
  cb_init :: "('q, 'e) man_core \<Rightarrow> (int \<times> ('q, 'e) man_core) res"
  cb_exit :: "('q, 'e) man_core \<Rightarrow> ('q, 'e) man_core res"
  cb_add_job :: "ptr \<Rightarrow> ('q, 'e) man_core \<Rightarrow> (int \<times> ('q, 'e) man_core) res"

record ('q, 'e) threadwq_man =
  man_core :: "('q, 'e) man_core"
  man_ops :: "('q, 'e) threadwq_man_ops"

section \<open>The manager\<close>

text \<open>\<open>None\<close> is a null pointer.\<close>

definition threadwq_man_init ::
  "('q, 'e) threadwq_man option \<Rightarrow> ('q, 'e) threadwq list option \<Rightarrow> u32
    \<Rightarrow> ('q, 'e) threadwq_man_ops option \<Rightarrow> (int \<times> ('q, 'e) threadwq_man) res" where
  "threadwq_man_init man tbl nr ops =
     bug_on (man = None \<or> ops = None)
       (bug_on (tbl = None \<or> nr \<le> 0)
         (bindR (cb_init (the ops) ((man_core (the man))\<lparr>twq_pool := the tbl, twq_pool_nr := nr\<rparr>))
           (\<lambda>(ret, c). Inr (ret, \<lparr>man_core = c, man_ops = the ops\<rparr>))))"

definition threadwq_man_exit :: "('q, 'e) threadwq_man option \<Rightarrow> ('q, 'e) threadwq_man res" where
  "threadwq_man_exit man =
     bug_on (man = None)
       (bindR (cb_exit (man_ops (the man)) (man_core (the man))) (\<lambda>c. Inr ((the man)\<lparr>man_core := c\<rparr>)))"

definition threadwq_man_add_job ::
  "ptr \<Rightarrow> ('q, 'e) threadwq_man \<Rightarrow> (int \<times> ('q, 'e) threadwq_man) res" where
  "threadwq_man_add_job job man =
     bindR (cb_add_job (man_ops man) job (man_core man)) (\<lambda>(ret, c). Inr (ret, man\<lparr>man_core := c\<rparr>))"

section \<open>The policies\<close>

text \<open>\<open>&man->twq_pool[idx]\<close>, and an operation on it\<close>

definition on_pool ::
  "nat \<Rightarrow> (('q, 'e) threadwq \<Rightarrow> ('q, 'e) threadwq res) \<Rightarrow> ('q, 'e) man_core \<Rightarrow> ('q, 'e) man_core res"
where
  "on_pool i f m = bindR (at_index i f (twq_pool m)) (\<lambda>t. Inr (m\<lparr>twq_pool := (twq_pool m)[i := t]\<rparr>))"

definition rr_add_job ::
  "'q urcu \<Rightarrow> thread \<Rightarrow> ptr \<Rightarrow> ('q, 'e) man_core \<Rightarrow> (int \<times> ('q, 'e) man_core) res" where
  "rr_add_job U t job m =
     (let idx = twq_idx m;
          (idx, m) = (if idx \<ge> twq_pool_nr m then (0, m\<lparr>twq_idx := 0\<rparr>)
                      else (idx, m\<lparr>twq_idx := twq_idx m + 1\<rparr>))
      in bindR (on_pool (unat idx) (threadwq_add_job U t job) m) (\<lambda>m. Inr (0, m)))"

definition rr_init :: "('q, 'e) man_core \<Rightarrow> (int \<times> ('q, 'e) man_core) res" where
  "rr_init m = Inr (0, m\<lparr>twq_idx := 0\<rparr>)"

definition rr_exit :: "('q, 'e) man_core \<Rightarrow> ('q, 'e) man_core res" where
  "rr_exit m = Inr m"

definition threadwq_man_ops_rr :: "'q urcu \<Rightarrow> thread \<Rightarrow> ('q, 'e) threadwq_man_ops" where
  "threadwq_man_ops_rr U t = \<lparr>cb_init = rr_init, cb_exit = rr_exit, cb_add_job = rr_add_job U t\<rparr>"

text \<open>
  The search of \<open>rr4idle_add_job\<close> goes on for as long as \<open>pthread_mutex_trylock\<close> fails;
  \<open>others\<close> is what the other threads do after a failure.
\<close>

fun rr4idle_loop ::
  "nat \<Rightarrow> (('q, 'e) man_core \<Rightarrow> ('q, 'e) man_core) \<Rightarrow> 'q urcu \<Rightarrow> thread \<Rightarrow> ptr \<Rightarrow> u32
    \<Rightarrow> ('q, 'e) man_core \<Rightarrow> ('q, 'e) man_core res"
where
  "rr4idle_loop 0 others U t job idx m = Inl Diverge"
| "rr4idle_loop (Suc k) others U t job idx m =
     (let idx = (if idx \<ge> twq_pool_nr m then 0 else idx) in
      bindR (at_index (unat idx) (\<lambda>twq. Inr (tq_mutex twq \<noteq> None)) (twq_pool m)) (\<lambda>fails.
        if fails then rr4idle_loop k others U t job (idx + 1) (others m)
        else on_pool (unat idx)
               (\<lambda>twq. seqR [mutex_lock t, threadwq_add_job_locked U job, cond_signal, mutex_unlock] twq)
               (m\<lparr>twq_idx := idx + 1\<rparr>)))"

definition rr4idle_add_job ::
  "nat \<Rightarrow> (('q, 'e) man_core \<Rightarrow> ('q, 'e) man_core) \<Rightarrow> 'q urcu \<Rightarrow> thread \<Rightarrow> ptr
    \<Rightarrow> ('q, 'e) man_core \<Rightarrow> (int \<times> ('q, 'e) man_core) res" where
  "rr4idle_add_job fuel others U t job m =
     bindR (rr4idle_loop fuel others U t job (twq_idx m) m) (\<lambda>m. Inr (0, m))"

definition threadwq_man_ops_rr4idle ::
  "nat \<Rightarrow> (('q, 'e) man_core \<Rightarrow> ('q, 'e) man_core) \<Rightarrow> 'q urcu \<Rightarrow> thread \<Rightarrow> ('q, 'e) threadwq_man_ops"
where
  "threadwq_man_ops_rr4idle fuel others U t =
     \<lparr>cb_init = rr_init, cb_exit = rr_exit, cb_add_job = rr4idle_add_job fuel others U t\<rparr>"

section \<open>What a client relies on\<close>

text \<open>Adding jobs one after the other\<close>

fun add_each :: "(ptr \<Rightarrow> 'm \<Rightarrow> (int \<times> 'm) res) \<Rightarrow> ptr list \<Rightarrow> 'm \<Rightarrow> 'm res" where
  "add_each add [] m = Inr m"
| "add_each add (j # js) m = bindR (add j m) (\<lambda>(ret, m). add_each add js m)"

lemma mset_concat_update:
  "i < length qs \<Longrightarrow> mset (concat (qs[i := qs ! i @ [j]])) = mset (concat qs) + {#j#}"
  by (induction qs arbitrary: i) (auto split: nat.splits)

text \<open>
  \<open>queues\<close> are the jobs in each queue of the pool; \<open>ready S m\<close> says that the jobs \<open>S\<close> can be
  added, in any order; \<open>pick m\<close> is the queue the next job goes to.
\<close>

locale job_policy =
  fixes add :: "ptr \<Rightarrow> 'm \<Rightarrow> (int \<times> 'm) res"
    and queues :: "'m \<Rightarrow> ptr list list"
    and ready :: "ptr set \<Rightarrow> 'm \<Rightarrow> bool"
    and pick :: "'m \<Rightarrow> nat"
  assumes pick_in: "ready S m \<Longrightarrow> pick m < length (queues m)"
    and add_law: "ready S m \<Longrightarrow> j \<in> S \<Longrightarrow> \<exists>m'. add j m = Inr (0, m')
      \<and> queues m' = (queues m)[pick m := queues m ! pick m @ [j]] \<and> ready (S - {j}) m'"
begin

lemma add_all:
  assumes "ready S m" and "distinct js" and "set js \<subseteq> S"
  shows "\<exists>m'. add_each add js m = Inr m' \<and> length (queues m') = length (queues m)
    \<and> mset (concat (queues m')) = mset (concat (queues m)) + mset js
    \<and> (\<forall>i < length (queues m). \<exists>ks. subseq ks js \<and> queues m' ! i = queues m ! i @ ks)"
  using assms
proof (induction js arbitrary: S m)
  case Nil
  then show ?case by simp
next
  case (Cons j js)
  let ?p = "pick m"
  obtain m1 where m1: "add j m = Inr (0, m1)" "queues m1 = (queues m)[?p := queues m ! ?p @ [j]]"
      "ready (S - {j}) m1"
    using add_law[OF Cons.prems(1), of j] Cons.prems(3) by auto
  obtain m' where m': "add_each add js m1 = Inr m'" "length (queues m') = length (queues m1)"
      "mset (concat (queues m')) = mset (concat (queues m1)) + mset js"
      "\<And>i. i < length (queues m1) \<Longrightarrow> \<exists>ks. subseq ks js \<and> queues m' ! i = queues m1 ! i @ ks"
    using Cons.IH[OF m1(3)] Cons.prems by auto
  have p: "?p < length (queues m)" using pick_in[OF Cons.prems(1)] .
  have "mset (concat (queues m1)) = mset (concat (queues m)) + {#j#}"
    by (simp only: m1(2) mset_concat_update[OF p])
  moreover have "\<exists>ks. subseq ks (j # js) \<and> queues m' ! i = queues m ! i @ ks"
    if i: "i < length (queues m)" for i
  proof -
    obtain ks where ks: "subseq ks js" "queues m' ! i = queues m1 ! i @ ks"
      using m'(4)[of i] i m1(2) by auto
    show ?thesis
    proof (cases "i = ?p")
      case True
      then show ?thesis using ks p m1(2) by (intro exI[of _ "j # ks"]) simp
    next
      case False
      then show ?thesis using ks m1(2) by (intro exI[of _ ks]) auto
    qed
  qed
  ultimately show ?case using m1 m' by auto
qed

end

text \<open>A policy that goes through a cycle of \<open>n\<close> positions and maps each to a queue\<close>

definition dealt :: "nat \<Rightarrow> (nat \<Rightarrow> nat) \<Rightarrow> nat \<Rightarrow> ptr list \<Rightarrow> nat \<Rightarrow> ptr list" where
  "dealt n slot p js i = map ((!) js) (filter (\<lambda>k. slot ((p + k) mod n) = i) [0..<length js])"

lemma dealt_Nil [simp]: "dealt n slot p [] i = []"
  by (simp add: dealt_def)

lemma dealt_Cons:
  "dealt n slot p (j # js) i = (if slot (p mod n) = i then [j] else []) @ dealt n slot (Suc p mod n) js i"
proof -
  have "[0..<length (j # js)] = 0 # map Suc [0..<length js]"
    by (simp add: map_Suc_upt upt_conv_Cons del: upt_Suc)
  then show ?thesis
    by (simp add: dealt_def filter_map comp_def mod_simps)
qed

locale cyclic_policy = job_policy add queues ready pick
  for add :: "ptr \<Rightarrow> 'm \<Rightarrow> (int \<times> 'm) res" and queues ready pick +
  fixes n :: nat and slot :: "nat \<Rightarrow> nat" and pos :: "'m \<Rightarrow> nat"
  assumes pick_slot: "ready S m \<Longrightarrow> pick m = slot (pos m) \<and> pos m < n"
    and pos_next: "ready S m \<Longrightarrow> j \<in> S \<Longrightarrow> add j m = Inr (r, m') \<Longrightarrow> pos m' = Suc (pos m) mod n"
begin

lemma deal_all:
  assumes "ready S m" and "distinct js" and "set js \<subseteq> S"
  shows "\<exists>m'. add_each add js m = Inr m' \<and> length (queues m') = length (queues m)
    \<and> (\<forall>i < length (queues m). queues m' ! i = queues m ! i @ dealt n slot (pos m) js i)"
  using assms
proof (induction js arbitrary: S m)
  case Nil
  then show ?case by simp
next
  case (Cons j js)
  let ?p = "pick m"
  have j: "j \<in> S" using Cons.prems(3) by simp
  obtain m1 where m1: "add j m = Inr (0, m1)" "queues m1 = (queues m)[?p := queues m ! ?p @ [j]]"
      "ready (S - {j}) m1"
    using add_law[OF Cons.prems(1) j] by auto
  obtain m' where m': "add_each add js m1 = Inr m'" "length (queues m') = length (queues m1)"
      "\<And>i. i < length (queues m1) \<Longrightarrow> queues m' ! i = queues m1 ! i @ dealt n slot (pos m1) js i"
    using Cons.IH[OF m1(3)] Cons.prems by auto
  have p: "?p < length (queues m)" using pick_in[OF Cons.prems(1)] .
  have s: "?p = slot (pos m mod n)" using pick_slot[OF Cons.prems(1)] by simp
  have "pos m1 = Suc (pos m) mod n" using pos_next[OF Cons.prems(1) j m1(1)] .
  then have "queues m' ! i = queues m ! i @ dealt n slot (pos m) (j # js) i" if "i < length (queues m)" for i
    using that m'(3)[of i] m1(2) p s by (auto simp: dealt_Cons)
  then show ?case using m1 m' by auto
qed

end


section \<open>The policies keep to it\<close>

definition jobs_of :: "'q urcu \<Rightarrow> ('q \<Rightarrow> ptr list) \<Rightarrow> ('q, 'e) threadwq \<Rightarrow> ptr list" where
  "jobs_of U items twq = map (\<lambda>n. n - lfq_node_off U) (items (tq_lfq twq))"

definition queues_of :: "'q urcu \<Rightarrow> ('q \<Rightarrow> ptr list) \<Rightarrow> ('q, 'e) man_core \<Rightarrow> ptr list list" where
  "queues_of U items m = map (jobs_of U items) (twq_pool m)"

text \<open>A queue in use, with its mutex free\<close>

definition queue_ok :: "'q urcu \<Rightarrow> ('q \<Rightarrow> ptr list) \<Rightarrow> ptr set \<Rightarrow> ('q, 'e) threadwq \<Rightarrow> bool" where
  "queue_ok U items S twq \<longleftrightarrow> tq_mutex twq = None
     \<and> holds_jobs U items (tq_lfq twq) (jobs_of U items twq) \<and> S \<inter> set (jobs_of U items twq) = {}"

definition pool_ready :: "'q urcu \<Rightarrow> ('q \<Rightarrow> ptr list) \<Rightarrow> nat \<Rightarrow> ptr set \<Rightarrow> ('q, 'e) man_core \<Rightarrow> bool" where
  "pool_ready U items n S m \<longleftrightarrow>
     lfq_fifo U items \<and> 0 < n \<and> unat (twq_pool_nr m) = n \<and> length (twq_pool m) = n
   \<and> unat (twq_idx m) \<le> n \<and> (\<forall>twq \<in> set (twq_pool m). queue_ok U items S twq)
   \<and> (\<forall>j \<in> S. j \<noteq> NULL \<and> j + lfq_node_off U \<noteq> NULL)"

lemma holds_jobs_of: "holds_jobs U items (tq_lfq twq) js \<Longrightarrow> jobs_of U items twq = js"
  by (simp add: holds_jobs_def jobs_of_def comp_def)

lemma add_job_ok:
  assumes "lfq_fifo U items" and "queue_ok U items S twq" and "j \<in> S"
    and "j \<noteq> NULL" and "j + lfq_node_off U \<noteq> NULL"
  shows "\<exists>twq'. threadwq_add_job U t j twq = Inr twq' \<and> queue_ok U items (S - {j}) twq'
      \<and> jobs_of U items twq' = jobs_of U items twq @ [j]"
    and "\<exists>twq'. seqR [mutex_lock t, threadwq_add_job_locked U j, cond_signal, mutex_unlock] twq = Inr twq'
      \<and> queue_ok U items (S - {j}) twq' \<and> jobs_of U items twq' = jobs_of U items twq @ [j]"
proof -
  let ?q = "lfq_enqueue U (j + lfq_node_off U) (tq_lfq twq)"
  let ?t = "twq\<lparr>tq_lfq := ?q, tq_mutex := None, tq_waiter := False\<rparr>"
  have "j \<notin> set (jobs_of U items twq)" using assms(2,3) by (auto simp: queue_ok_def)
  then have "holds_jobs U items ?q (jobs_of U items twq @ [j])"
    using holds_jobs_enqueue[OF assms(1)] assms(2,4,5) by (auto simp: queue_ok_def)
  then have jobs: "jobs_of U items ?t = jobs_of U items twq @ [j]"
      "holds_jobs U items (tq_lfq ?t) (jobs_of U items ?t)"
    using holds_jobs_of[of U items ?t] by simp_all
  have ok: "queue_ok U items (S - {j}) ?t"
    using jobs assms(2) by (auto simp: queue_ok_def)
  have mx: "tq_mutex twq = None" using assms(2) by (simp add: queue_ok_def)
  have eq: "threadwq_add_job U t j twq = Inr ?t"
    "seqR [mutex_lock t, threadwq_add_job_locked U j, cond_signal, mutex_unlock] twq = Inr ?t"
    using mx assms(4)
    by (simp_all add: threadwq_add_job_def threadwq_add_job_locked_def mutex_lock_def cond_signal_def mutex_unlock_def)
  show "\<exists>twq'. threadwq_add_job U t j twq = Inr twq' \<and> queue_ok U items (S - {j}) twq'
      \<and> jobs_of U items twq' = jobs_of U items twq @ [j]"
    using eq(1) ok jobs(1) by blast
  show "\<exists>twq'. seqR [mutex_lock t, threadwq_add_job_locked U j, cond_signal, mutex_unlock] twq = Inr twq'
      \<and> queue_ok U items (S - {j}) twq' \<and> jobs_of U items twq' = jobs_of U items twq @ [j]"
    using eq(2) ok jobs(1) by blast
qed

text \<open>One job put into queue \<open>i\<close> of a pool that is ready\<close>

lemma pool_put:
  assumes "pool_ready U items n S m" and "j \<in> S" and "i < n" and "unat (twq_idx m') \<le> n"
    and "m' = m\<lparr>twq_idx := twq_idx m', twq_pool := (twq_pool m)[i := twq']\<rparr>"
    and "queue_ok U items (S - {j}) twq'"
    and "jobs_of U items twq' = jobs_of U items (twq_pool m ! i) @ [j]"
  shows "queues_of U items m' = (queues_of U items m)[i := queues_of U items m ! i @ [j]]"
    and "pool_ready U items n (S - {j}) m'"
proof -
  have pool: "twq_pool m' = (twq_pool m)[i := twq']" and nr: "twq_pool_nr m' = twq_pool_nr m"
    by (subst assms(5), simp)+
  have len: "length (twq_pool m) = n" using assms(1) by (simp add: pool_ready_def)
  show "queues_of U items m' = (queues_of U items m)[i := queues_of U items m ! i @ [j]]"
    using assms(3,7) len by (simp add: queues_of_def pool map_update)
  have "queue_ok U items (S - {j}) twq" if "twq \<in> set (twq_pool m')" for twq
  proof -
    have "twq = twq' \<or> twq \<in> set (twq_pool m)"
      using that pool set_update_subset_insert[of "twq_pool m" i twq'] by auto
    then show ?thesis using assms(1,6) by (auto simp: pool_ready_def queue_ok_def)
  qed
  then show "pool_ready U items n (S - {j}) m'"
    using assms(1,4) pool nr len by (simp add: pool_ready_def)
qed

subsection \<open>Round robin\<close>

definition rr_slot :: "nat \<Rightarrow> nat \<Rightarrow> nat" where
  "rr_slot n p = (if p < n then p else 0)"

lemma rr_step:
  assumes r: "pool_ready U items n S m" and j: "j \<in> S"
  shows "\<exists>m'. rr_add_job U t j m = Inr (0, m')
    \<and> queues_of U items m' = (queues_of U items m)[rr_slot n (unat (twq_idx m)) :=
        queues_of U items m ! rr_slot n (unat (twq_idx m)) @ [j]]
    \<and> pool_ready U items n (S - {j}) m' \<and> unat (twq_idx m') = Suc (unat (twq_idx m)) mod Suc n"
proof -
  let ?i = "rr_slot n (unat (twq_idx m))"
  let ?x = "if twq_idx m \<ge> twq_pool_nr m then 0 else twq_idx m + 1"
  have n: "0 < n" "unat (twq_pool_nr m) = n" "length (twq_pool m) = n" "unat (twq_idx m) \<le> n" "lfq_fifo U items"
    using r by (auto simp: pool_ready_def)
  have i: "?i < n" using n by (simp add: rr_slot_def)
  have ge: "twq_idx m \<ge> twq_pool_nr m \<longleftrightarrow> \<not> unat (twq_idx m) < n"
    using n by (simp add: word_le_nat_alt not_less)
  have x: "unat ?x = Suc (unat (twq_idx m)) mod Suc n"
  proof (cases "unat (twq_idx m) < n")
    case True
    then have "unat (twq_idx m) < unat (twq_pool_nr m)" using n by simp
    then have "unat (twq_idx m + 1) = Suc (unat (twq_idx m))"
      by (rule unat_succ)
    then show ?thesis using True ge by simp
  next
    case False
    then have "unat (twq_idx m) = n" using n by simp
    then show ?thesis using ge by simp
  qed
  have ok: "queue_ok U items S (twq_pool m ! ?i)" using r i n by (simp add: pool_ready_def)
  have "j \<noteq> NULL" "j + lfq_node_off U \<noteq> NULL" using r j by (auto simp: pool_ready_def)
  from add_job_ok(1)[OF n(5) ok j this, of t]
  obtain twq' where q: "threadwq_add_job U t j (twq_pool m ! ?i) = Inr twq'"
      "queue_ok U items (S - {j}) twq'" "jobs_of U items twq' = jobs_of U items (twq_pool m ! ?i) @ [j]"
    by blast
  let ?m = "m\<lparr>twq_idx := ?x, twq_pool := (twq_pool m)[?i := twq']\<rparr>"
  have "rr_add_job U t j m = Inr (0, ?m)"
    using q(1) i n ge by (auto simp: rr_add_job_def on_pool_def at_index_def rr_slot_def Let_def)
  moreover have "unat (twq_idx ?m) \<le> n" using x by (simp del: if_split)
  note pool_put[OF r j i this _ q(2,3)]
  ultimately show ?thesis using x by (intro exI[of _ ?m]) simp
qed


interpretation rr: cyclic_policy "rr_add_job U t" "queues_of U items" "pool_ready U items n"
    "\<lambda>m. rr_slot n (unat (twq_idx m))" "Suc n" "rr_slot n" "\<lambda>m. unat (twq_idx m)"
  for U :: "'q urcu" and t items n
proof unfold_locales
  fix S and m :: "('q, 'e) man_core" and j
  assume r: "pool_ready U items n S m"
  show "rr_slot n (unat (twq_idx m)) < length (queues_of U items m)"
    using r by (auto simp: pool_ready_def rr_slot_def queues_of_def)
  show "rr_slot n (unat (twq_idx m)) = rr_slot n (unat (twq_idx m)) \<and> unat (twq_idx m) < Suc n"
    using r by (auto simp: pool_ready_def)
  assume j: "j \<in> S"
  show "\<exists>m'. rr_add_job U t j m = Inr (0, m')
    \<and> queues_of U items m' = (queues_of U items m)[rr_slot n (unat (twq_idx m)) :=
        queues_of U items m ! rr_slot n (unat (twq_idx m)) @ [j]]
    \<and> pool_ready U items n (S - {j}) m'"
    using rr_step[OF r j, of t] by blast
  show "unat (twq_idx m') = Suc (unat (twq_idx m)) mod Suc n" if "rr_add_job U t j m = Inr (ret, m')" for ret m'
    using rr_step[OF r j, of t] that by auto
qed

subsection \<open>Round robin by \<open>trylock\<close>\<close>

lemma rr4idle_step:
  assumes r: "pool_ready U items n S m" and j: "j \<in> S"
  shows "\<exists>m'. rr4idle_add_job (Suc fuel) others U t j m = Inr (0, m')
    \<and> queues_of U items m' = (queues_of U items m)[unat (twq_idx m) mod n :=
        queues_of U items m ! (unat (twq_idx m) mod n) @ [j]]
    \<and> pool_ready U items n (S - {j}) m' \<and> unat (twq_idx m') = Suc (unat (twq_idx m) mod n)"
proof -
  let ?i = "unat (twq_idx m) mod n"
  let ?x = "if twq_idx m \<ge> twq_pool_nr m then 0 else twq_idx m"
  have n: "0 < n" "unat (twq_pool_nr m) = n" "length (twq_pool m) = n" "unat (twq_idx m) \<le> n" "lfq_fifo U items"
    using r by (auto simp: pool_ready_def)
  have i: "?i < n" using n by simp
  have x: "unat ?x = ?i" using n by (auto simp: word_le_nat_alt)
  have "unat (?x + 1) = Suc (unat ?x)"
    by (rule unat_succ[of _ "twq_pool_nr m"]) (use x i n in simp)
  then have x1: "unat (?x + 1) = Suc ?i" using x by simp
  have ok: "queue_ok U items S (twq_pool m ! ?i)" using r i n by (simp add: pool_ready_def)
  have "j \<noteq> NULL" "j + lfq_node_off U \<noteq> NULL" using r j by (auto simp: pool_ready_def)
  from add_job_ok(2)[OF n(5) ok j this, of t]
  obtain twq' where q: "seqR [mutex_lock t, threadwq_add_job_locked U j, cond_signal, mutex_unlock] (twq_pool m ! ?i) = Inr twq'"
      "queue_ok U items (S - {j}) twq'" "jobs_of U items twq' = jobs_of U items (twq_pool m ! ?i) @ [j]"
    by blast
  let ?m = "m\<lparr>twq_idx := ?x + 1, twq_pool := (twq_pool m)[?i := twq']\<rparr>"
  have "tq_mutex (twq_pool m ! ?i) = None" using ok by (simp add: queue_ok_def)
  then have "rr4idle_loop (Suc fuel) others U t j (twq_idx m) m = Inr ?m"
    using q(1) i n(3) x by (simp only: rr4idle_loop.simps Let_def at_index_def on_pool_def) simp
  then have "rr4idle_add_job (Suc fuel) others U t j m = Inr (0, ?m)"
    by (simp only: rr4idle_add_job_def bindR_Inr)
  moreover have "unat (twq_idx ?m) \<le> n" using x1 i by (simp del: if_split)
  note pool_put[OF r j i this _ q(2,3)]
  ultimately show ?thesis using x1 by (intro exI[of _ ?m]) simp
qed

interpretation rr4idle: cyclic_policy "rr4idle_add_job (Suc fuel) others U t" "queues_of U items"
    "pool_ready U items n" "\<lambda>m. unat (twq_idx m) mod n" n "\<lambda>p. p" "\<lambda>m. unat (twq_idx m) mod n"
  for fuel others U t items n
proof unfold_locales
  fix S and m :: "('a, 'b) man_core" and j
  assume r: "pool_ready U items n S m"
  show "unat (twq_idx m) mod n < length (queues_of U items m)"
    using r by (auto simp: pool_ready_def queues_of_def)
  show "unat (twq_idx m) mod n = unat (twq_idx m) mod n \<and> unat (twq_idx m) mod n < n"
    using r by (auto simp: pool_ready_def)
  assume j: "j \<in> S"
  show "\<exists>m'. rr4idle_add_job (Suc fuel) others U t j m = Inr (0, m')
    \<and> queues_of U items m' = (queues_of U items m)[unat (twq_idx m) mod n :=
        queues_of U items m ! (unat (twq_idx m) mod n) @ [j]]
    \<and> pool_ready U items n (S - {j}) m'"
    using rr4idle_step[OF r j, of fuel others t] by blast
  show "unat (twq_idx m') mod n = Suc (unat (twq_idx m) mod n) mod n"
    if "rr4idle_add_job (Suc fuel) others U t j m = Inr (ret, m')" for ret m'
    using rr4idle_step[OF r j, of fuel others t] that by auto
qed


section \<open>Counting what is dealt\<close>

lemma length_dealt:
  "length (dealt n slot p js i) = card {k. k < length js \<and> slot ((p + k) mod n) = i}"
proof -
  have "length (dealt n slot p js i) = card (set (filter (\<lambda>k. slot ((p + k) mod n) = i) [0..<length js]))"
    unfolding dealt_def length_map by (rule distinct_card[symmetric]) simp
  also have "set (filter (\<lambda>k. slot ((p + k) mod n) = i) [0..<length js])
      = {k. k < length js \<and> slot ((p + k) mod n) = i}" by auto
  finally show ?thesis .
qed

lemma card_mod_cycles:
  assumes "0 < n"
  shows "card {k. k < c * n \<and> P (k mod n)} = c * card {r. r < n \<and> P r}"
proof (induction c)
  case (Suc c)
  have split: "{k. k < Suc c * n \<and> P (k mod n)}
      = {k. k < c * n \<and> P (k mod n)} \<union> (+) (c * n) ` {r. r < n \<and> P r}"
  proof (rule set_eqI)
    fix k
    show "k \<in> {k. k < Suc c * n \<and> P (k mod n)}
      \<longleftrightarrow> k \<in> {k. k < c * n \<and> P (k mod n)} \<union> (+) (c * n) ` {r. r < n \<and> P r}"
    proof (cases "k < c * n")
      case True
      then show ?thesis by (auto simp: image_iff)
    next
      case False
      then obtain r where r: "k = c * n + r" by (metis le_add_diff_inverse not_less)
      have "r < n \<Longrightarrow> k mod n = r" using r by simp
      then show ?thesis using False r by (auto simp: image_iff)
    qed
  qed
  have "card ((+) (c * n) ` {r. r < n \<and> P r}) = card {r. r < n \<and> P r}"
    by (rule card_image) (simp add: inj_on_def)
  moreover have "{k. k < c * n \<and> P (k mod n)} \<inter> (+) (c * n) ` {r. r < n \<and> P r} = {}" by auto
  ultimately show ?case
    unfolding split using Suc by (subst card_Un_disjoint) auto
qed simp

lemma rr_dealt_count:
  assumes "length js = c * Suc n" and "i < n"
  shows "length (dealt (Suc n) (rr_slot n) 0 js i) = (if i = 0 then 2 * c else c)"
proof -
  have "{r. r < Suc n \<and> rr_slot n r = i} = (if i = 0 then {0, n} else {i})"
    using assms(2) by (auto simp: rr_slot_def)
  moreover have "card {0, n} = 2" using assms(2) by simp
  ultimately show ?thesis
    using card_mod_cycles[of "Suc n" c "\<lambda>r. rr_slot n r = i"] assms(1)
    by (simp add: length_dealt split: if_splits)
qed

lemma even_dealt_count:
  assumes "length js = c * n" and "i < n"
  shows "length (dealt n (\<lambda>p. p) 0 js i) = c"
proof -
  have "{r. r < n \<and> r = i} = {i}" using assms(2) by auto
  then show ?thesis
    using card_mod_cycles[of n c "\<lambda>r. r = i"] assms by (simp add: length_dealt)
qed

section \<open>Through the table of function pointers\<close>

lemma man_add_each:
  "add_each threadwq_man_add_job js man =
     bindR (add_each (cb_add_job (man_ops man)) js (man_core man)) (\<lambda>c. Inr (man\<lparr>man_core := c\<rparr>))"
proof (induction js arbitrary: man)
  case (Cons j js)
  show ?case
    by (cases "cb_add_job (man_ops man) j (man_core man)")
      (auto simp: threadwq_man_add_job_def[of j] Cons.IH split: prod.splits)
qed simp

text \<open>A fresh manager over the table \<open>tbl\<close>\<close>

definition fresh_core :: "('q, 'e) threadwq_man \<Rightarrow> ('q, 'e) threadwq list \<Rightarrow> u32 \<Rightarrow> ('q, 'e) man_core" where
  "fresh_core man tbl nr = (man_core man)\<lparr>twq_pool := tbl, twq_pool_nr := nr, twq_idx := 0\<rparr>"

lemma man_init_rr:
  assumes "ops = threadwq_man_ops_rr U t \<or> ops = threadwq_man_ops_rr4idle fuel others U t" and "0 < nr"
  shows "threadwq_man_init (Some man) (Some tbl) nr (Some ops)
    = Inr (0, \<lparr>man_core = fresh_core man tbl nr, man_ops = ops\<rparr>)"
  using assms word_not_simps(1)
  by (auto simp: threadwq_man_init_def threadwq_man_ops_rr_def threadwq_man_ops_rr4idle_def rr_init_def fresh_core_def
      word_le_nat_alt word_less_nat_alt)

text \<open>The search, while nobody takes or gives back a mutex\<close>

lemma rr4idle_search:
  assumes "0 < n" and "unat (twq_pool_nr m) = n" and "length (twq_pool m) = n" and "unat idx \<le> n"
    and "\<And>k. k < d \<Longrightarrow> tq_mutex (twq_pool m ! ((unat idx + k) mod n)) \<noteq> None"
    and "d < fuel"
  shows "\<exists>idx'. unat idx' \<le> n \<and> unat idx' mod n = (unat idx + d) mod n
    \<and> rr4idle_loop fuel (\<lambda>m. m) U t job idx m = rr4idle_loop (fuel - d) (\<lambda>m. m) U t job idx' m"
  using assms(4-)
proof (induction d arbitrary: idx fuel)
  case 0
  then show ?case by (intro exI[of _ idx]) simp
next
  case (Suc d)
  obtain f where f: "fuel = Suc f" using Suc.prems(3) by (cases fuel) auto
  let ?x = "if idx \<ge> twq_pool_nr m then 0 else idx"
  have x: "unat ?x = unat idx mod n" using assms(1,2) Suc.prems(1) by (auto simp: word_le_nat_alt)
  have "unat (?x + 1) = Suc (unat ?x)"
    by (rule unat_succ[of _ "twq_pool_nr m"]) (use x assms(1,2) in simp)
  then have x1: "unat (?x + 1) = Suc (unat idx mod n)" using x by simp
  have le: "unat (?x + 1) \<le> n" using x1 assms(1) by (simp add: Suc_le_eq)
  have "tq_mutex (twq_pool m ! (unat idx mod n)) \<noteq> None" using Suc.prems(2)[of 0] by simp
  then have step: "rr4idle_loop fuel (\<lambda>m. m) U t job idx m = rr4idle_loop f (\<lambda>m. m) U t job (?x + 1) m"
    using x assms(1,3) by (simp only: f rr4idle_loop.simps Let_def at_index_def) simp
  have shift: "(unat (?x + 1) + k) mod n = (unat idx + Suc k) mod n" for k
    using mod_add_left_eq[of "unat idx" n "Suc k"] by (simp only: x1 add_Suc add_Suc_right)
  have "tq_mutex (twq_pool m ! ((unat (?x + 1) + k) mod n)) \<noteq> None" if "k < d" for k
    unfolding shift using that by (intro Suc.prems(2)) simp
  from Suc.IH[OF le this, of f] Suc.prems(3) f
  obtain idx' where "unat idx' \<le> n" "unat idx' mod n = (unat (?x + 1) + d) mod n"
    "rr4idle_loop f (\<lambda>m. m) U t job (?x + 1) m = rr4idle_loop (f - d) (\<lambda>m. m) U t job idx' m"
    by auto
  then show ?case using step f shift[of d] by (intro exI[of _ idx']) (simp del: if_split)
qed


section \<open>A concrete pool\<close>

definition demo_core :: "(ptr list, string) man_core" where
  "demo_core = \<lparr>twq_pool = [demo_twq, demo_twq], twq_pool_nr = 2, twq_idx = 0\<rparr>"

definition demo_man :: "(ptr list, string) threadwq_man" where
  "demo_man = \<lparr>man_core = demo_core, man_ops = threadwq_man_ops_rr list_urcu Main\<rparr>"

definition demo_jobs :: "ptr list" where
  "demo_jobs = [0x1000, 0x2000, 0x3000]"

lemma demo_ready: "pool_ready list_urcu (\<lambda>q. q) 2 (set demo_jobs) demo_core"
  by (simp add: pool_ready_def list_urcu_fifo demo_core_def queue_ok_def jobs_of_def holds_jobs_def
      demo_twq_def demo_jobs_def)

lemma demo_fresh: "fresh_core demo_man [demo_twq, demo_twq] 2 = demo_core"
  by (simp add: fresh_core_def demo_man_def demo_core_def)

lemma demo_queues: "queues_of list_urcu (\<lambda>q. q) demo_core = [[], []]"
  by (simp add: queues_of_def demo_core_def jobs_of_def demo_twq_def)

lemma demo_jobs_distinct: "distinct demo_jobs"
  by (simp add: demo_jobs_def)

section \<open>Properties\<close>

text \<open>C19: a manager loses nothing. After \<open>threadwq_man_init\<close> with either policy of the program on a
  pool whose mutexes are free, any number of jobs can be added: every call returns 0, every job
  is in exactly one queue of the pool, and within each queue the jobs keep the order in which
  they were added, behind what was there.\<close>

theorem threadwq_man_conserves_jobs:
  assumes "ops = threadwq_man_ops_rr U t \<or> ops = threadwq_man_ops_rr4idle (Suc fuel) others U t"
    and "pool_ready U items n S (fresh_core man tbl nr)"
    and "distinct js" and "set js \<subseteq> S"
  shows "\<exists>man1 man2. threadwq_man_init (Some man) (Some tbl) nr (Some ops) = Inr (0, man1)
    \<and> add_each threadwq_man_add_job js man1 = Inr man2
    \<and> mset (concat (queues_of U items (man_core man2)))
        = mset (concat (map (jobs_of U items) tbl)) + mset js
    \<and> (\<forall>i < n. \<exists>ks. subseq ks js
        \<and> queues_of U items (man_core man2) ! i = jobs_of U items (tbl ! i) @ ks)"
proof -
  let ?c = "fresh_core man tbl nr"
  have q: "queues_of U items ?c = map (jobs_of U items) tbl" "length tbl = n" "0 < nr"
    using assms(2) by (auto simp: queues_of_def fresh_core_def pool_ready_def word_less_nat_alt)
  have "\<exists>c. add_each (cb_add_job ops) js ?c = Inr c \<and> length (queues_of U items c) = length (queues_of U items ?c)
      \<and> mset (concat (queues_of U items c)) = mset (concat (queues_of U items ?c)) + mset js
      \<and> (\<forall>i < length (queues_of U items ?c). \<exists>ks. subseq ks js
          \<and> queues_of U items c ! i = queues_of U items ?c ! i @ ks)"
    using assms(1) rr.add_all[OF assms(2-4)] rr4idle.add_all[OF assms(2-4)]
    by (auto simp: threadwq_man_ops_rr_def threadwq_man_ops_rr4idle_def)
  then obtain c where "add_each (cb_add_job ops) js ?c = Inr c"
      "mset (concat (queues_of U items c)) = mset (concat (map (jobs_of U items) tbl)) + mset js"
      "\<forall>i < n. \<exists>ks. subseq ks js \<and> queues_of U items c ! i = jobs_of U items (tbl ! i) @ ks"
    using q by auto
  then show ?thesis
    using man_init_rr[OF assms(1) q(3), of man tbl] by (simp add: man_add_each)
qed

theorem threadwq_man_conserves_jobs_witness:
  "\<exists>man1 man2. threadwq_man_init (Some demo_man) (Some [demo_twq, demo_twq]) 2
      (Some (threadwq_man_ops_rr4idle 1 id list_urcu Main)) = Inr (0, man1)
    \<and> add_each threadwq_man_add_job demo_jobs man1 = Inr man2
    \<and> mset (concat (queues_of list_urcu (\<lambda>q. q) (man_core man2))) = mset demo_jobs"
proof -
  let ?ops = "threadwq_man_ops_rr4idle (Suc 0) id list_urcu Main"
  have ready: "pool_ready list_urcu (\<lambda>q. q) 2 (set demo_jobs) (fresh_core demo_man [demo_twq, demo_twq] 2)"
    using demo_ready by (simp only: demo_fresh)
  have "?ops = threadwq_man_ops_rr list_urcu Main \<or> ?ops = ?ops" by simp
  from threadwq_man_conserves_jobs[OF this ready demo_jobs_distinct subset_refl]
  obtain man1 man2 where "threadwq_man_init (Some demo_man) (Some [demo_twq, demo_twq]) 2 (Some ?ops) = Inr (0, man1)"
    "add_each threadwq_man_add_job demo_jobs man1 = Inr man2"
    "mset (concat (queues_of list_urcu (\<lambda>q. q) (man_core man2)))
      = mset (concat (map (jobs_of list_urcu (\<lambda>q. q)) [demo_twq, demo_twq])) + mset demo_jobs"
    by blast
  moreover have "jobs_of list_urcu (\<lambda>q. q) demo_twq = []" by (simp add: jobs_of_def demo_twq_def)
  ultimately show ?thesis by simp
qed

text \<open>C24: round robin is not even. From a fresh manager \<open>rr_add_job\<close> goes through \<open>n + 1\<close> positions
  for \<open>n\<close> queues, and both the first and the last position are queue 0: of \<open>c (n + 1)\<close> jobs
  queue 0 gets \<open>2 c\<close> and every other queue \<open>c\<close>.\<close>

theorem rr_first_queue_gets_double:
  assumes "pool_ready U items n S m" and "twq_idx m = 0"
    and "distinct js" and "set js \<subseteq> S" and "length js = c * (n + 1)"
  shows "\<exists>m'. add_each (rr_add_job U t) js m = Inr m'
    \<and> (\<forall>i < n. queues_of U items m' ! i = queues_of U items m ! i @ dealt (n + 1) (rr_slot n) 0 js i
        \<and> length (queues_of U items m' ! i)
            = length (queues_of U items m ! i) + (if i = 0 then 2 * c else c))"
proof -
  have len: "length (queues_of U items m) = n" using assms(1) by (simp add: queues_of_def pool_ready_def)
  obtain m' where m': "add_each (rr_add_job U t) js m = Inr m'"
      "\<forall>i < n. queues_of U items m' ! i = queues_of U items m ! i @ dealt (Suc n) (rr_slot n) 0 js i"
    using rr.deal_all[OF assms(1,3,4)] assms(2) len by auto
  have "length (dealt (Suc n) (rr_slot n) 0 js i) = (if i = 0 then 2 * c else c)" if "i < n" for i
    using assms(5) that by (intro rr_dealt_count) simp_all
  then show ?thesis using m' by auto
qed

theorem rr_first_queue_gets_double_witness:
  "\<exists>m'. add_each (rr_add_job list_urcu Main) demo_jobs demo_core = Inr m'
    \<and> length (queues_of list_urcu (\<lambda>q. q) m' ! 0) = 2 \<and> length (queues_of list_urcu (\<lambda>q. q) m' ! 1) = 1"
proof -
  have "twq_idx demo_core = 0" "length demo_jobs = 1 * (2 + 1)"
    by (simp_all add: demo_core_def demo_jobs_def)
  from rr_first_queue_gets_double[OF demo_ready this(1) demo_jobs_distinct subset_refl this(2), of Main]
  obtain m' where m': "add_each (rr_add_job list_urcu Main) demo_jobs demo_core = Inr m'"
    "\<forall>i < 2. length (queues_of list_urcu (\<lambda>q. q) m' ! i)
      = length (queues_of list_urcu (\<lambda>q. q) demo_core ! i) + (if i = 0 then 2 * 1 else 1)"
    by blast
  then show ?thesis by (auto simp: demo_queues)
qed

text \<open>C32: \<open>rr4idle_add_job\<close> is even. While no mutex is held it deals the jobs to the queues in turn,
  the \<open>k\<close>-th to queue \<open>k mod n\<close>: of \<open>c n\<close> jobs every queue gets \<open>c\<close>.\<close>

theorem rr4idle_deals_in_turn:
  assumes "pool_ready U items n S m" and "twq_idx m = 0"
    and "distinct js" and "set js \<subseteq> S" and "length js = c * n"
  shows "\<exists>m'. add_each (rr4idle_add_job (Suc fuel) others U t) js m = Inr m'
    \<and> (\<forall>i < n. queues_of U items m' ! i = queues_of U items m ! i
          @ map ((!) js) (filter (\<lambda>k. k mod n = i) [0..<length js])
        \<and> length (queues_of U items m' ! i) = length (queues_of U items m ! i) + c)"
proof -
  have len: "length (queues_of U items m) = n" using assms(1) by (simp add: queues_of_def pool_ready_def)
  obtain m' where m': "add_each (rr4idle_add_job (Suc fuel) others U t) js m = Inr m'"
      "\<forall>i < n. queues_of U items m' ! i = queues_of U items m ! i @ dealt n (\<lambda>p. p) 0 js i"
    using rr4idle.deal_all[OF assms(1,3,4), of fuel others t] assms(2) len by auto
  have "dealt n (\<lambda>p. p) 0 js i = map ((!) js) (filter (\<lambda>k. k mod n = i) [0..<length js])" for i
    by (simp add: dealt_def)
  moreover have "length (dealt n (\<lambda>p. p) 0 js i) = c" if "i < n" for i
    using even_dealt_count[OF assms(5) that] .
  ultimately show ?thesis using m' by auto
qed


theorem rr4idle_deals_in_turn_witness:
  "\<exists>m'. add_each (rr4idle_add_job 1 id list_urcu Main) [0x1000, 0x2000] demo_core = Inr m'
    \<and> queues_of list_urcu (\<lambda>q. q) m' ! 1 = [0x2000]"
proof -
  have "twq_idx demo_core = 0" "length [0x1000, 0x2000 :: ptr] = 1 * 2" "distinct [0x1000, 0x2000 :: ptr]"
      "set [0x1000, 0x2000] \<subseteq> set demo_jobs"
    by (simp_all add: demo_core_def demo_jobs_def)
  from rr4idle_deals_in_turn[OF demo_ready this(1,3,4,2), of 0 id Main]
  obtain m' where m': "add_each (rr4idle_add_job (Suc 0) id list_urcu Main) [0x1000, 0x2000] demo_core = Inr m'"
    "\<forall>i < 2. queues_of list_urcu (\<lambda>q. q) m' ! i = queues_of list_urcu (\<lambda>q. q) demo_core ! i
      @ map ((!) [0x1000, 0x2000]) (filter (\<lambda>k. k mod 2 = i) [0..<length [0x1000, 0x2000 :: ptr]])"
    by blast
  have "[0..<length [0x1000, 0x2000 :: ptr]] = [0, 1]" by (simp add: upt_rec)
  then show ?thesis using m' by (simp add: demo_queues)
qed

text \<open>The search for a free mutex. While the other threads leave the mutexes as they are,
  \<open>rr4idle_add_job\<close> puts the job in the first queue, going round from \<open>twq_idx\<close>, whose mutex
  is free, and remembers the place behind it; when every mutex is held it never returns,
  however long it runs.\<close>

theorem rr4idle_takes_first_free:
  assumes "0 < n" and "unat (twq_pool_nr m) = n" and "length (twq_pool m) = n" and "unat (twq_idx m) \<le> n"
    and "job \<noteq> NULL"
  shows "((\<forall>twq \<in> set (twq_pool m). tq_mutex twq \<noteq> None)
        \<longrightarrow> rr4idle_add_job fuel (\<lambda>m. m) U t job m = Inl Diverge)
    \<and> (\<forall>d < fuel. (\<forall>k < d. tq_mutex (twq_pool m ! ((unat (twq_idx m) + k) mod n)) \<noteq> None)
        \<longrightarrow> tq_mutex (twq_pool m ! ((unat (twq_idx m) + d) mod n)) = None
        \<longrightarrow> (let i = (unat (twq_idx m) + d) mod n; twq = twq_pool m ! i in
             \<exists>m'. rr4idle_add_job fuel (\<lambda>m. m) U t job m = Inr (0, m') \<and> unat (twq_idx m') = Suc i
               \<and> twq_pool m' = (twq_pool m)[i := twq\<lparr>tq_lfq := lfq_enqueue U (job + lfq_node_off U) (tq_lfq twq),
                   tq_waiter := False\<rparr>]))"
proof (intro conjI impI allI)
  assume held: "\<forall>twq \<in> set (twq_pool m). tq_mutex twq \<noteq> None"
  have "rr4idle_loop fuel (\<lambda>m. m) U t job idx m = Inl Diverge" for idx
  proof (induction fuel arbitrary: idx)
    case (Suc k)
    let ?x = "if idx \<ge> twq_pool_nr m then 0 else idx"
    have "unat ?x < length (twq_pool m)" using assms(1-3) by (auto simp: word_le_nat_alt)
    moreover from this have "tq_mutex (twq_pool m ! unat ?x) \<noteq> None" using held nth_mem by blast
    ultimately show ?case
      using Suc.IH by (simp only: rr4idle_loop.simps Let_def at_index_def) simp
  qed simp
  then show "rr4idle_add_job fuel (\<lambda>m. m) U t job m = Inl Diverge" by (simp add: rr4idle_add_job_def)
next
  fix d
  let ?i = "(unat (twq_idx m) + d) mod n"
  assume d: "d < fuel" and held: "\<forall>k < d. tq_mutex (twq_pool m ! ((unat (twq_idx m) + k) mod n)) \<noteq> None"
    and free: "tq_mutex (twq_pool m ! ?i) = None"
  obtain idx where idx: "unat idx \<le> n" "unat idx mod n = ?i"
      "rr4idle_loop fuel (\<lambda>m. m) U t job (twq_idx m) m = rr4idle_loop (fuel - d) (\<lambda>m. m) U t job idx m"
    using rr4idle_search[OF assms(1-4) _ d] held by blast
  obtain f where f: "fuel - d = Suc f" using d by (cases "fuel - d") auto
  let ?x = "if idx \<ge> twq_pool_nr m then 0 else idx"
  let ?t = "(twq_pool m ! ?i)\<lparr>tq_lfq := lfq_enqueue U (job + lfq_node_off U) (tq_lfq (twq_pool m ! ?i)),
      tq_waiter := False\<rparr>"
  let ?m = "m\<lparr>twq_idx := ?x + 1, twq_pool := (twq_pool m)[?i := ?t]\<rparr>"
  have x: "unat ?x = ?i" using idx(1,2) assms(1,2) by (auto simp: word_le_nat_alt)
  have i: "?i < n" using assms(1) by simp
  have "unat (?x + 1) = Suc (unat ?x)"
    by (rule unat_succ[of _ "twq_pool_nr m"]) (use x i assms(2) in simp)
  then have x1: "unat (?x + 1) = Suc ?i" using x by simp
  have "seqR [mutex_lock t, threadwq_add_job_locked U job, cond_signal, mutex_unlock] (twq_pool m ! ?i) = Inr ?t"
    using free assms(5)
    by (simp add: mutex_lock_def threadwq_add_job_locked_def cond_signal_def mutex_unlock_def)
  then have "rr4idle_loop (Suc f) (\<lambda>m. m) U t job idx m = Inr ?m"
    using i assms(3) x free by (simp only: rr4idle_loop.simps Let_def at_index_def on_pool_def) simp
  then have "rr4idle_add_job fuel (\<lambda>m. m) U t job m = Inr (0, ?m)"
    using idx(3) f by (simp only: rr4idle_add_job_def bindR_Inr)
  moreover have "unat (twq_idx ?m) = Suc ?i" using x1 by (simp del: if_split)
  ultimately show "let i = ?i; twq = twq_pool m ! i in
      \<exists>m'. rr4idle_add_job fuel (\<lambda>m. m) U t job m = Inr (0, m') \<and> unat (twq_idx m') = Suc i
        \<and> twq_pool m' = (twq_pool m)[i := twq\<lparr>tq_lfq := lfq_enqueue U (job + lfq_node_off U) (tq_lfq twq),
            tq_waiter := False\<rparr>]"
    unfolding Let_def by (intro exI[of _ ?m]) simp
qed

theorem rr4idle_takes_first_free_witness:
  "\<exists>m'. rr4idle_add_job 2 (\<lambda>m. m) list_urcu Main 0x1000
      (demo_core\<lparr>twq_pool := [demo_twq\<lparr>tq_mutex := Some Worker\<rparr>, demo_twq]\<rparr>) = Inr (0, m')
    \<and> twq_pool m' ! 1 = demo_twq\<lparr>tq_lfq := [0x1028], tq_waiter := False\<rparr>"
proof -
  let ?m = "demo_core\<lparr>twq_pool := [demo_twq\<lparr>tq_mutex := Some Worker\<rparr>, demo_twq]\<rparr>"
  have c: "0 < (2::nat)" "unat (twq_pool_nr ?m) = 2" "length (twq_pool ?m) = 2" "unat (twq_idx ?m) \<le> 2"
      "(0x1000 :: ptr) \<noteq> NULL"
    by (simp_all add: demo_core_def)
  have "\<forall>k < 1. tq_mutex (twq_pool ?m ! ((unat (twq_idx ?m) + k) mod 2)) \<noteq> None"
      "tq_mutex (twq_pool ?m ! ((unat (twq_idx ?m) + 1) mod 2)) = None"
    by (simp_all add: demo_core_def demo_twq_def)
  then show ?thesis
    using rr4idle_takes_first_free[OF c, of 2 list_urcu Main]
    by (auto simp: demo_core_def demo_twq_def dest!: spec[of _ 1])
qed

end
