(* ===== verification/Man_Threads.thy ===== *)
theory Man_Threads
  imports Threadwq_Man Threadwq_Worker
begin

text \<open>
  A manager (\<open>threadwq/threadwq_man_rr.c\<close>) in front of queues that are running: any number of
  threads are inside \<open>threadwq_man_add_job\<close> at once, and each queue of the pool is the machine of
  \<open>Threadwq_Worker\<close> with its worker, its starting and stopping thread and the library's
  callbacks. What the callers share is \<open>twq_idx\<close>, the queues and the mutexes in them.
\<close>

section \<open>The callers\<close>

text \<open>
  The statements of \<open>rr_add_job\<close> (\<open>RR_\<close>) and of \<open>rr4idle_add_job\<close> (\<open>RI_\<close>), with the local
  variables \<open>job\<close> and \<open>idx\<close>. A caller at \<open>P_in q\<close> is inside the queue \<open>q\<close>, where the statements
  are those of \<open>adder_step\<close>.
\<close>

datatype caller_pc =
  P_idle
| RR_read ptr \<comment> \<open>\<open>uatomic_read(&man->rr.twq_idx)\<close>\<close>
| RR_move ptr u32 \<comment> \<open>\<open>uatomic_set\<close> or \<open>uatomic_inc\<close>\<close>
| RR_add ptr u32 \<comment> \<open>the call of \<open>threadwq_add_job\<close>\<close>
| RI_read ptr
| RI_try ptr u32 \<comment> \<open>the wrap to 0, and \<open>pthread_mutex_trylock\<close>\<close>
| RI_set ptr u32 \<comment> \<open>\<open>uatomic_set(&man->rr.twq_idx, idx + 1)\<close>\<close>
| RI_put ptr u32 \<comment> \<open>\<open>threadwq_add_job_locked\<close>\<close>
| P_in nat

text \<open>
  \<open>called\<close> are the jobs handed to \<open>threadwq_man_add_job\<close> so far. The callbacks of all queues act
  on the same rest of the program, \<open>ms_env\<close>.
\<close>

record ('q, 'e) man_sys =
  ms_queues :: "('q, 'e) sys list"
  ms_nr :: u32
  ms_idx :: u32
  ms_pcs :: "nat \<Rightarrow> caller_pc"
  ms_env :: 'e
  called :: "ptr list"

text \<open>A statement on \<open>&man->twq_pool[q]\<close>; \<open>None\<close>: it is blocked.\<close>

definition in_queue ::
  "nat \<Rightarrow> (('q, 'e) sys \<Rightarrow> (caller_pc \<times> ('q, 'e) sys) res option) \<Rightarrow> ('q, 'e) man_sys
    \<Rightarrow> (caller_pc \<times> ('q, 'e) man_sys) res option" where
  "in_queue q f s =
     (if q < length (ms_queues s)
      then map_option (\<lambda>m. bindR m (\<lambda>(pc, t). Inr (pc, s\<lparr>ms_queues := (ms_queues s)[q := t]\<rparr>)))
             (f (ms_queues s ! q))
      else Some (Inl SegFault))"

definition enter_queue :: "nat \<Rightarrow> adder_pc \<Rightarrow> ('q, 'e) sys \<Rightarrow> ('q, 'e) sys" where
  "enter_queue i a t = t\<lparr>apc := (apc t)(i := a)\<rparr>"

definition try_lock :: "nat \<Rightarrow> ptr \<Rightarrow> ('q, 'e) sys \<Rightarrow> ('q, 'e) sys option" where
  "try_lock i job t = map_option (enter_queue i (A_put job)) (take_mutex (Adder i) t)"

text \<open>Inside the queue, and back to the caller of \<open>threadwq_man_add_job\<close> at the end\<close>

definition inside :: "'q urcu \<Rightarrow> nat \<Rightarrow> nat \<Rightarrow> ('q, 'e) sys \<Rightarrow> (caller_pc \<times> ('q, 'e) sys) res option" where
  "inside U i q t =
     map_option (\<lambda>t. Inr (if apc t i = A_idle then P_idle else P_in q, t)) (adder_step U i (apc t i) t)"

fun caller_step ::
  "'q urcu \<Rightarrow> nat \<Rightarrow> caller_pc \<Rightarrow> ('q, 'e) man_sys \<Rightarrow> (caller_pc \<times> ('q, 'e) man_sys) res option"
where
  "caller_step U i P_idle s = None"
| "caller_step U i (RR_read job) s = Some (Inr (RR_move job (ms_idx s), s))"
| "caller_step U i (RR_move job idx) s =
     Some (Inr (if idx \<ge> ms_nr s then (RR_add job 0, s\<lparr>ms_idx := 0\<rparr>)
                else (RR_add job idx, s\<lparr>ms_idx := ms_idx s + 1\<rparr>)))"
| "caller_step U i (RR_add job idx) s =
     in_queue (unat idx) (\<lambda>t. Some (bug_on (job = NULL)
       (Inr (P_in (unat idx), enter_queue i (A_enqueue job) t)))) s"
| "caller_step U i (RI_read job) s = Some (Inr (RI_try job (ms_idx s), s))"
| "caller_step U i (RI_try job idx) s =
     (let idx = (if idx \<ge> ms_nr s then 0 else idx) in
      in_queue (unat idx) (\<lambda>t. Some (Inr (case try_lock i job t of
          None \<Rightarrow> (RI_try job (idx + 1), t)
        | Some t \<Rightarrow> (RI_set job idx, t)))) s)"
| "caller_step U i (RI_set job idx) s = Some (Inr (RI_put job idx, s\<lparr>ms_idx := idx + 1\<rparr>))"
| "caller_step U i (RI_put job idx) s =
     (if job = NULL then Some (Inl BugOn) else in_queue (unat idx) (inside U i (unat idx)) s)"
| "caller_step U i (P_in q) s = in_queue q (inside U i q) s"

text \<open>The policy in the table of function pointers\<close>

datatype policy = Policy_rr | Policy_rr4idle

fun enters :: "policy \<Rightarrow> ptr \<Rightarrow> caller_pc" where
  "enters Policy_rr = RR_read"
| "enters Policy_rr4idle = RI_read"

text \<open>The job a caller holds that is in no queue yet\<close>

fun hand :: "caller_pc \<Rightarrow> ptr list" where
  "hand (RR_read j) = [j]"
| "hand (RR_move j _) = [j]"
| "hand (RR_add j _) = [j]"
| "hand (RI_read j) = [j]"
| "hand (RI_try j _) = [j]"
| "hand _ = []"

definition man_under_way :: "'q urcu \<Rightarrow> ('q \<Rightarrow> ptr list) \<Rightarrow> ('q, 'e) man_sys \<Rightarrow> ptr set" where
  "man_under_way U items s =
     {j. \<exists>i. j \<in> set (hand (ms_pcs s i))} \<union> (\<Union>t \<in> set (ms_queues s). under_way U items t)"

text \<open>\<open>BUG()\<close> in one worker ends the program.\<close>

definition alive :: "('q, 'e) man_sys \<Rightarrow> bool" where
  "alive s \<longleftrightarrow> (\<forall>t \<in> set (ms_queues s). wpc t \<noteq> W_abort)"

text \<open>
  \<open>queue\<close> is a step of one queue in which no caller moves: its worker, the thread that starts or
  stops it, the library. A job is handed over only while it is not on its way in any queue.
\<close>

inductive man_step :: "policy \<Rightarrow> bool \<Rightarrow> 'q urcu \<Rightarrow> ('q \<Rightarrow> ptr list) \<Rightarrow> (ptr \<Rightarrow> 'e threadwq_job)
    \<Rightarrow> (nat \<Rightarrow> ptr) \<Rightarrow> ('q, 'e) man_sys \<Rightarrow> ('q, 'e) man_sys \<Rightarrow> bool"
  for pol sp U items J self where
  queue: "alive s \<Longrightarrow> q < length (ms_queues s) \<Longrightarrow> t = (ms_queues s ! q)\<lparr>env := ms_env s\<rparr>
    \<Longrightarrow> step sp U items J (self q) t t' \<Longrightarrow> apc t' = apc t
    \<Longrightarrow> man_step pol sp U items J self s (s\<lparr>ms_queues := (ms_queues s)[q := t'], ms_env := env t'\<rparr>)"
| caller: "alive s \<Longrightarrow> caller_step U i (ms_pcs s i) s = Some (Inr (pc, s'))
    \<Longrightarrow> man_step pol sp U items J self s (s'\<lparr>ms_pcs := (ms_pcs s)(i := pc)\<rparr>)"
| call: "alive s \<Longrightarrow> ms_pcs s i = P_idle \<Longrightarrow> job \<noteq> NULL \<Longrightarrow> job + lfq_node_off U \<noteq> NULL
    \<Longrightarrow> job \<notin> man_under_way U items s
    \<Longrightarrow> man_step pol sp U items J self s
          (s\<lparr>ms_pcs := (ms_pcs s)(i := enters pol job), called := called s @ [job]\<rparr>)"

text \<open>
  The pool after \<open>threadwq_init_multi\<close>, \<open>threadwq_set_ops_multi\<close> and \<open>threadwq_man_init\<close>
\<close>

definition man_start :: "'q urcu \<Rightarrow> ('q \<Rightarrow> ptr list) \<Rightarrow> ('q, 'e) man_sys \<Rightarrow> bool" where
  "man_start U items s \<longleftrightarrow> ms_nr s \<noteq> 0 \<and> length (ms_queues s) = unat (ms_nr s)
     \<and> (\<forall>t \<in> set (ms_queues s). initial U items t)
     \<and> ms_idx s = 0 \<and> ms_pcs s = (\<lambda>_. P_idle) \<and> called s = []"

section \<open>The invariant\<close>

text \<open>Where a caller is, and where it is in each of the queues\<close>

fun pc_fits :: "nat \<Rightarrow> (nat \<Rightarrow> adder_pc) \<Rightarrow> caller_pc \<Rightarrow> bool" where
  "pc_fits n a (RR_add _ idx) \<longleftrightarrow> unat idx < n \<and> (\<forall>p < n. a p = A_idle)"
| "pc_fits n a (RI_set j idx) \<longleftrightarrow> unat idx < n \<and> a (unat idx) = A_put j \<and> (\<forall>p < n. p \<noteq> unat idx \<longrightarrow> a p = A_idle)"
| "pc_fits n a (RI_put j idx) \<longleftrightarrow> unat idx < n \<and> a (unat idx) = A_put j \<and> (\<forall>p < n. p \<noteq> unat idx \<longrightarrow> a p = A_idle)"
| "pc_fits n a (P_in q) \<longleftrightarrow> q < n \<and> a q \<noteq> A_idle \<and> (\<forall>j. a q \<noteq> A_put j) \<and> (\<forall>p < n. p \<noteq> q \<longrightarrow> a p = A_idle)"
| "pc_fits n a _ \<longleftrightarrow> (\<forall>p < n. a p = A_idle)"

definition fits_inv :: "('q, 'e) man_sys \<Rightarrow> bool" where
  "fits_inv s \<longleftrightarrow> (\<forall>i. pc_fits (length (ms_queues s)) (\<lambda>q. apc (ms_queues s ! q) i) (ms_pcs s i))"

text \<open>A job is in one place.\<close>

definition apart_inv :: "'q urcu \<Rightarrow> ('q \<Rightarrow> ptr list) \<Rightarrow> ('q, 'e) man_sys \<Rightarrow> bool" where
  "apart_inv U items s \<longleftrightarrow>
     (\<forall>i. \<forall>j \<in> set (hand (ms_pcs s i)). j \<noteq> NULL \<and> j + lfq_node_off U \<noteq> NULL
        \<and> (\<forall>q < length (ms_queues s). j \<notin> under_way U items (ms_queues s ! q)))
   \<and> (\<forall>i k j. j \<in> set (hand (ms_pcs s i)) \<longrightarrow> j \<in> set (hand (ms_pcs s k)) \<longrightarrow> i = k)
   \<and> (\<forall>p < length (ms_queues s). \<forall>q < length (ms_queues s). p \<noteq> q \<longrightarrow>
        under_way U items (ms_queues s ! p) \<inter> under_way U items (ms_queues s ! q) = {})"

text \<open>\<open>carried\<close>: handed over, and in no queue yet\<close>

definition adds :: "('q, 'e) sys \<Rightarrow> ptr set" where
  "adds t = {j. \<exists>i. j \<in> set (adding (apc t i))}"

definition carried :: "('q, 'e) man_sys \<Rightarrow> ptr set" where
  "carried s = {j. \<exists>i. j \<in> set (hand (ms_pcs s i))} \<union> (\<Union>q < length (ms_queues s). adds (ms_queues s ! q))"

abbreviation accepted_all :: "('q, 'e) man_sys \<Rightarrow> ptr multiset" where
  "accepted_all s \<equiv> mset (concat (map accepted (ms_queues s)))"

definition tally_inv :: "('q, 'e) man_sys \<Rightarrow> bool" where
  "tally_inv s \<longleftrightarrow> (\<forall>j. count (mset (called s)) j
     = count (accepted_all s) j + (if j \<in> carried s then 1 else 0))"

definition man_inv :: "'q urcu \<Rightarrow> ('q \<Rightarrow> ptr list) \<Rightarrow> ('q, 'e) man_sys \<Rightarrow> bool" where
  "man_inv U items s \<longleftrightarrow> lfq_fifo U items \<and> ms_nr s \<noteq> 0 \<and> length (ms_queues s) = unat (ms_nr s)
     \<and> (\<forall>q < length (ms_queues s). twq_inv U items (ms_queues s ! q))
     \<and> fits_inv s \<and> apart_inv U items s \<and> tally_inv s"

section \<open>One queue\<close>

text \<open>The queue's invariant says nothing of what the callbacks act on.\<close>

lemma in_section_env [simp]: "in_section (t\<lparr>env := e\<rparr>) = in_section t"
  by (rule in_section_cong) simp_all

lemma twq_inv_env [simp]: "twq_inv U items (t\<lparr>env := e\<rparr>) = twq_inv U items t"
  by (simp add: twq_inv_def mutex_inv_def jobs_inv_def)

lemma under_way_env [simp]: "under_way U items (t\<lparr>env := e\<rparr>) = under_way U items t"
  by (simp add: under_way_def)

lemma under_way_eq:
  assumes "holds_jobs U items (tq_lfq (twq t)) js"
  shows "under_way U items t = adds t \<union> set js \<union> set (in_hand (wpc t)) \<union> set (to_defer (wpc t))
    \<union> (\<lambda>h. h - rcu_head_off U) ` set (deferred t)"
proof -
  have "j + rcu_head_off U \<in> set (deferred t) \<longleftrightarrow> j \<in> (\<lambda>h. h - rcu_head_off U) ` set (deferred t)" for j
    by (auto simp: image_iff eq_diff_eq)
  moreover have "j + lfq_node_off U \<in> set (items (tq_lfq (twq t))) \<longleftrightarrow> j \<in> set js" for j
    using assms by (auto simp: holds_jobs_def)
  ultimately show ?thesis unfolding under_way_def adds_def by auto
qed

lemma adds_under_way: "adds t \<subseteq> under_way U items t"
  by (auto simp: adds_def under_way_def)

text \<open>What a step of the worker, the main thread or the library does to the jobs on their way\<close>

lemma take_job_under_way:
  assumes "lfq_fifo U items" and "holds_jobs U items (tq_lfq (twq t)) js"
    and "in_hand w = []" and "to_defer w = []" and "\<And>j. in_hand (f j) = [j]" and "\<And>j. to_defer (f j) = []"
  shows "under_way U items (take_job U w f t) \<subseteq> under_way U items t"
  using assms(1,2)
proof (cases rule: take_job_cases[where w = w and f = f])
  case (none q)
  then show ?thesis
    using assms(3,4) under_way_eq[OF assms(2)] under_way_eq[of U items "take_job U w f t" "[]"]
    by (auto simp: adds_def)
next
  case (some q j js')
  then show ?thesis
    using assms(5,6) under_way_eq[OF assms(2)] under_way_eq[of U items "take_job U w f t" js']
    by (auto simp: adds_def)
qed

lemma worker_under_way:
  assumes "worker_step U J self (wpc t) t = Some t'" and "twq_inv U items t"
  shows "under_way U items t' \<subseteq> under_way U items t"
proof -
  have fifo: "lfq_fifo U items" using assms(2) by (simp add: twq_inv_def)
  obtain js where js: "holds_jobs U items (tq_lfq (twq t)) js"
    using assms(2) by (auto simp: twq_inv_def jobs_inv_def)
  have eq: "under_way U items t' = adds t' \<union> set js \<union> set (in_hand (wpc t')) \<union> set (to_defer (wpc t'))
      \<union> (\<lambda>h. h - rcu_head_off U) ` set (deferred t')" if "tq_lfq (twq t') = tq_lfq (twq t)"
    using under_way_eq[of U items t' js] js that by simp
  note t = under_way_eq[OF js]
  show ?thesis
  proof (cases "wpc t")
    case W_take
    then show ?thesis using assms(1) by (auto intro!: take_job_under_way[OF fifo js, THEN subsetD])
  next
    case W_next
    then show ?thesis using assms(1) by (auto intro!: take_job_under_way[OF fifo js, THEN subsetD])
  next
    case W_flush
    then show ?thesis using assms(1) by (auto intro!: take_job_under_way[OF fifo js, THEN subsetD])
  qed (use assms(1) eq t in \<open>auto simp: adds_def thread_ops split: option.splits prod.splits if_splits\<close>)
qed

lemma main_under_way:
  assumes "main_step c (mpc t) t = Some t'" and "twq_inv U items t"
  shows "under_way U items t' \<subseteq> under_way U items t"
proof -
  have "mpc t = M_create \<Longrightarrow> wpc t = W_none" using assms(2) by (simp add: twq_inv_def phase_ok_def)
  then show ?thesis
    using assms(1) by (cases "mpc t") (auto simp: under_way_def thread_ops split: if_splits)
qed

lemma adder_step_apc: "adder_step U i (apc t i) t = Some t' \<Longrightarrow> apc t' i \<noteq> apc t i"
  by (cases "apc t i") (auto simp: thread_ops split: if_splits)

lemma quiet_step:
  assumes "step sp U items J self t t'" and "apc t' = apc t" and "twq_inv U items t"
  shows "accepted t' = accepted t \<and> under_way U items t' \<subseteq> under_way U items t"
  using assms(1)
proof (rule stepE)
  assume w: "worker_step U J self (wpc t) t = Some t'"
  then show ?thesis using worker_frame[OF w] worker_under_way[OF w assms(3)] by simp
next
  fix i assume "adder_step U i (apc t i) t = Some t'"
  then show ?thesis using adder_step_apc assms(2) by metis
next
  fix c assume m: "main_step c (mpc t) t = Some t'"
  have "accepted t' = accepted t" using m by (cases "mpc t") (auto simp: thread_ops split: if_splits)
  then show ?thesis using main_under_way[OF m assms(3)] by simp
next
  fix as head bs
  let ?j = "head - rcu_head_off U"
  assume "deferred t = as @ head # bs" and "t' = t\<lparr>env := cb_finish (J ?j) ?j (job_priv (J ?j)) (env t),
    deferred := as @ bs, finished := finished t @ [?j]\<rparr>"
  then show ?thesis by (auto simp: under_way_def)
next
  fix i job
  assume "apc t i = A_idle" and "t' = t\<lparr>apc := (apc t)(i := A_enqueue job)\<rparr>"
  then have "apc t' i \<noteq> apc t i" by simp
  then show ?thesis using assms(2) by simp
qed (simp add: wake_def under_way_def)

text \<open>A caller that moves on inside a queue\<close>

lemma inside_step:
  assumes "adder_step U i (apc t i) t = Some t'" and "twq_inv U items t"
  shows "twq_inv U items t'" and "under_way U items t' \<subseteq> under_way U items t"
    and "\<And>k. k \<noteq> i \<Longrightarrow> apc t' k = apc t k" and "adding (apc t' i) = []"
    and "accepted t' = accepted t @ adding (apc t i)" and "env t' = env t" and "wpc t' = wpc t"
proof -
  have fifo: "lfq_fifo U items" and mx: "mutex_inv t" and ph: "phase_inv t" and jb: "jobs_inv U items t"
    using assms(2) by (auto simp: twq_inv_def)
  show inv: "twq_inv U items t'"
    using adder_mutex[OF assms(1) mx] adder_phase[OF assms(1) ph] adder_jobs[OF assms(1) fifo jb] fifo
    by (simp add: twq_inv_def)
  show o: "apc t' k = apc t k" if "k \<noteq> i" for k
    using assms(1) that by (cases "apc t i") (auto simp: thread_ops split: if_splits)
  show a: "adding (apc t' i) = []" "accepted t' = accepted t @ adding (apc t i)" "env t' = env t" "wpc t' = wpc t"
    using assms(1) by (cases "apc t i"; auto simp: thread_ops split: if_splits)+
  obtain js where js: "holds_jobs U items (tq_lfq (twq t)) js" "accepted t = started t @ in_hand (wpc t) @ js"
    using jb by (auto simp: jobs_inv_def)
  obtain js' where js': "holds_jobs U items (tq_lfq (twq t')) js'" "accepted t' = started t' @ in_hand (wpc t') @ js'"
    using inv by (auto simp: twq_inv_def jobs_inv_def)
  have "started t' = started t" "wpc t' = wpc t" "deferred t' = deferred t"
    using assms(1) by (cases "apc t i"; auto simp: thread_ops split: if_splits)+
  then have js'_eq: "js' = js @ adding (apc t i)" and rest: "in_hand (wpc t') = in_hand (wpc t)"
      "to_defer (wpc t') = to_defer (wpc t)" "deferred t' = deferred t"
    using a(2) js(2) js'(2) by auto
  have "adds t' \<union> set (adding (apc t i)) \<subseteq> adds t"
    using o a(1) by (auto simp: adds_def) (metis list.set(1) empty_iff)
  then show "under_way U items t' \<subseteq> under_way U items t"
    unfolding under_way_eq[OF js(1)] under_way_eq[OF js'(1)] js'_eq rest by auto
qed

text \<open>A caller that enters a queue\<close>

lemma enter_twq_inv:
  assumes inv: "twq_inv U items t" and "apc t i = A_idle" and "job \<noteq> NULL"
    and "job + lfq_node_off U \<noteq> NULL" and "job \<notin> under_way U items t"
  shows "twq_inv U items (enter_queue i (A_enqueue job) t)"
    and "try_lock i job t = Some t' \<Longrightarrow> twq_inv U items t'"
proof -
  have mx: "mutex_inv t" and ph: "phase_inv t" and jb: "jobs_inv U items t"
    using inv by (auto simp: twq_inv_def)
  have j: "jobs_inv U items (enter_queue i (A_enqueue job) t)"
    unfolding enter_queue_def by (rule call_jobs[OF jb assms(2-5)])
  have "mutex_inv (enter_queue i (A_enqueue job) t)"
    by (rule mutex_keep[OF mx])
      (use assms(2) in \<open>auto simp: enter_queue_def intro!: in_section_cong split: if_splits\<close>)
  then show "twq_inv U items (enter_queue i (A_enqueue job) t)"
    using j ph inv by (simp add: twq_inv_def) (simp add: enter_queue_def)
  assume "try_lock i job t = Some t'"
  then have m: "tq_mutex (twq t) = None"
    and t': "t' = enter_queue i (A_put job) (t\<lparr>twq := (twq t)\<lparr>tq_mutex := Some (Adder i)\<rparr>\<rparr>)"
    by (auto simp: try_lock_def take_mutex_def split: if_splits)
  have "adding \<circ> (apc t)(i := A_put job) = adding \<circ> (apc t)(i := A_enqueue job)" by auto
  then have "adding (((apc t)(i := A_put job)) k) = adding (((apc t)(i := A_enqueue job)) k)" for k
    by (metis comp_apply)
  then have "calls_ok U js ((apc t)(i := A_put job)) = calls_ok U js ((apc t)(i := A_enqueue job))" for js
    by (simp only: calls_ok_def)
  then have "jobs_inv U items t'" using j t' by (simp add: jobs_inv_def enter_queue_def)
  moreover have "mutex_inv t'"
    by (rule mutex_enter[OF mx m, where t = "Adder i"]) (auto simp: t' enter_queue_def intro!: in_section_cong)
  moreover have "phase_inv t'" using ph by (simp add: t' enter_queue_def)
  ultimately show "twq_inv U items t'" using inv by (simp add: twq_inv_def)
qed

lemma enter_adds:
  assumes "apc t i = A_idle" and "adding a = [job]"
  shows "adds (enter_queue i a t) = insert job (adds t)"
  using assms by (auto simp: adds_def enter_queue_def split: if_splits) (metis adding.simps(3) empty_iff list.set(1))

lemma enter_under_way:
  assumes "apc t i = A_idle" and "adding a = [job]"
  shows "under_way U items (enter_queue i a t) = insert job (under_way U items t)"
proof -
  have "under_way U items t = adds t \<union> (under_way U items (t\<lparr>apc := \<lambda>_. A_idle\<rparr>))" for t
    by (auto simp: under_way_def adds_def)
  from this[of t] this[of "enter_queue i a t"] show ?thesis
    using enter_adds[OF assms] by (simp add: enter_queue_def)
qed

section \<open>The pool\<close>

subsection \<open>A job is in one place\<close>

lemma apart_sub:
  assumes inv: "apart_inv U items s" and len: "length (ms_queues s') = length (ms_queues s)"
    and hands: "\<And>i. set (hand (ms_pcs s' i)) \<subseteq> set (hand (ms_pcs s i))"
    and uw: "\<And>q. q < length (ms_queues s) \<Longrightarrow>
      under_way U items (ms_queues s' ! q) \<subseteq> under_way U items (ms_queues s ! q)"
  shows "apart_inv U items s'"
  unfolding apart_inv_def len
proof (intro conjI allI ballI impI)
  fix i j assume "j \<in> set (hand (ms_pcs s' i))"
  then have j: "j \<in> set (hand (ms_pcs s i))" using hands by blast
  then show "j \<noteq> NULL" "j + lfq_node_off U \<noteq> NULL" using inv unfolding apart_inv_def by blast+
  show "j \<notin> under_way U items (ms_queues s' ! q)" if "q < length (ms_queues s)" for q
    using j inv uw that unfolding apart_inv_def by blast
  fix k assume "j \<in> set (hand (ms_pcs s' k))"
  then show "i = k" using j hands inv unfolding apart_inv_def by blast
next
  fix p q assume p: "p < length (ms_queues s)" "q < length (ms_queues s)" "p \<noteq> q"
  then have "under_way U items (ms_queues s ! p) \<inter> under_way U items (ms_queues s ! q) = {}"
    using inv unfolding apart_inv_def by blast
  then show "under_way U items (ms_queues s' ! p) \<inter> under_way U items (ms_queues s' ! q) = {}"
    using uw p by blast
qed

lemma apart_enter:
  assumes inv: "apart_inv U items s" and q: "q < length (ms_queues s)"
    and i: "hand (ms_pcs s i) = [j]" "hand pc = []"
    and s': "ms_queues s' = (ms_queues s)[q := t']" "ms_pcs s' = (ms_pcs s)(i := pc)"
    and t': "under_way U items t' = insert j (under_way U items (ms_queues s ! q))"
  shows "apart_inv U items s'"
proof -
  have fresh: "j \<notin> under_way U items (ms_queues s ! p)" if "p < length (ms_queues s)" for p
    using inv i(1) that unfolding apart_inv_def by (metis list.set_intros(1))
  have mine: "k = i" if "j \<in> set (hand (ms_pcs s k))" for k
    using inv i(1) that unfolding apart_inv_def by (metis list.set_intros(1))
  have uw: "under_way U items (ms_queues s' ! p) =
      (if p = q then insert j (under_way U items (ms_queues s ! p)) else under_way U items (ms_queues s ! p))"
    if "p < length (ms_queues s)" for p
    using that s'(1) t' by (auto simp: nth_list_update)
  have hd: "set (hand (ms_pcs s' k)) = (if k = i then {} else set (hand (ms_pcs s k)))" for k
    using i(2) s'(2) by auto
  have len: "length (ms_queues s') = length (ms_queues s)" using s'(1) by simp
  show ?thesis
    unfolding apart_inv_def len
  proof (intro conjI allI ballI impI)
    fix k l assume "l \<in> set (hand (ms_pcs s' k))"
    then have k: "k \<noteq> i" "l \<in> set (hand (ms_pcs s k))" using hd by (auto split: if_splits)
    then show "l \<noteq> NULL" "l + lfq_node_off U \<noteq> NULL" using inv unfolding apart_inv_def by blast+
    have "l \<noteq> j" using mine k by blast
    then show "l \<notin> under_way U items (ms_queues s' ! p)" if "p < length (ms_queues s)" for p
      using inv k(2) uw[OF that] that unfolding apart_inv_def by auto
    fix k' assume "l \<in> set (hand (ms_pcs s' k'))"
    then have "l \<in> set (hand (ms_pcs s k'))" using hd by (auto split: if_splits)
    then show "k = k'" using inv k(2) unfolding apart_inv_def by blast
  next
    fix p p' assume p: "p < length (ms_queues s)" "p' < length (ms_queues s)" "p \<noteq> p'"
    then have "under_way U items (ms_queues s ! p) \<inter> under_way U items (ms_queues s ! p') = {}"
      using inv unfolding apart_inv_def by blast
    then show "under_way U items (ms_queues s' ! p) \<inter> under_way U items (ms_queues s' ! p') = {}"
      using fresh p uw by (auto split: if_splits)
  qed
qed

lemma apart_call:
  assumes inv: "apart_inv U items s" and "job \<noteq> NULL" and "job + lfq_node_off U \<noteq> NULL"
    and new: "job \<notin> man_under_way U items s"
  shows "apart_inv U items (s\<lparr>ms_pcs := (ms_pcs s)(i := enters pol job), called := c\<rparr>)"
proof -
  have "job \<notin> set (hand (ms_pcs s k))" for k using new by (auto simp: man_under_way_def)
  moreover have "job \<notin> under_way U items (ms_queues s ! q)" if "q < length (ms_queues s)" for q
    using new that by (auto simp: man_under_way_def)
  moreover have "hand (enters pol job) = [job]" by (cases pol) simp_all
  ultimately show ?thesis
    using assms(1-3) unfolding apart_inv_def by (auto split: if_splits)
qed

subsection \<open>Counting\<close>

lemma tally_same:
  assumes "tally_inv s" and "map accepted (ms_queues s') = map accepted (ms_queues s)"
    and "carried s' = carried s" and "called s' = called s"
  shows "tally_inv s'"
  using assms(1) unfolding tally_inv_def assms(2-4) .

text \<open>What the caller \<open>i\<close> and the queue \<open>q\<close> contribute to \<open>carried\<close>, and the rest\<close>

definition carried_else :: "nat \<Rightarrow> nat \<Rightarrow> ('q, 'e) man_sys \<Rightarrow> ptr set" where
  "carried_else q i s = {j. \<exists>k. k \<noteq> i \<and> j \<in> set (hand (ms_pcs s k))}
     \<union> (\<Union>p \<in> {..<length (ms_queues s)} - {q}. adds (ms_queues s ! p))"

lemma carried_split:
  assumes "q < length (ms_queues s)"
  shows "carried s = carried_else q i s \<union> adds (ms_queues s ! q) \<union> set (hand (ms_pcs s i))"
  using assms unfolding carried_def carried_else_def by auto

lemma carried_split_update:
  assumes "q < length (ms_queues s)" and "ms_queues s' = (ms_queues s)[q := t']"
    and "ms_pcs s' = (ms_pcs s)(i := pc)"
  shows "carried s' = carried_else q i s \<union> adds t' \<union> set (hand pc)"
proof -
  have "carried_else q i s' = carried_else q i s"
    using assms(2,3) by (auto simp: carried_else_def)
  then show ?thesis using carried_split[of q s' i] assms by simp
qed

lemma carried_update:
  assumes "q < length (ms_queues s)" and "ms_queues s' = (ms_queues s)[q := t']"
    and "ms_pcs s' = (ms_pcs s)(i := pc)"
    and "adds t' \<union> set (hand pc) = adds (ms_queues s ! q) \<union> set (hand (ms_pcs s i))"
  shows "carried s' = carried s"
  unfolding carried_split_update[OF assms(1-3)] carried_split[OF assms(1), of i] using assms(4) by blast

text \<open>A caller puts its job into the queue \<open>q\<close>: nobody carries it any more.\<close>

lemma tally_put:
  assumes tally: "tally_inv s" and inv: "apart_inv U items s" and q: "q < length (ms_queues s)"
    and c: "calls_ok U js (apc (ms_queues s ! q))"
    and i: "adding (apc (ms_queues s ! q) i) = [j]" "hand (ms_pcs s i) = []"
    and s': "ms_queues s' = (ms_queues s)[q := t']" "ms_pcs s' = (ms_pcs s)(i := pc)" "called s' = called s"
    and pc: "hand pc = []"
    and t': "accepted t' = accepted (ms_queues s ! q) @ [j]" "adding (apc t' i) = []"
      "\<And>k. k \<noteq> i \<Longrightarrow> apc t' k = apc (ms_queues s ! q) k"
  shows "tally_inv s'"
proof -
  have mine: "j \<in> adds (ms_queues s ! q)" using i(1) by (auto simp: adds_def intro: exI[of _ i])
  have uw: "j \<in> under_way U items (ms_queues s ! q)" using mine adds_under_way by blast
  have "j \<notin> adds t'"
  proof
    assume "j \<in> adds t'"
    then obtain k where k: "j \<in> set (adding (apc t' k))" by (auto simp: adds_def)
    then have "k \<noteq> i" using t'(2) by auto
    moreover have "k = i" using k t'(3)[OF \<open>k \<noteq> i\<close>] c i(1) unfolding calls_ok_def by simp
    ultimately show False by simp
  qed
  moreover have "l \<in> adds (ms_queues s ! q) \<longleftrightarrow> l \<in> insert j (adds t')" for l
  proof -
    have "(\<exists>k. l \<in> set (adding (apc (ms_queues s ! q) k))) \<longleftrightarrow> l = j \<or> (\<exists>k. k \<noteq> i \<and> l \<in> set (adding (apc t' k)))"
      using i(1) t'(3) by (metis empty_iff insert_iff list.set(1) list.set(2))
    moreover have "(\<exists>k. k \<noteq> i \<and> l \<in> set (adding (apc t' k))) \<longleftrightarrow> (\<exists>k. l \<in> set (adding (apc t' k)))"
      using t'(2) by (metis empty_iff list.set(1))
    ultimately show ?thesis by (simp add: adds_def)
  qed
  ultimately have adds: "adds (ms_queues s ! q) = insert j (adds t')" "j \<notin> adds t'" by blast+
  have "j \<notin> adds (ms_queues s ! p)" if "p < length (ms_queues s)" "p \<noteq> q" for p
    using inv uw that q adds_under_way unfolding apart_inv_def by blast
  moreover have "j \<notin> set (hand (ms_pcs s k))" for k
    using inv uw q unfolding apart_inv_def by blast
  ultimately have "j \<notin> carried_else q i s" by (auto simp: carried_else_def)
  then have "carried s' = carried s - {j}"
    using carried_split_update[OF q s'(1,2)] carried_split[OF q, of i] adds i(2) pc by simp
  moreover have "j \<in> carried s" using mine q by (auto simp: carried_def)
  moreover have "accepted_all s' = accepted_all s + {#j#}"
    using mset_concat_update[of q "map accepted (ms_queues s)" j] q s'(1) t'(1) by (simp add: map_update)
  ultimately show ?thesis using tally s'(3) unfolding tally_inv_def by auto
qed

subsection \<open>Where the callers are\<close>

lemma nth_apc_update:
  "q < length qs \<Longrightarrow> (\<lambda>p. apc (qs[q := t'] ! p) k) = (\<lambda>p. apc (qs ! p) k)(q := apc t' k)"
  by (auto simp: fun_eq_iff nth_list_update)

lemma fits_update:
  assumes "fits_inv s" and q: "q < length (ms_queues s)"
    and s': "ms_queues s' = (ms_queues s)[q := t']" "ms_pcs s' = (ms_pcs s)(i := pc)"
    and "\<And>k. k \<noteq> i \<Longrightarrow> apc t' k = apc (ms_queues s ! q) k"
    and "pc_fits (length (ms_queues s)) ((\<lambda>p. apc (ms_queues s ! p) i)(q := apc t' i)) pc"
  shows "fits_inv s'"
  using assms unfolding fits_inv_def by (auto simp: nth_apc_update fun_upd_idem)

text \<open>A caller that has only a job in its hand is in no queue.\<close>

lemma hand_outside:
  assumes "pc_fits n a pc" and "hand pc = [j]"
  shows "\<forall>p < n. a p = A_idle"
  using assms by (cases pc) auto

subsection \<open>The steps of a caller\<close>

lemma man_invD:
  assumes "man_inv U items s"
  shows "lfq_fifo U items" and "ms_nr s \<noteq> 0" and "length (ms_queues s) = unat (ms_nr s)"
    and "q < length (ms_queues s) \<Longrightarrow> twq_inv U items (ms_queues s ! q)"
    and "fits_inv s" and "apart_inv U items s" and "tally_inv s"
    and "pc_fits (length (ms_queues s)) (\<lambda>q. apc (ms_queues s ! q) i) (ms_pcs s i)"
  using assms unfolding man_inv_def fits_inv_def by blast+

lemma man_inv_local:
  assumes inv: "man_inv U items s" and "hand pc = hand (ms_pcs s i)"
    and "pc_fits (length (ms_queues s)) (\<lambda>q. apc (ms_queues s ! q) i) pc"
  shows "man_inv U items (s\<lparr>ms_idx := x, ms_pcs := (ms_pcs s)(i := pc)\<rparr>)" (is "man_inv U items ?s")
proof -
  have "fits_inv ?s" using man_invD(5)[OF inv] assms(3) by (simp add: fits_inv_def)
  moreover have "apart_inv U items ?s"
    by (rule apart_sub[OF man_invD(6)[OF inv]]) (use assms(2) in auto)
  moreover have "carried ?s = carried s" using assms(2) by (auto simp: carried_def)
  then have "tally_inv ?s" by (intro tally_same[OF man_invD(7)[OF inv]]) simp_all
  ultimately show ?thesis using inv by (simp add: man_inv_def)
qed

lemma man_inv_queues:
  assumes inv: "man_inv U items s" and q: "q < length (ms_queues s)" and t': "twq_inv U items t'"
    and s': "ms_queues s' = (ms_queues s)[q := t']" "ms_nr s' = ms_nr s"
    and "fits_inv s'" and "apart_inv U items s'" and "tally_inv s'"
  shows "man_inv U items s'"
proof -
  have "twq_inv U items (ms_queues s' ! p)" if "p < length (ms_queues s')" for p
    using inv q t' s' that by (auto simp: man_inv_def nth_list_update)
  then show ?thesis using assms by (simp add: man_inv_def)
qed

lemma man_inv_enter:
  assumes inv: "man_inv U items s" and q: "q < length (ms_queues s)"
    and i: "hand (ms_pcs s i) = [j]" "hand pc = []"
    and t': "twq_inv U items t'" "under_way U items t' = insert j (under_way U items (ms_queues s ! q))"
      "adds t' = insert j (adds (ms_queues s ! q))" "accepted t' = accepted (ms_queues s ! q)"
      "\<And>k. k \<noteq> i \<Longrightarrow> apc t' k = apc (ms_queues s ! q) k"
    and pc: "pc_fits (length (ms_queues s)) ((\<lambda>_. A_idle)(q := apc t' i)) pc"
  shows "man_inv U items (s\<lparr>ms_queues := (ms_queues s)[q := t'], ms_pcs := (ms_pcs s)(i := pc)\<rparr>)"
    (is "man_inv U items ?s")
proof (rule man_inv_queues[OF inv q t'(1)])
  have out: "\<forall>p < length (ms_queues s). apc (ms_queues s ! p) i = A_idle"
    by (rule hand_outside[OF man_invD(8)[OF inv] i(1)])
  have "pc_fits (length (ms_queues s)) ((\<lambda>p. apc (ms_queues s ! p) i)(q := apc t' i)) pc"
    using pc out by (cases pc) (auto split: if_splits)
  then show "fits_inv ?s"
    by (intro fits_update[OF man_invD(5)[OF inv] q, where t' = t' and i = i]) (simp_all add: t'(5))
  show "apart_inv U items ?s"
    by (rule apart_enter[OF man_invD(6)[OF inv] q i, where t' = t']) (simp_all add: t'(2))
  have "carried ?s = carried s"
    by (rule carried_update[OF q, where t' = t' and i = i and pc = pc]) (simp_all add: t'(3) i)
  moreover have "(map accepted (ms_queues s))[q := accepted t'] = map accepted (ms_queues s)"
    using q t'(4) by (metis list_update_id nth_map)
  ultimately show "tally_inv ?s"
    by (intro tally_same[OF man_invD(7)[OF inv]]) (simp_all add: map_update)
qed simp_all

lemma man_inv_inside:
  assumes inv: "man_inv U items s" and q: "q < length (ms_queues s)"
    and st: "adder_step U i (apc (ms_queues s ! q) i) (ms_queues s ! q) = Some t'"
    and i: "hand (ms_pcs s i) = []" "\<forall>p < length (ms_queues s). p \<noteq> q \<longrightarrow> apc (ms_queues s ! p) i = A_idle"
    and pc: "pc = (if apc t' i = A_idle then P_idle else P_in q)"
  shows "man_inv U items (s\<lparr>ms_queues := (ms_queues s)[q := t'], ms_pcs := (ms_pcs s)(i := pc)\<rparr>)"
    (is "man_inv U items ?s")
proof -
  let ?t = "ms_queues s ! q"
  note t' = inside_step[OF st man_invD(4)[OF inv q]]
  have none: "hand pc = []" by (simp add: pc)
  show ?thesis
  proof (rule man_inv_queues[OF inv q t'(1)])
    have "apc t' i \<noteq> A_put j" for j using t'(4) by (cases "apc t' i") auto
    then have "pc_fits (length (ms_queues s)) ((\<lambda>p. apc (ms_queues s ! p) i)(q := apc t' i)) pc"
      using i(2) q unfolding pc by auto
    then show "fits_inv ?s"
      by (intro fits_update[OF man_invD(5)[OF inv] q, where i = i and t' = t']) (simp_all add: t'(3))
    have "under_way U items (ms_queues ?s ! p) \<subseteq> under_way U items (ms_queues s ! p)"
      if "p < length (ms_queues s)" for p
      using that t'(2) q by (auto simp: nth_list_update)
    then show "apart_inv U items ?s"
      using none by (intro apart_sub[OF man_invD(6)[OF inv]]) simp_all
    show "tally_inv ?s"
    proof (cases "adding (apc ?t i)")
      case Nil
      have "(map accepted (ms_queues s))[q := accepted t'] = map accepted (ms_queues s)"
        using q t'(5) Nil by (metis append_Nil2 list_update_id nth_map)
      moreover have "adding (apc t' k) = adding (apc ?t k)" for k
        using t'(3,4) Nil by (cases "k = i") simp_all
      then have "adds t' = adds ?t" by (simp add: adds_def)
      then have "carried ?s = carried s"
        by (intro carried_update[OF q, where t' = t' and i = i and pc = pc]) (simp_all add: none i(1))
      ultimately show ?thesis
        by (intro tally_same[OF man_invD(7)[OF inv]]) (simp_all add: map_update)
    next
      case (Cons j js)
      then have j: "adding (apc ?t i) = [j]" by (cases "apc ?t i") auto
      obtain ks where "calls_ok U ks (apc ?t)"
        using man_invD(4)[OF inv q] by (auto simp: twq_inv_def jobs_inv_def)
      then show ?thesis
        using t' j by (intro tally_put[OF man_invD(7,6)[OF inv] q _ j i(1), where pc = pc and t' = t']) (simp_all add: none)
    qed
  qed simp_all
qed

lemma caller_inv:
  assumes inv: "man_inv U items s" and st: "caller_step U i (ms_pcs s i) s = Some (Inr (pc, s'))"
  shows "man_inv U items (s'\<lparr>ms_pcs := (ms_pcs s)(i := pc)\<rparr>)"
proof -
  let ?n = "length (ms_queues s)"
  note fits = man_invD(8)[OF inv, of i]
  have nr: "0 < unat (ms_nr s)" "?n = unat (ms_nr s)"
    using man_invD(2,3)[OF inv] by (simp_all add: unat_gt_0)
  have enter: "man_inv U items (s\<lparr>ms_queues := (ms_queues s)[q := t'], ms_pcs := (ms_pcs s)(i := pc)\<rparr>)"
    if c: "hand (ms_pcs s i) = [j]" "q < ?n" "hand pc = []"
      and e: "t' = enter_queue i (A_enqueue j) (ms_queues s ! q) \<and> pc = P_in q
        \<or> try_lock i j (ms_queues s ! q) = Some t' \<and> pc = RI_set j idx \<and> q = unat idx" for j q t' idx
  proof -
    let ?t = "ms_queues s ! q"
    have idle: "apc ?t i = A_idle" using hand_outside[OF fits c(1)] c(2) by blast
    have j: "j \<noteq> NULL" "j + lfq_node_off U \<noteq> NULL" "j \<notin> under_way U items ?t"
      using man_invD(6)[OF inv] c(1,2) unfolding apart_inv_def by (metis list.set_intros(1))+
    have tw: "twq_inv U items t'"
      using e enter_twq_inv[OF man_invD(4)[OF inv c(2)] idle j] by blast
    obtain a t where a: "adding a = [j]" "t' = enter_queue i a t" "a = A_enqueue j \<and> pc = P_in q \<or> a = A_put j \<and> pc = RI_set j idx \<and> q = unat idx"
        "apc t = apc ?t" "accepted t = accepted ?t" "adds t = adds ?t" "under_way U items t = under_way U items ?t"
      using e by (auto simp: try_lock_def take_mutex_def adds_def under_way_def split: if_splits)
    have "pc_fits ?n ((\<lambda>_. A_idle)(q := apc t' i)) pc"
      using a c(2) by (auto simp: enter_queue_def)
    moreover have "under_way U items t' = insert j (under_way U items ?t)" "adds t' = insert j (adds ?t)"
      using enter_under_way[of t i a j U items] enter_adds[of t i a j] a idle by simp_all
    moreover have "accepted t' = accepted ?t" "k \<noteq> i \<Longrightarrow> apc t' k = apc ?t k" for k
      using a by (simp_all add: enter_queue_def)
    ultimately show ?thesis by (intro man_inv_enter[OF inv c(2,1,3) tw])
  qed
  have inside: "man_inv U items (s'\<lparr>ms_pcs := (ms_pcs s)(i := pc)\<rparr>)"
    if "q < ?n" "hand (ms_pcs s i) = []" "\<forall>p < ?n. p \<noteq> q \<longrightarrow> apc (ms_queues s ! p) i = A_idle"
      and "in_queue q (inside U i q) s = Some (Inr (pc, s'))" for q
    using that by (auto simp: in_queue_def inside_def intro!: man_inv_inside[OF inv])
  show ?thesis
  proof (cases "ms_pcs s i")
    case P_idle
    then show ?thesis using st by simp
  next
    case (RR_read j)
    then show ?thesis using st fits man_inv_local[OF inv, of pc i "ms_idx s"] by auto
  next
    case (RR_move j idx)
    then show ?thesis using st fits nr man_inv_local[OF inv, of pc i]
      by (auto simp: word_le_nat_alt split: if_splits)
  next
    case (RR_add j idx)
    then show ?thesis using st fits enter[of j "unat idx" "enter_queue i (A_enqueue j) (ms_queues s ! unat idx)"]
      by (auto simp: in_queue_def bug_on_def split: if_splits)
  next
    case (RI_read j)
    then show ?thesis using st fits man_inv_local[OF inv, of pc i "ms_idx s"] by auto
  next
    case (RI_try j idx0)
    let ?idx = "if idx0 \<ge> ms_nr s then 0 else idx0"
    have q: "unat ?idx < ?n" using nr by (auto simp: word_le_nat_alt)
    show ?thesis
    proof (cases "try_lock i j (ms_queues s ! unat ?idx)")
      case None
      then have "pc = RI_try j (?idx + 1)" "s' = s"
        using st RI_try q by (auto simp: in_queue_def Let_def)
      then show ?thesis using RI_try fits man_inv_local[OF inv, of pc i "ms_idx s"] by simp
    next
      case (Some t')
      then have "pc = RI_set j ?idx" "s' = s\<lparr>ms_queues := (ms_queues s)[unat ?idx := t']\<rparr>"
        using st RI_try q by (simp_all add: in_queue_def Let_def del: if_split)
      then show ?thesis using RI_try q Some enter[of j "unat ?idx" t' ?idx] by simp
    qed
  next
    case (RI_set j idx)
    then show ?thesis using st fits man_inv_local[OF inv, of pc i "idx + 1"] by auto
  next
    case (RI_put j idx)
    then show ?thesis using st fits by (intro inside[of "unat idx"]) (auto split: if_splits)
  next
    case (P_in q)
    then show ?thesis using st fits by (intro inside[of q]) auto
  qed
qed

subsection \<open>All of it\<close>

lemma queue_inv:
  assumes inv: "man_inv U items s" and q: "q < length (ms_queues s)"
    and t: "t = (ms_queues s ! q)\<lparr>env := e\<rparr>" "step sp U items J self t t'" "apc t' = apc t"
  shows "man_inv U items (s\<lparr>ms_queues := (ms_queues s)[q := t'], ms_env := e'\<rparr>)" (is "man_inv U items ?s")
proof -
  have tw: "twq_inv U items t" using man_invD(4)[OF inv q] t(1) by simp
  have keep: "accepted t' = accepted (ms_queues s ! q)" "apc t' = apc (ms_queues s ! q)"
      "under_way U items t' \<subseteq> under_way U items (ms_queues s ! q)"
    using quiet_step[OF t(2,3) tw] t(1,3) by simp_all
  show ?thesis
  proof (rule man_inv_queues[OF inv q twq_inv_step[OF t(2) tw]])
    have "apc ((ms_queues s)[q := t'] ! p) = apc (ms_queues s ! p)" for p
      using keep(2) q by (auto simp: nth_list_update)
    then show "fits_inv ?s" using man_invD(5)[OF inv] by (simp add: fits_inv_def)
    have "under_way U items (ms_queues ?s ! p) \<subseteq> under_way U items (ms_queues s ! p)"
      if "p < length (ms_queues s)" for p
      using that keep(3) q by (auto simp: nth_list_update)
    then show "apart_inv U items ?s" by (intro apart_sub[OF man_invD(6)[OF inv]]) simp_all
    have "(map accepted (ms_queues s))[q := accepted t'] = map accepted (ms_queues s)"
      using q keep(1) by (metis list_update_id nth_map)
    moreover have "carried ?s = carried s"
      by (rule carried_update[OF q, where t' = t' and i = 0 and pc = "ms_pcs s 0"])
        (simp_all add: adds_def keep(2))
    ultimately show "tally_inv ?s"
      by (intro tally_same[OF man_invD(7)[OF inv]]) (simp_all add: map_update)
  qed simp_all
qed

lemma call_inv:
  assumes inv: "man_inv U items s" and i: "ms_pcs s i = P_idle" and job: "job \<noteq> NULL" "job + lfq_node_off U \<noteq> NULL"
    and new: "job \<notin> man_under_way U items s"
  shows "man_inv U items (s\<lparr>ms_pcs := (ms_pcs s)(i := enters pol job), called := called s @ [job]\<rparr>)"
    (is "man_inv U items ?s")
proof -
  have e: "hand (enters pol job) = [job]" "pc_fits n a (enters pol job) = pc_fits n a P_idle" for n a
    by (cases pol; simp)+
  have "\<forall>p < length (ms_queues s). apc (ms_queues s ! p) i = A_idle"
    using man_invD(8)[OF inv, of i] i by simp
  then have "fits_inv ?s" using man_invD(5)[OF inv] e(2) by (auto simp: fits_inv_def)
  moreover have "apart_inv U items ?s" by (rule apart_call[OF man_invD(6)[OF inv] job new])
  moreover have "job \<notin> carried s"
    using new adds_under_way by (fastforce simp: carried_def man_under_way_def)
  moreover have "carried ?s = insert job (carried s)"
    using i e(1) by (auto simp: carried_def) (metis empty_iff hand.simps(6) list.set(1))
  then have "tally_inv ?s"
    using man_invD(7)[OF inv] \<open>job \<notin> carried s\<close> by (auto simp: tally_inv_def)
  ultimately show ?thesis using inv by (simp add: man_inv_def)
qed

lemma man_inv_step:
  assumes "man_step pol sp U items J self s s'" and inv: "man_inv U items s"
  shows "man_inv U items s'"
  using assms(1)
proof (cases rule: man_step.cases)
  case (queue q t t')
  then show ?thesis using queue_inv[OF inv queue(3,4,5,6)] by simp
next
  case (caller i pc s1)
  then show ?thesis using caller_inv[OF inv, of i] by simp
next
  case (call i job)
  then show ?thesis using call_inv[OF inv, of i] by simp
qed

lemma man_inv_start:
  assumes fifo: "lfq_fifo U items" and st: "man_start U items s"
  shows "man_inv U items s"
proof -
  have t: "initial U items (ms_queues s ! q)" if "q < length (ms_queues s)" for q
    using st that by (simp add: man_start_def)
  then have a: "apc (ms_queues s ! q) = (\<lambda>_. A_idle)" "accepted (ms_queues s ! q) = []"
      "tq_lfq (twq (ms_queues s ! q)) = tq_lfq (twq (ms_queues s ! q))" if "q < length (ms_queues s)" for q
    using that by (simp_all add: initial_def)
  have uw: "under_way U items (ms_queues s ! q) = {}" if q: "q < length (ms_queues s)" for q
  proof -
    let ?t = "ms_queues s ! q"
    obtain t0 ops where "twq ?t = (snd (threadwq_init U t0))\<lparr>tq_ops := ops\<rparr>"
      using t[OF q] by (auto simp: initial_def)
    then have "holds_jobs U items (tq_lfq (twq ?t)) []"
      using holds_jobs_init[OF fifo] by (simp add: threadwq_init_def)
    then show ?thesis
      using t[OF q] by (simp add: under_way_eq initial_def adds_def)
  qed
  have "fits_inv s" using st a by (simp add: fits_inv_def man_start_def)
  moreover have "apart_inv U items s" using st uw by (simp add: apart_inv_def man_start_def)
  moreover have "accepted_all s = {#}" "carried s = {}"
    using st a by (auto simp: carried_def adds_def man_start_def initial_def)
  then have "tally_inv s" using st by (simp add: tally_inv_def man_start_def)
  moreover have "twq_inv U items (ms_queues s ! q)" if "q < length (ms_queues s)" for q
    using t[OF that] by (rule twq_inv_initial[OF fifo])
  ultimately show ?thesis using fifo st by (simp add: man_inv_def man_start_def)
qed

interpretation callers: machine_invariant
  "\<lambda>s. lfq_fifo U items \<and> man_start U items s" "man_step pol sp U items J self" "man_inv U items"
  for pol sp and U :: "'q urcu" and items and J :: "ptr \<Rightarrow> 'e threadwq_job" and self
  by unfold_locales (auto intro: man_inv_start man_inv_step)

lemma reachable_man_inv:
  assumes "lfq_fifo U items" and "man_start U items s0" and "(man_step pol sp U items J self)\<^sup>*\<^sup>* s0 s"
  shows "man_inv U items s"
  using callers.reachable_inv assms by blast

section \<open>A call can always return\<close>

text \<open>How many statements a caller has left, when no mutex keeps it waiting\<close>

fun own_left :: "(nat \<Rightarrow> adder_pc) \<Rightarrow> caller_pc \<Rightarrow> nat" where
  "own_left a P_idle = 0"
| "own_left a (RR_read _) = 7" | "own_left a (RR_move _ _) = 6" | "own_left a (RR_add _ _) = 5"
| "own_left a (RI_read _) = 7" | "own_left a (RI_try _ _) = 6" | "own_left a (RI_set _ _) = 5"
| "own_left a (RI_put _ _) = 4"
| "own_left a (P_in q) =
     (case a q of A_enqueue _ \<Rightarrow> 4 | A_lock \<Rightarrow> 3 | A_signal \<Rightarrow> 2 | A_unlock \<Rightarrow> 1 | _ \<Rightarrow> 0)"

abbreviation left :: "nat \<Rightarrow> ('q, 'e) man_sys \<Rightarrow> nat" where
  "left i s \<equiv> own_left (\<lambda>q. apc (ms_queues s ! q) i) (ms_pcs s i)"

text \<open>The queue whose mutex the caller is after, and whether it has to wait for it\<close>

fun wants :: "u32 \<Rightarrow> caller_pc \<Rightarrow> nat" where
  "wants nr (RI_try _ idx) = unat (if idx \<ge> nr then 0 else idx)"
| "wants nr (P_in q) = q"
| "wants nr _ = 0"

abbreviation mutex_at :: "('q, 'e) man_sys \<Rightarrow> nat \<Rightarrow> thread option" where
  "mutex_at s q \<equiv> tq_mutex (twq (ms_queues s ! q))"

fun locks :: "(nat \<Rightarrow> adder_pc) \<Rightarrow> caller_pc \<Rightarrow> bool" where
  "locks a (RI_try _ _) = True"
| "locks a (P_in q) = (a q = A_lock)"
| "locks a _ = False"

definition waits :: "('q, 'e) man_sys \<Rightarrow> nat \<Rightarrow> bool" where
  "waits s i \<longleftrightarrow> locks (\<lambda>q. apc (ms_queues s ! q) i) (ms_pcs s i)
     \<and> mutex_at s (wants (ms_nr s) (ms_pcs s i)) \<noteq> None"

text \<open>How many steps the holder of a mutex is from giving it back\<close>

definition hold_left :: "('q, 'e) man_sys \<Rightarrow> nat \<Rightarrow> nat" where
  "hold_left s q =
     (case mutex_at s q of
        None \<Rightarrow> 0
      | Some Worker \<Rightarrow> 1
      | Some Main \<Rightarrow> (case mpc (ms_queues s ! q) of M_count \<Rightarrow> 3 | M_broadcast \<Rightarrow> 2 | _ \<Rightarrow> 1)
      | Some (Adder k) \<Rightarrow> left k s)"

lemma own_left_bound: "own_left a pc \<le> 7"
  by (cases pc) (auto split: adder_pc.splits)

lemma hold_left_bound: "hold_left s q \<le> 7"
  using own_left_bound by (auto simp: hold_left_def split: option.splits thread.splits main_pc.splits)

lemma alive_step: "map wpc (ms_queues s') = map wpc (ms_queues s) \<Longrightarrow> alive s \<Longrightarrow> alive s'"
proof -
  assume "map wpc (ms_queues s') = map wpc (ms_queues s)"
  then have "wpc ` set (ms_queues s') = wpc ` set (ms_queues s)" by (metis list.set_map)
  then show "alive s \<Longrightarrow> alive s'" unfolding alive_def by (metis imageE imageI)
qed

text \<open>The statement of a caller, in the queue where it takes place\<close>

definition moved :: "nat \<Rightarrow> ('q, 'e) sys \<Rightarrow> ('q, 'e) sys \<Rightarrow> bool" where
  "moved i t t' \<longleftrightarrow> wpc t' = wpc t \<and> mpc t' = mpc t \<and> started t' = started t
     \<and> prefix (accepted t) (accepted t') \<and> (\<forall>k. k \<noteq> i \<longrightarrow> apc t' k = apc t k)
     \<and> (tq_mutex (twq t') = tq_mutex (twq t) \<or> tq_mutex (twq t') = None \<or> tq_mutex (twq t') = Some (Adder i))"

lemma moved_refl [simp]: "moved i t t"
  by (simp add: moved_def)

lemma moved_enter [simp]: "moved i t (enter_queue i a t)"
  by (simp add: moved_def enter_queue_def)

lemma moved_try: "try_lock i j t = Some t' \<Longrightarrow> moved i t t'"
  by (auto simp: try_lock_def take_mutex_def moved_def enter_queue_def split: if_splits)

lemma moved_inside: "inside U i q t = Some (Inr (pc, t')) \<Longrightarrow> moved i t t'"
  by (cases "apc t i") (auto simp: inside_def moved_def thread_ops split: if_splits)

lemma in_queue_frame:
  assumes "in_queue q f s = Some (Inr (pc, s'))"
    and "\<And>t'. f (ms_queues s ! q) = Some (Inr (pc, t')) \<Longrightarrow> moved i (ms_queues s ! q) t'"
  shows "length (ms_queues s') = length (ms_queues s) \<and> ms_nr s' = ms_nr s \<and> called s' = called s
    \<and> (\<forall>p. moved i (ms_queues s ! p) (ms_queues s' ! p))"
proof -
  obtain t' where t': "q < length (ms_queues s)" "f (ms_queues s ! q) = Some (Inr (pc, t'))"
      "s' = s\<lparr>ms_queues := (ms_queues s)[q := t']\<rparr>"
    using assms(1) by (auto simp: in_queue_def bindR_eq_Inr split: if_splits)
  have "moved i (ms_queues s ! p) ((ms_queues s)[q := t'] ! p)" for p
    using assms(2)[OF t'(2)] t'(1) by (cases "p = q") simp_all
  then show ?thesis using t'(3) by simp
qed

lemma caller_moved:
  assumes st: "caller_step U i (ms_pcs s i) s = Some (Inr (pc, s'))"
  shows "length (ms_queues s') = length (ms_queues s) \<and> ms_nr s' = ms_nr s \<and> called s' = called s
    \<and> (\<forall>p. moved i (ms_queues s ! p) (ms_queues s' ! p))"
proof (cases "ms_pcs s i")
  case (RR_add j idx)
  then show ?thesis using st
    by (intro in_queue_frame[where q = "unat idx" and pc = pc]) (auto simp: bug_on_def split: if_splits)
next
  case (RI_try j idx)
  then show ?thesis using st
    by (intro in_queue_frame[where q = "unat (if idx \<ge> ms_nr s then 0 else idx)" and pc = pc])
      (auto simp: Let_def dest: moved_try split: option.splits)
next
  case (RI_put j idx)
  then show ?thesis using st
    by (intro in_queue_frame[where q = "unat idx" and pc = pc] moved_inside) (auto split: if_splits)
next
  case (P_in q)
  then show ?thesis using st by (intro in_queue_frame[where q = q and pc = pc] moved_inside) auto
qed (use st in \<open>auto split: if_splits\<close>)

lemma caller_frame:
  assumes "caller_step U i (ms_pcs s i) s = Some (Inr (pc, s'))"
  shows "map wpc (ms_queues s') = map wpc (ms_queues s)" and "ms_nr s' = ms_nr s" and "called s' = called s"
    and "k \<noteq> i \<Longrightarrow> apc (ms_queues s' ! p) k = apc (ms_queues s ! p) k"
    and "mutex_at s' p \<in> {mutex_at s p, None, Some (Adder i)}"
  using caller_moved[OF assms] by (auto simp: moved_def intro: nth_equalityI)

lemma in_section_at:
  assumes "man_inv U items s" and "q < length (ms_queues s)"
  shows "in_section (ms_queues s ! q) t \<longleftrightarrow> mutex_at s q = Some t"
  using man_invD(4)[OF assms] unfolding twq_inv_def mutex_inv_def by blast

text \<open>Inside a queue every statement but a lock that is taken can run.\<close>

lemma inside_moves:
  assumes "q < length (ms_queues s)" and "a = apc (ms_queues s ! q) i" and "a \<noteq> A_idle"
    and "a = A_lock \<longrightarrow> mutex_at s q = None"
  shows "\<exists>pc s'. in_queue q (inside U i q) s = Some (Inr (pc, s'))
    \<and> own_left (\<lambda>p. apc (ms_queues s' ! p) i) pc < (if \<exists>j. a = A_put j then 4 else own_left (\<lambda>_. a) (P_in q))"
proof -
  obtain t' where t': "adder_step U i a (ms_queues s ! q) = Some t'"
    using assms(3,4) by (cases a) (auto simp: take_mutex_def)
  let ?pc = "if apc t' i = A_idle then P_idle else P_in q"
  have "own_left (\<lambda>p. apc ((ms_queues s)[q := t'] ! p) i) ?pc < (if \<exists>j. a = A_put j then 4 else own_left (\<lambda>_. a) (P_in q))"
    using t' assms(1,3) by (cases a) (auto simp: thread_ops split: if_splits)
  then show ?thesis using t' assms(1,2) by (simp add: in_queue_def inside_def)
qed

lemma caller_moves:
  assumes inv: "man_inv U items s" and "ms_pcs s i \<noteq> P_idle" and "\<not> waits s i"
  shows "\<exists>pc s'. caller_step U i (ms_pcs s i) s = Some (Inr (pc, s'))
    \<and> own_left (\<lambda>q. apc (ms_queues s' ! q) i) pc < left i s"
proof -
  let ?n = "length (ms_queues s)"
  have nr: "0 < unat (ms_nr s)" "?n = unat (ms_nr s)"
    using man_invD(2,3)[OF inv] by (simp_all add: unat_gt_0)
  note fits = man_invD(8)[OF inv, of i]
  have job: "j \<noteq> NULL" if "hand (ms_pcs s i) = [j]" for j
    using man_invD(6)[OF inv] that unfolding apart_inv_def by (metis list.set_intros(1))
  show ?thesis
  proof (cases "ms_pcs s i")
    case P_idle
    then show ?thesis using assms(2) by simp
  next
    case (RR_add j idx)
    then show ?thesis using fits job by (simp add: in_queue_def enter_queue_def)
  next
    case (RI_try j idx)
    let ?idx = "if idx \<ge> ms_nr s then 0 else idx"
    have q: "unat ?idx < ?n" using nr by (auto simp: word_le_nat_alt)
    have "mutex_at s (unat ?idx) = None" using assms(3) RI_try by (simp add: waits_def)
    then obtain t' where "try_lock i j (ms_queues s ! unat ?idx) = Some t'"
      by (simp add: try_lock_def take_mutex_def)
    then have "caller_step U i (ms_pcs s i) s
        = Some (Inr (RI_set j ?idx, s\<lparr>ms_queues := (ms_queues s)[unat ?idx := t']\<rparr>))"
      using q RI_try by (simp add: in_queue_def Let_def del: if_split)
    then show ?thesis using RI_try by simp
  next
    case (RI_put j idx)
    have "j \<in> set (adding (apc (ms_queues s ! unat idx) i))" using RI_put fits by simp
    moreover obtain js where "calls_ok U js (apc (ms_queues s ! unat idx))"
      using man_invD(4)[OF inv, of "unat idx"] RI_put fits by (auto simp: twq_inv_def jobs_inv_def)
    ultimately have "j \<noteq> NULL" using calls_okD(1) by blast
    then show ?thesis
      using RI_put fits inside_moves[of "unat idx" s "A_put j" i U] by simp
  next
    case (P_in q)
    then show ?thesis
      using fits assms(3) inside_moves[of q s "apc (ms_queues s ! q) i" i U] by (auto simp: waits_def)
  qed (simp_all)
qed

lemma caller_no_fault:
  assumes inv: "man_inv U items s"
  shows "caller_step U i (ms_pcs s i) s \<noteq> Some (Inl e)"
proof (cases "ms_pcs s i = P_idle \<or> waits s i")
  case False
  then show ?thesis using caller_moves[OF inv, of i] by auto
next
  case True
  have nr: "0 < unat (ms_nr s)" "length (ms_queues s) = unat (ms_nr s)"
    using man_invD(2,3)[OF inv] by (simp_all add: unat_gt_0)
  from True show ?thesis
    using nr man_invD(8)[OF inv, of i]
    by (cases "ms_pcs s i") (auto simp: waits_def in_queue_def inside_def Let_def word_le_nat_alt split: prod.splits)
qed

text \<open>The holder of a mutex can run until it has given it back.\<close>

lemma quiet_holder:
  assumes inv: "man_inv U items s" and al: "alive s" and q: "q < length (ms_queues s)"
    and st: "step sp U items J (self q) ((ms_queues s ! q)\<lparr>env := ms_env s\<rparr>) t'"
    and t': "apc t' = apc (ms_queues s ! q)" "wpc t' \<noteq> W_abort"
  shows "\<exists>s'. man_step pol sp U items J self s s' \<and> alive s' \<and> ms_pcs s' = ms_pcs s
    \<and> ms_nr s' = ms_nr s \<and> called s' = called s \<and> (\<forall>p. apc (ms_queues s' ! p) = apc (ms_queues s ! p))
    \<and> ms_queues s' ! q = t'"
proof -
  let ?s = "s\<lparr>ms_queues := (ms_queues s)[q := t'], ms_env := env t'\<rparr>"
  have "man_step pol sp U items J self s ?s"
    by (rule man_step.queue[where self = self and q = q, OF al q refl]) (use st t'(1) in simp_all)
  moreover have "alive ?s"
    using al t'(2) set_update_subset_insert[of "ms_queues s" q t'] by (auto simp: alive_def)
  moreover have "apc ((ms_queues s)[q := t'] ! p) = apc (ms_queues s ! p)" for p
    using q t'(1) by (cases "p = q") simp_all
  ultimately show ?thesis using q by (intro exI[of _ ?s]) simp
qed

lemma section_pc:
  assumes "pc_fits n a pc" and q: "q < n" "a q \<noteq> A_idle" "a q \<noteq> A_lock"
  shows "pc \<noteq> P_idle \<and> \<not> locks a pc \<and> 0 < own_left a pc"
proof (cases pc)
  case (P_in p)
  then have "p = q" using assms by auto
  then show ?thesis using P_in assms by (cases "a q") auto
qed (use assms in auto)

lemma main_gives_back:
  assumes "mpc t \<in> {M_count, M_broadcast, M_unlock}" and "tq_mutex (twq t) = Some Main"
  shows "\<exists>t'. main_step True (mpc t) t = Some t' \<and> apc t' = apc t \<and> wpc t' = wpc t
    \<and> (mpc t = M_count \<and> mpc t' = M_broadcast \<and> tq_mutex (twq t') = Some Main
      \<or> mpc t = M_broadcast \<and> mpc t' = M_unlock \<and> tq_mutex (twq t') = Some Main
      \<or> mpc t = M_unlock \<and> tq_mutex (twq t') = None)"
proof -
  consider "mpc t = M_count" | "mpc t = M_broadcast" | "mpc t = M_unlock" using assms(1) by blast
  then show ?thesis by cases (simp_all add: assms(2) drop_mutex_def wake_def)
qed

lemma holder_moves:
  assumes inv: "man_inv U items s" and al: "alive s" and q: "q < length (ms_queues s)"
    and t: "mutex_at s q = Some t"
  shows "\<exists>s'. man_step pol sp U items J self s s' \<and> alive s' \<and> hold_left s' q < hold_left s q
    \<and> ms_nr s' = ms_nr s \<and> called s' = called s \<and> (\<forall>k. ms_pcs s k = P_idle \<longrightarrow> ms_pcs s' k = P_idle)
    \<and> (\<forall>i. t \<noteq> Adder i \<longrightarrow> ms_pcs s' i = ms_pcs s i
        \<and> (\<forall>p. apc (ms_queues s' ! p) i = apc (ms_queues s ! p) i))"
proof -
  let ?q = "ms_queues s ! q" and ?t = "(ms_queues s ! q)\<lparr>env := ms_env s\<rparr>"
  have sec: "in_section ?q t" using in_section_at[OF inv q] t by simp
  have run: "wpc ?q \<noteq> W_abort" using al q by (simp add: alive_def)
  have quiet: ?thesis
    if st: "step sp U items J (self q) ?t t'" and t': "apc t' = apc ?q" "wpc t' \<noteq> W_abort"
      and less: "\<And>s'. ms_queues s' ! q = t' \<Longrightarrow> ms_pcs s' = ms_pcs s \<Longrightarrow> hold_left s' q < hold_left s q" for t'
  proof -
    obtain s' where "man_step pol sp U items J self s s'" "alive s'" "ms_pcs s' = ms_pcs s"
        "ms_nr s' = ms_nr s" "called s' = called s" "\<forall>p. apc (ms_queues s' ! p) = apc (ms_queues s ! p)" "ms_queues s' ! q = t'"
      using quiet_holder[where self = self and q = q and pol = pol, OF inv al q st t'] by blast
    then show ?thesis using less[of s'] by auto
  qed
  show ?thesis
  proof (cases t)
    case Worker
    then have "wpc ?q = W_wait \<or> wpc ?q = W_unlock" using sec by simp
    then obtain t' where t': "worker_step U J (self q) (wpc ?t) ?t = Some t'" "tq_mutex (twq t') = None"
        "apc t' = apc ?q" "wpc t' \<noteq> W_abort"
      by (auto simp: drop_mutex_def)
    then show ?thesis
      using t Worker by (intro quiet[OF step.worker[OF t'(1)]]) (simp_all add: hold_left_def)
  next
    case Main
    then have "mpc ?t \<in> {M_count, M_broadcast, M_unlock}" using sec by simp
    from main_gives_back[OF this] obtain t' where t': "main_step True (mpc ?t) ?t = Some t'"
        "apc t' = apc ?q" "wpc t' = wpc ?q"
        "mpc ?q = M_count \<and> mpc t' = M_broadcast \<and> tq_mutex (twq t') = Some Main
          \<or> mpc ?q = M_broadcast \<and> mpc t' = M_unlock \<and> tq_mutex (twq t') = Some Main
          \<or> mpc ?q = M_unlock \<and> tq_mutex (twq t') = None"
      using t Main by auto
    have "wpc ?t \<noteq> W_abort" using run by simp
    then show ?thesis
      using t Main t' run by (intro quiet[OF step.main[OF _ t'(1)]]) (auto simp: hold_left_def)
  next
    case (Adder k)
    then have k: "apc ?q k \<noteq> A_idle" "apc ?q k \<noteq> A_lock" using sec by auto
    have fits: "pc_fits (length (ms_queues s)) (\<lambda>q. apc (ms_queues s ! q) k) (ms_pcs s k)"
      by (rule man_invD(8)[OF inv])
    from section_pc[OF this q k] have "ms_pcs s k \<noteq> P_idle" "\<not> waits s k" "left k s > 0"
      by (simp_all add: waits_def)
    then obtain pc s1 where c: "caller_step U k (ms_pcs s k) s = Some (Inr (pc, s1))"
        "own_left (\<lambda>q. apc (ms_queues s1 ! q) k) pc < left k s"
      using caller_moves[OF inv] by blast
    let ?s = "s1\<lparr>ms_pcs := (ms_pcs s)(k := pc)\<rparr>"
    note f = caller_frame[OF c(1)]
    have "alive s1" by (rule alive_step[OF f(1) al])
    then have "alive ?s" by (simp add: alive_def)
    moreover have "man_step pol sp U items J self s ?s" by (rule man_step.caller[OF al c(1)])
    moreover have "mutex_at s1 q \<in> {mutex_at s q, None, Some (Adder k)}" by (rule f(5))
    then have "mutex_at ?s q \<in> {None, Some (Adder k)}" using t Adder by auto
    then have "hold_left ?s q < hold_left s q"
      using c(2) \<open>left k s > 0\<close> t Adder by (auto simp: hold_left_def)
    moreover have "ms_pcs s i = P_idle \<longrightarrow> ms_pcs ?s i = P_idle" for i
      using \<open>ms_pcs s k \<noteq> P_idle\<close> by auto
    ultimately show ?thesis using f(2,3,4) Adder by (intro exI[of _ ?s]) simp
  qed
qed

lemma call_returns:
  assumes "man_inv U items s" and "alive s"
  shows "\<exists>s'. (man_step pol sp U items J self)\<^sup>*\<^sup>* s s' \<and> ms_pcs s' i = P_idle
    \<and> called s' = called s \<and> (\<forall>k. ms_pcs s k = P_idle \<longrightarrow> ms_pcs s' k = P_idle)"
  using assms
proof (induction "8 * left i s + (if waits s i then hold_left s (wants (ms_nr s) (ms_pcs s i)) else 0)"
    arbitrary: s rule: less_induct)
  case less
  note inv = less.prems(1) and al = less.prems(2)
  let ?q = "wants (ms_nr s) (ms_pcs s i)"
  have nr: "0 < unat (ms_nr s)" "length (ms_queues s) = unat (ms_nr s)"
    using man_invD(2,3)[OF inv] by (simp_all add: unat_gt_0)
  note fits = man_invD(8)[OF inv, of i]
  have on: ?case
    if st: "man_step pol sp U items J self s s'" and al': "alive s'"
      and same: "called s' = called s" "\<And>k. ms_pcs s k = P_idle \<Longrightarrow> ms_pcs s' k = P_idle"
      and small: "8 * left i s' + (if waits s' i then hold_left s' (wants (ms_nr s') (ms_pcs s' i)) else 0)
        < 8 * left i s + (if waits s i then hold_left s ?q else 0)" for s'
  proof -
    obtain u where u: "(man_step pol sp U items J self)\<^sup>*\<^sup>* s' u" "ms_pcs u i = P_idle" "called u = called s'"
        "\<forall>k. ms_pcs s' k = P_idle \<longrightarrow> ms_pcs u k = P_idle"
      using less.hyps[OF small man_inv_step[OF st inv] al'] by blast
    then show ?thesis using same converse_rtranclp_into_rtranclp[OF st u(1)] by auto
  qed
  show ?case
  proof (cases "ms_pcs s i = P_idle")
    case True
    then show ?thesis by blast
  next
    case False
    show ?thesis
    proof (cases "waits s i")
      case True
      then have q: "?q < length (ms_queues s)"
        using nr fits by (cases "ms_pcs s i") (auto simp: waits_def word_le_nat_alt)
      obtain t where t: "mutex_at s ?q = Some t" using True by (auto simp: waits_def)
      have "apc (ms_queues s ! ?q) i = A_lock \<or> apc (ms_queues s ! ?q) i = A_idle"
        using True fits q by (cases "ms_pcs s i") (auto simp: waits_def)
      then have "t \<noteq> Adder i" using in_section_at[OF inv q, of t] t by auto
      then obtain s' where s': "man_step pol sp U items J self s s'" "alive s'" "hold_left s' ?q < hold_left s ?q"
          "ms_nr s' = ms_nr s" "ms_pcs s' i = ms_pcs s i" "\<And>p. apc (ms_queues s' ! p) i = apc (ms_queues s ! p) i"
          "called s' = called s" "\<And>k. ms_pcs s k = P_idle \<Longrightarrow> ms_pcs s' k = P_idle"
        using holder_moves[OF inv al q t] by blast
      then show ?thesis using True by (intro on[of s']) simp_all
    next
      case w: False
      obtain pc s1 where c: "caller_step U i (ms_pcs s i) s = Some (Inr (pc, s1))"
          "own_left (\<lambda>q. apc (ms_queues s1 ! q) i) pc < left i s"
        using caller_moves[OF inv False w] by blast
      let ?s = "s1\<lparr>ms_pcs := (ms_pcs s)(i := pc)\<rparr>"
      have "alive s1" by (rule alive_step[OF caller_frame(1)[OF c(1)] al])
      then have "alive ?s" by (simp add: alive_def)
      have "left i ?s < left i s" using c(2) by simp
      then have "8 * left i ?s + x < 8 * left i s" if "x \<le> 7" for x using that by linarith
      then have "8 * left i ?s + (if waits ?s i then hold_left ?s (wants (ms_nr ?s) (ms_pcs ?s i)) else 0)
          < 8 * left i s + (if waits s i then hold_left s ?q else 0)"
        using w hold_left_bound[of ?s] by (simp only: if_False) (simp split: if_split)
      moreover have "called ?s = called s" using caller_frame(3)[OF c(1)] by simp
      moreover have "ms_pcs s k = P_idle \<Longrightarrow> ms_pcs ?s k = P_idle" for k using False by auto
      ultimately show ?thesis using on[OF man_step.caller[OF al c(1)] \<open>alive ?s\<close>] by blast
    qed
  qed
qed

section \<open>One caller alone\<close>

text \<open>
  Statement after statement until the call is over. A mutex that is taken is a \<open>Deadlock\<close>, or for
  \<open>pthread_mutex_trylock\<close> another round.
\<close>

fun alone :: "nat \<Rightarrow> 'q urcu \<Rightarrow> nat \<Rightarrow> caller_pc \<Rightarrow> ('q, 'e) man_sys \<Rightarrow> ('q, 'e) man_sys res" where
  "alone 0 U i pc s = Inl Diverge"
| "alone (Suc k) U i pc s =
     (if pc = P_idle then Inr s
      else (case caller_step U i pc s of
              None \<Rightarrow> Inl Deadlock
            | Some m \<Rightarrow> bindR m (\<lambda>(pc, s). alone k U i pc s)))"

text \<open>What the manager sees of the running queues\<close>

definition core_of :: "('q, 'e) man_sys \<Rightarrow> ('q, 'e) man_core" where
  "core_of s = \<lparr>twq_pool = map twq (ms_queues s), twq_pool_nr = ms_nr s, twq_idx = ms_idx s\<rparr>"

lemma alone_idle [simp]: "alone (Suc k) U i P_idle s = Inr s"
  by simp

lemma alone_step:
  "pc \<noteq> P_idle \<Longrightarrow> alone (Suc k) U i pc s =
     (case caller_step U i pc s of None \<Rightarrow> Inl Deadlock | Some m \<Rightarrow> bindR m (\<lambda>(pc, s). alone k U i pc s))"
  by simp

declare alone.simps(2) [simp del]

lemma alone_inside:
  assumes "q < length (ms_queues s)" and "apc t i \<noteq> A_idle"
  shows "alone (Suc k) U i (P_in q) (s\<lparr>ms_queues := (ms_queues s)[q := t]\<rparr>) =
    (case adder_step U i (apc t i) t of None \<Rightarrow> Inl Deadlock
     | Some t' \<Rightarrow> alone k U i (if apc t' i = A_idle then P_idle else P_in q) (s\<lparr>ms_queues := (ms_queues s)[q := t']\<rparr>))"
  using assms by (simp add: alone_step in_queue_def inside_def split: option.split)

lemma core_of_update:
  "core_of (s\<lparr>ms_queues := (ms_queues s)[q := t]\<rparr>) = (core_of s)\<lparr>twq_pool := (twq_pool (core_of s))[q := twq t]\<rparr>"
  by (simp add: core_of_def map_update)

text \<open>\<open>threadwq_add_job\<close>, and its end when the mutex is held already\<close>

lemma alone_signal:
  assumes q: "q < length (ms_queues s)" and t: "apc t i = A_signal"
  shows "bindR (alone (k + 3) U i (P_in q) (s\<lparr>ms_queues := (ms_queues s)[q := t]\<rparr>)) (\<lambda>s. Inr (core_of s))
    = bindR (seqR [cond_signal, mutex_unlock] (twq t))
        (\<lambda>t. Inr ((core_of s)\<lparr>twq_pool := (twq_pool (core_of s))[q := t]\<rparr>))"
  using t
  by (simp add: eval_nat_numeral alone_inside[OF q] wake_def drop_mutex_def core_of_update cond_signal_def mutex_unlock_def)

lemma alone_enqueue:
  assumes q: "q < length (ms_queues s)" and t: "t = enter_queue i (A_enqueue j) (ms_queues s ! q)"
  shows "bindR (alone (k + 5) U i (P_in q) (s\<lparr>ms_queues := (ms_queues s)[q := t]\<rparr>)) (\<lambda>s. Inr (core_of s))
    = bindR (seqR [\<lambda>twq. Inr (twq\<lparr>tq_lfq := lfq_enqueue U (j + lfq_node_off U) (tq_lfq twq)\<rparr>),
              mutex_lock (Adder i), cond_signal, mutex_unlock] (twq (ms_queues s ! q)))
        (\<lambda>t. Inr ((core_of s)\<lparr>twq_pool := (twq_pool (core_of s))[q := t]\<rparr>))"
proof -
  let ?u = "(ms_queues s ! q)\<lparr>accepted := accepted (ms_queues s ! q) @ [j],
      twq := (twq (ms_queues s ! q))\<lparr>tq_lfq := lfq_enqueue U (j + lfq_node_off U) (tq_lfq (twq (ms_queues s ! q))),
        tq_mutex := Some (Adder i)\<rparr>, apc := (apc (ms_queues s ! q))(i := A_signal)\<rparr>"
  have "alone (Suc (Suc n)) U i (P_in q) (s\<lparr>ms_queues := (ms_queues s)[q := t]\<rparr>)
    = (if mutex_at s q = None then alone n U i (P_in q) (s\<lparr>ms_queues := (ms_queues s)[q := ?u]\<rparr>) else Inl Deadlock)" for n
    by (simp add: alone_inside[OF q] t enter_queue_def take_mutex_def)
  from this[of "k + 3"] have "alone (k + 5) U i (P_in q) (s\<lparr>ms_queues := (ms_queues s)[q := t]\<rparr>)
    = (if mutex_at s q = None then alone (k + 3) U i (P_in q) (s\<lparr>ms_queues := (ms_queues s)[q := ?u]\<rparr>) else Inl Deadlock)"
    by (simp add: eval_nat_numeral)
  then show ?thesis
    using alone_signal[OF q, of ?u i k U] by (simp add: mutex_lock_def)
qed

lemma alone_rr:
  "bindR (alone (k + 8) U i (RR_read j) s) (\<lambda>s. Inr (core_of s))
    = bindR (rr_add_job U (Adder i) j (core_of s)) (\<lambda>(ret, m). Inr m)"
proof -
  let ?ge = "ms_idx s \<ge> ms_nr s"
  let ?idx = "if ?ge then 0 else ms_idx s"
  let ?s = "s\<lparr>ms_idx := if ?ge then 0 else ms_idx s + 1\<rparr>"
  have "alone (Suc (Suc n)) U i (RR_read j) s = alone n U i (RR_add j ?idx) ?s" for n
    by (simp add: alone_step)
  from this[of "k + 6"] have read: "alone (k + 8) U i (RR_read j) s = alone (k + 6) U i (RR_add j ?idx) ?s"
    by (simp add: eval_nat_numeral)
  let ?t = "enter_queue i (A_enqueue j) (ms_queues ?s ! unat ?idx)"
  have "alone (Suc n) U i (RR_add j idx) ?s =
      (if unat idx < length (ms_queues s) then bug_on (j = NULL)
         (alone n U i (P_in (unat idx)) (?s\<lparr>ms_queues := (ms_queues ?s)[unat idx := enter_queue i (A_enqueue j) (ms_queues ?s ! unat idx)]\<rparr>))
       else Inl SegFault)" for n idx
    by (simp add: alone_step in_queue_def bug_on_def)
  from this[of "k + 5" ?idx] have add: "alone (k + 6) U i (RR_add j ?idx) ?s =
      (if unat ?idx < length (ms_queues s) then bug_on (j = NULL)
         (alone (k + 5) U i (P_in (unat ?idx)) (?s\<lparr>ms_queues := (ms_queues ?s)[unat ?idx := ?t]\<rparr>))
       else Inl SegFault)"
    by (simp add: eval_nat_numeral)
  have core: "core_of ?s = (core_of s)\<lparr>twq_idx := if ?ge then 0 else ms_idx s + 1\<rparr>"
    by (simp add: core_of_def)
  have "rr_add_job U (Adder i) j (core_of s) =
      bindR (on_pool (unat ?idx) (threadwq_add_job U (Adder i) j) (core_of ?s)) (\<lambda>m. Inr (0, m))"
    by (simp add: rr_add_job_def core_of_def Let_def)
  then have rr: "bindR (rr_add_job U (Adder i) j (core_of s)) (\<lambda>(ret, m). Inr m)
      = on_pool (unat ?idx) (threadwq_add_job U (Adder i) j) (core_of ?s)"
    by (simp only: bindR_assoc bindR_Inr prod.case) (simp add: bindR_def split: sum.splits)
  show ?thesis
  proof (cases "unat ?idx < length (ms_queues s)")
    case False
    then show ?thesis unfolding read add rr by (simp add: on_pool_def at_index_def core_of_def)
  next
    case q: True
    show ?thesis
    proof (cases "j = NULL")
      case True
      then show ?thesis using q unfolding read add rr
        by (simp add: on_pool_def at_index_def core_of_def threadwq_add_job_def)
    next
      case False
      have "unat ?idx < length (ms_queues ?s)" using q by simp
      from alone_enqueue[OF this refl, of k U i j] show ?thesis
        using q False unfolding read add rr
        by (simp add: on_pool_def at_index_def core_of_def threadwq_add_job_def)
    qed
  qed
qed

lemma alone_rr4idle_loop:
  assumes "rr4idle_loop fuel (\<lambda>m. m) U (Adder i) j idx (core_of s) \<noteq> Inl Diverge"
  shows "bindR (alone (k + fuel + 6) U i (RI_try j idx) s) (\<lambda>s. Inr (core_of s))
    = rr4idle_loop fuel (\<lambda>m. m) U (Adder i) j idx (core_of s)"
  using assms
proof (induction fuel arbitrary: idx)
  case 0
  then show ?case by simp
next
  case (Suc fuel)
  let ?idx = "if idx \<ge> ms_nr s then 0 else idx"
  let ?q = "unat ?idx"
  have step: "alone (Suc n) U i (RI_try j idx) s =
      (if ?q < length (ms_queues s)
       then (case try_lock i j (ms_queues s ! ?q) of
               None \<Rightarrow> alone n U i (RI_try j (?idx + 1)) s
             | Some t \<Rightarrow> alone n U i (RI_set j ?idx) (s\<lparr>ms_queues := (ms_queues s)[?q := t]\<rparr>))
       else Inl SegFault)" for n
    by (simp add: alone_step in_queue_def Let_def del: if_split split: option.split)
  have loop: "rr4idle_loop (Suc fuel) (\<lambda>m. m) U (Adder i) j idx (core_of s) =
      (if ?q < length (ms_queues s)
       then (if mutex_at s ?q \<noteq> None then rr4idle_loop fuel (\<lambda>m. m) U (Adder i) j (?idx + 1) (core_of s)
             else on_pool ?q (\<lambda>twq. seqR [mutex_lock (Adder i), threadwq_add_job_locked U j, cond_signal, mutex_unlock] twq)
                    ((core_of s)\<lparr>twq_idx := ?idx + 1\<rparr>))
       else Inl SegFault)"
    by (simp only: rr4idle_loop.simps Let_def at_index_def) (simp add: core_of_def)
  show ?case
  proof (cases "?q < length (ms_queues s) \<and> mutex_at s ?q = None")
    case False
    then show ?thesis
      using Suc.IH[of "?idx + 1"] Suc.prems step[of "k + fuel + 6"] loop
      by (auto simp: try_lock_def take_mutex_def)
  next
    case True
    let ?s = "s\<lparr>ms_idx := ?idx + 1\<rparr>"
    let ?t = "enter_queue i (A_put j) ((ms_queues s ! ?q)\<lparr>twq := (twq (ms_queues s ! ?q))\<lparr>tq_mutex := Some (Adder i)\<rparr>\<rparr>)"
    let ?u = "(ms_queues s ! ?q)\<lparr>twq := (twq (ms_queues s ! ?q))\<lparr>tq_mutex := Some (Adder i),
        tq_lfq := lfq_enqueue U (j + lfq_node_off U) (tq_lfq (twq (ms_queues s ! ?q)))\<rparr>,
      accepted := accepted (ms_queues s ! ?q) @ [j], apc := (apc (ms_queues s ! ?q))(i := A_signal)\<rparr>"
    have t: "try_lock i j (ms_queues s ! ?q) = Some ?t" using True by (simp add: try_lock_def take_mutex_def)
    have "alone (Suc (Suc n)) U i (RI_set j ?idx) (s\<lparr>ms_queues := (ms_queues s)[?q := ?t]\<rparr>)
        = bug_on (j = NULL) (alone n U i (P_in ?q) (?s\<lparr>ms_queues := (ms_queues ?s)[?q := ?u]\<rparr>))" for n
      using True by (simp add: alone_step in_queue_def inside_def enter_queue_def bug_on_def del: if_split)
    from this[of "k + fuel + 4"] have put: "alone (k + fuel + 6) U i (RI_set j ?idx) (s\<lparr>ms_queues := (ms_queues s)[?q := ?t]\<rparr>)
        = bug_on (j = NULL) (alone (k + fuel + 4) U i (P_in ?q) (?s\<lparr>ms_queues := (ms_queues ?s)[?q := ?u]\<rparr>))"
      by (simp add: eval_nat_numeral)
    have "?q < length (ms_queues ?s)" using True by simp
    note signal = alone_signal[OF this, of ?u i "k + fuel + 1" U]
    have n: "k + fuel + 1 + 3 = k + fuel + 4" "k + Suc fuel + 6 = Suc (k + fuel + 6)" by simp_all
    have core: "core_of ?s = (core_of s)\<lparr>twq_idx := ?idx + 1\<rparr>" "twq_pool (core_of s) = map twq (ms_queues s)"
      by (simp_all add: core_of_def)
    have "bindR (alone (k + Suc fuel + 6) U i (RI_try j idx) s) (\<lambda>s. Inr (core_of s))
        = bug_on (j = NULL) (bindR (seqR [cond_signal, mutex_unlock] (twq ?u))
            (\<lambda>t. Inr ((core_of ?s)\<lparr>twq_pool := (twq_pool (core_of ?s))[?q := t]\<rparr>)))"
      unfolding n step using True t put signal[unfolded n(1)] by (simp add: bug_on_def del: if_split)
    also have "\<dots> = rr4idle_loop (Suc fuel) (\<lambda>m. m) U (Adder i) j idx (core_of s)"
      unfolding loop using True
      by (simp add: bug_on_def on_pool_def at_index_def core mutex_lock_def threadwq_add_job_locked_def del: if_split)
    finally show ?thesis .
  qed
qed

section \<open>Stopping the pool\<close>

lemma man_flush_step:
  assumes st: "man_step pol sp U items J self s s'" and inv: "man_inv U items s"
    and fl: "\<forall>q < length (ms_queues s). flush_inv (js q) (ms_queues s ! q)"
  shows "length (ms_queues s') = length (ms_queues s)
    \<and> (\<forall>q < length (ms_queues s). flush_inv (js q) (ms_queues s' ! q))"
  using st
proof (cases rule: man_step.cases)
  case (queue q t t')
  have "twq_inv U items t" using man_invD(4)[OF inv queue(3)] queue(4) by simp
  moreover have "flush_inv (js q) t" using fl queue(3,4) by (simp add: flush_inv_def)
  ultimately have "flush_inv (js q) t'" using flush_inv_step[OF queue(5)] by blast
  then show ?thesis using fl queue(1,3) by (simp add: nth_list_update)
next
  case (caller i pc s1)
  note m = caller_moved[OF caller(3)]
  have "flush_inv (js q) (ms_queues s1 ! q)" if "flush_inv (js q) (ms_queues s ! q)" for q
    using that m by (auto simp: flush_inv_def moved_def intro: prefix_order.trans)
  then show ?thesis using fl caller(1) m by simp
qed (use fl in simp)

lemma man_flush_steps:
  assumes "(man_step pol sp U items J self)\<^sup>*\<^sup>* s s'" and "man_inv U items s"
    and "\<forall>q < length (ms_queues s). flush_inv (js q) (ms_queues s ! q)"
  shows "man_inv U items s' \<and> length (ms_queues s') = length (ms_queues s)
    \<and> (\<forall>q < length (ms_queues s). flush_inv (js q) (ms_queues s' ! q))"
  using assms
proof (induction rule: rtranclp_induct)
  case (step u v)
  then show ?case using man_flush_step[OF step.hyps(2), of js] man_inv_step[OF step.hyps(2)] by auto
qed simp

lemma concat_prefixes:
  assumes "length xs = length ys" and "\<And>q. q < length xs \<Longrightarrow> prefix (xs ! q) (ys ! q)"
  shows "mset (concat xs) \<subseteq># mset (concat ys)"
  using assms
proof (induction xs ys rule: list_induct2)
  case (Cons x xs y ys)
  have "mset x \<subseteq># mset y" using Cons.prems[of 0] by (auto simp: prefix_def)
  moreover have "mset (concat xs) \<subseteq># mset (concat ys)"
    using Cons.IH Cons.prems[of "Suc q" for q] by auto
  ultimately show ?case by (simp add: subset_mset.add_mono)
qed simp

text \<open>At rest, what was handed over is what the queues have accepted.\<close>

lemma at_rest:
  assumes inv: "man_inv U items s" and rest: "\<forall>i. ms_pcs s i = P_idle"
  shows "mset (called s) = accepted_all s"
proof -
  have "apc (ms_queues s ! q) i = A_idle" if "q < length (ms_queues s)" for q i
    using man_invD(8)[OF inv, of i] rest that by simp
  then have "carried s = {}" using rest by (auto simp: carried_def adds_def)
  then show ?thesis using man_invD(7)[OF inv] by (intro multiset_eqI) (simp add: tally_inv_def)
qed

section \<open>Properties\<close>

text \<open>C6: any number of threads may add jobs through one manager at once. In every state that
  they, the workers, the stopping threads and the library can reach, no statement of
  \<open>rr_add_job\<close> or \<open>rr4idle_add_job\<close> goes outside the pool or trips over a null job, whatever the
  race on \<open>twq_idx\<close>; who passed \<open>pthread_mutex_trylock\<close> still has the mutex when it adds the job;
  each queue starts its jobs in the order in which it got them; and no job is on its way in
  two queues.\<close>

theorem man_callers_safe:
  assumes "lfq_fifo U items" and "man_start U items s0" and "(man_step pol sp U items J self)\<^sup>*\<^sup>* s0 s"
  shows "caller_step U i (ms_pcs s i) s \<noteq> Some (Inl e)
    \<and> (ms_pcs s i = RI_set j idx \<or> ms_pcs s i = RI_put j idx
        \<longrightarrow> tq_mutex (twq (ms_queues s ! unat idx)) = Some (Adder i))
    \<and> (\<forall>p < length (ms_queues s).
        (\<exists>js. holds_jobs U items (tq_lfq (twq (ms_queues s ! p))) js
          \<and> accepted (ms_queues s ! p) = started (ms_queues s ! p) @ in_hand (wpc (ms_queues s ! p)) @ js)
      \<and> (\<forall>q < length (ms_queues s). p \<noteq> q
          \<longrightarrow> under_way U items (ms_queues s ! p) \<inter> under_way U items (ms_queues s ! q) = {}))"
proof -
  have inv: "man_inv U items s" using reachable_man_inv[OF assms] .
  have "mutex_at s (unat idx) = Some (Adder i)" if "ms_pcs s i = RI_set j idx \<or> ms_pcs s i = RI_put j idx"
  proof -
    have "unat idx < length (ms_queues s)" "apc (ms_queues s ! unat idx) i = A_put j"
      using man_invD(8)[OF inv, of i] that by auto
    then show ?thesis using in_section_at[OF inv, of "unat idx" "Adder i"] by simp
  qed
  moreover have "\<exists>js. holds_jobs U items (tq_lfq (twq (ms_queues s ! p))) js
      \<and> accepted (ms_queues s ! p) = started (ms_queues s ! p) @ in_hand (wpc (ms_queues s ! p)) @ js"
    if "p < length (ms_queues s)" for p
    using man_invD(4)[OF inv that] by (auto simp: twq_inv_def jobs_inv_def)
  ultimately show ?thesis
    using caller_no_fault[OF inv] man_invD(6)[OF inv] unfolding apart_inv_def by blast
qed

text \<open>C13: concurrent callers lose nothing and double nothing. Whenever no call is in progress, the
  jobs handed to \<open>threadwq_man_add_job\<close> so far are, counted with repetition, exactly those that
  some worker of the pool has started, has in its hand, or that wait in some queue.\<close>

theorem man_callers_lose_nothing:
  assumes "lfq_fifo U items" and "man_start U items s0" and "(man_step pol sp U items J self)\<^sup>*\<^sup>* s0 s"
    and "\<forall>i. ms_pcs s i = P_idle"
  shows "mset (called s) = mset (concat (map (\<lambda>t. started t @ in_hand (wpc t) @ jobs_of U items (twq t)) (ms_queues s)))"
proof -
  have inv: "man_inv U items s" using reachable_man_inv[OF assms(1-3)] .
  have "mset (called s) = accepted_all s" using at_rest[OF inv assms(4)] .
  moreover have "accepted t = started t @ in_hand (wpc t) @ jobs_of U items (twq t)" if t: "t \<in> set (ms_queues s)" for t
  proof -
    obtain q where q: "q < length (ms_queues s)" "t = ms_queues s ! q" using t by (auto simp: in_set_conv_nth)
    then show ?thesis
      using man_invD(4)[OF inv q(1)] holds_jobs_of by (auto simp: twq_inv_def jobs_inv_def)
  qed
  then have "map accepted (ms_queues s)
      = map (\<lambda>t. started t @ in_hand (wpc t) @ jobs_of U items (twq t)) (ms_queues s)" by simp
  ultimately show ?thesis by simp
qed

text \<open>C14: no call gets stuck. From every state in which no worker has hit \<open>BUG()\<close> there is a way on,
  without any new call and without a spurious wake-up, to the return of any given call: whoever
  holds the mutex that the caller waits for can always go on to give it back.\<close>

theorem man_call_can_return:
  assumes "lfq_fifo U items" and "man_start U items s0" and "(man_step pol sp U items J self)\<^sup>*\<^sup>* s0 s"
    and "alive s"
  shows "\<exists>s'. (man_step pol False U items J self)\<^sup>*\<^sup>* s s' \<and> ms_pcs s' i = P_idle \<and> called s' = called s"
  using call_returns[OF reachable_man_inv[OF assms(1-3)] assms(4)] by blast

text \<open>C5: stopping a pool loses nothing. Let all calls have returned, and no \<open>threadwq_exit\<close> have
  begun. However the program goes on, once \<open>threadwq_exit\<close> has returned for every queue, all
  workers have ended, and every job that had been handed over has been started.\<close>

theorem man_exit_flushes:
  assumes "lfq_fifo U items" and "man_start U items s0" and "(man_step pol sp U items J self)\<^sup>*\<^sup>* s0 s"
    and "\<forall>i. ms_pcs s i = P_idle"
    and "\<forall>t \<in> set (ms_queues s). mpc t \<in> {M_create, M_spin, M_ready}"
    and "(man_step pol sp U items J self)\<^sup>*\<^sup>* s s'" and "\<forall>t \<in> set (ms_queues s'). mpc t = M_done"
  shows "(\<forall>t \<in> set (ms_queues s'). wpc t = W_done)
    \<and> mset (called s) \<subseteq># mset (concat (map started (ms_queues s')))"
proof -
  let ?n = "length (ms_queues s)"
  have inv: "man_inv U items s" using reachable_man_inv[OF assms(1-3)] .
  have "flush_inv (accepted (ms_queues s ! q)) (ms_queues s ! q)" if q: "q < ?n" for q
  proof -
    have "phase_inv (ms_queues s ! q)" using man_invD(4)[OF inv q] by (simp add: twq_inv_def)
    moreover have "mpc (ms_queues s ! q) \<in> {M_create, M_spin, M_ready}" using assms(5) q nth_mem by blast
    ultimately have "\<not> flushing (wpc (ms_queues s ! q))" unfolding phase_ok_def by auto
    then show ?thesis by (auto simp: flush_inv_def flushed_def)
  qed
  then have end_inv: "man_inv U items s'" "length (ms_queues s') = ?n"
      "\<And>q. q < ?n \<Longrightarrow> flush_inv (accepted (ms_queues s ! q)) (ms_queues s' ! q)"
    using man_flush_steps[OF assms(6) inv, of "\<lambda>q. accepted (ms_queues s ! q)"] by auto
  have ended: "wpc (ms_queues s' ! q) = W_done" if "q < ?n" for q
  proof -
    have "mpc (ms_queues s' ! q) = M_done" using assms(7) that end_inv(2) by simp
    then show ?thesis using man_invD(4)[OF end_inv(1), of q] that end_inv(2) by (simp add: twq_inv_def phase_ok_def)
  qed
  then have "prefix (accepted (ms_queues s ! q)) (started (ms_queues s' ! q))" if "q < ?n" for q
    using end_inv(3)[OF that] that by (simp add: flush_inv_def flushed_def)
  then have "accepted_all s \<subseteq># mset (concat (map started (ms_queues s')))"
    using end_inv(2) by (intro concat_prefixes) simp_all
  then show ?thesis
    using at_rest[OF inv assms(4)] ended end_inv(2) by (auto simp: in_set_conv_nth)
qed


section \<open>A concrete pool\<close>

definition demo_pool :: "(ptr list, string) man_sys" where
  "demo_pool = \<lparr>ms_queues = [demo_sys, demo_sys], ms_nr = 2, ms_idx = 0, ms_pcs = (\<lambda>_. P_idle),
     ms_env = '''', called = []\<rparr>"

abbreviation demo_step :: "(ptr list, string) man_sys \<Rightarrow> (ptr list, string) man_sys \<Rightarrow> bool" where
  "demo_step \<equiv> man_step Policy_rr4idle False list_urcu (\<lambda>q. q) (\<lambda>_. demo_job) (\<lambda>q. 0x5000 + of_nat q * 0x200)"

lemma demo_pool_start: "man_start list_urcu (\<lambda>q. q) demo_pool"
  using demo_initial by (simp add: man_start_def demo_pool_def)

abbreviation demo_called :: "(ptr list, string) man_sys" where
  "demo_called \<equiv> demo_pool\<lparr>ms_pcs := (\<lambda>_. P_idle)(7 := RI_read 0x1000), called := [0x1000]\<rparr>"

lemma demo_call: "demo_step\<^sup>*\<^sup>* demo_pool demo_called"
proof -
  have "demo_step demo_pool (demo_pool\<lparr>ms_pcs := (ms_pcs demo_pool)(7 := enters Policy_rr4idle 0x1000),
      called := called demo_pool @ [0x1000]\<rparr>)"
    by (rule man_step.call)
      (simp_all add: alive_def demo_pool_def demo_sys_def man_under_way_def under_way_def threadwq_init_def)
  then show "demo_step\<^sup>*\<^sup>* demo_pool demo_called" by (simp add: demo_pool_def r_into_rtranclp)
qed

lemma demo_alive: "alive demo_called"
  by (simp add: alive_def demo_pool_def demo_sys_def)

lemma demo_returned:
  obtains s where "demo_step\<^sup>*\<^sup>* demo_pool s" and "\<forall>i. ms_pcs s i = P_idle" and "called s = [0x1000]"
proof -
  obtain s where s: "demo_step\<^sup>*\<^sup>* demo_called s" "ms_pcs s 7 = P_idle" "called s = called demo_called"
      "\<forall>k. ms_pcs demo_called k = P_idle \<longrightarrow> ms_pcs s k = P_idle"
    using call_returns[OF reachable_man_inv[OF list_urcu_fifo demo_pool_start demo_call] demo_alive,
        where pol = Policy_rr4idle and i = 7] by blast
  have "ms_pcs s i = P_idle" for i using s(2,4) by (cases "i = 7") simp_all
  then show ?thesis using that[OF rtranclp_trans[OF demo_call s(1)]] s(3) by simp
qed

theorem man_callers_safe_witness:
  "\<exists>s. demo_step\<^sup>*\<^sup>* demo_pool s \<and> ms_pcs s 7 = RI_read 0x1000
    \<and> caller_step list_urcu 7 (RI_read 0x1000) s \<noteq> Some (Inl SegFault)"
  using man_callers_safe[OF list_urcu_fifo demo_pool_start demo_call, of 7 SegFault] demo_call
  by (intro exI[of _ demo_called]) simp

theorem man_callers_lose_nothing_witness:
  "\<exists>s. demo_step\<^sup>*\<^sup>* demo_pool s \<and> {#0x1000#}
    = mset (concat (map (\<lambda>t. started t @ in_hand (wpc t) @ jobs_of list_urcu (\<lambda>q. q) (twq t)) (ms_queues s)))"
proof -
  obtain s where s: "demo_step\<^sup>*\<^sup>* demo_pool s" "\<forall>i. ms_pcs s i = P_idle" "called s = [0x1000]"
    by (rule demo_returned)
  show ?thesis
    using man_callers_lose_nothing[OF list_urcu_fifo demo_pool_start s(1,2)] s(1,3) by (intro exI[of _ s]) simp
qed

theorem man_call_can_return_witness:
  "\<exists>s'. demo_step\<^sup>*\<^sup>* demo_called s' \<and> ms_pcs s' 7 = P_idle \<and> called s' = [0x1000]"
  using man_call_can_return[OF list_urcu_fifo demo_pool_start demo_call demo_alive, where i = 7] by simp

subsection \<open>A run from start to end\<close>

text \<open>Who moves next\<close>

datatype actor = By_worker nat | By_main nat | By_caller nat

definition run_queue ::
  "nat \<Rightarrow> (('q, 'e) sys \<Rightarrow> ('q, 'e) sys option) \<Rightarrow> ('q, 'e) man_sys \<Rightarrow> ('q, 'e) man_sys option" where
  "run_queue q f s =
     (if q < length (ms_queues s)
      then map_option (\<lambda>t. s\<lparr>ms_queues := (ms_queues s)[q := t], ms_env := env t\<rparr>)
             (f ((ms_queues s ! q)\<lparr>env := ms_env s\<rparr>))
      else None)"

fun act :: "'q urcu \<Rightarrow> (ptr \<Rightarrow> 'e threadwq_job) \<Rightarrow> (nat \<Rightarrow> ptr) \<Rightarrow> actor \<Rightarrow> ('q, 'e) man_sys \<Rightarrow> ('q, 'e) man_sys option" where
  "act U J self (By_worker q) s = run_queue q (\<lambda>t. worker_step U J (self q) (wpc t) t) s"
| "act U J self (By_main q) s = run_queue q (\<lambda>t. main_step True (mpc t) t) s"
| "act U J self (By_caller i) s =
     (case caller_step U i (ms_pcs s i) s of
        Some (Inr (pc, s')) \<Rightarrow> Some (s'\<lparr>ms_pcs := (ms_pcs s)(i := pc)\<rparr>)
      | _ \<Rightarrow> None)"

fun acts :: "'q urcu \<Rightarrow> (ptr \<Rightarrow> 'e threadwq_job) \<Rightarrow> (nat \<Rightarrow> ptr) \<Rightarrow> actor list \<Rightarrow> ('q, 'e) man_sys \<Rightarrow> ('q, 'e) man_sys option" where
  "acts U J self [] s = Some s"
| "acts U J self (a # as) s =
     (if list_all (\<lambda>t. wpc t \<noteq> W_abort) (ms_queues s)
      then Option.bind (act U J self a s) (acts U J self as) else None)"

lemma act_man_step:
  assumes "act U J self a s = Some s'" and al: "alive s"
  shows "man_step pol sp U items J self s s'"
proof (cases a)
  case (By_worker q)
  let ?t = "(ms_queues s ! q)\<lparr>env := ms_env s\<rparr>"
  obtain t' where q: "q < length (ms_queues s)" and t': "worker_step U J (self q) (wpc ?t) ?t = Some t'"
      "s' = s\<lparr>ms_queues := (ms_queues s)[q := t'], ms_env := env t'\<rparr>"
    using assms(1) By_worker by (auto simp: run_queue_def split: if_splits)
  show ?thesis unfolding t'(2)
    by (rule man_step.queue[where self = self and q = q, OF al q refl])
      (use worker_frame[OF t'(1)] in \<open>auto intro: step.worker[OF t'(1)]\<close>)
next
  case (By_main q)
  let ?t = "(ms_queues s ! q)\<lparr>env := ms_env s\<rparr>"
  obtain t' where q: "q < length (ms_queues s)" and t': "main_step True (mpc ?t) ?t = Some t'"
      "s' = s\<lparr>ms_queues := (ms_queues s)[q := t'], ms_env := env t'\<rparr>"
    using assms(1) By_main by (auto simp: run_queue_def split: if_splits)
  have "wpc ?t \<noteq> W_abort" using al q by (simp add: alive_def)
  moreover have "apc t' = apc ?t" using t'(1) by (cases "mpc ?t") (auto simp: thread_ops split: if_splits)
  ultimately show ?thesis unfolding t'(2)
    by (intro man_step.queue[where self = self and q = q, OF al q refl] step.main[OF _ t'(1)])
next
  case (By_caller i)
  then show ?thesis
    using assms(1) man_step.caller[OF al, of U i] by (auto split: option.splits sum.splits)
qed

lemma acts_man_steps:
  "acts U J self as s = Some s' \<Longrightarrow> (man_step pol sp U items J self)\<^sup>*\<^sup>* s s'"
proof (induction as arbitrary: s)
  case (Cons a as)
  then obtain s1 where "alive s" "act U J self a s = Some s1" "acts U J self as s1 = Some s'"
    by (auto simp: alive_def list_all_iff split: if_splits Option.bind_splits)
  then show ?case
    using act_man_step[of U J self a s s1 pol sp items] Cons.IH[of s1] by (auto intro: converse_rtranclp_into_rtranclp)
qed simp

abbreviation adding_run :: "actor list" where
  "adding_run \<equiv> [By_caller 7, By_caller 7, By_caller 7, By_caller 7, By_caller 7, By_caller 7]"

abbreviation stopping_run :: "actor list" where
  "stopping_run \<equiv> [By_main 0, By_worker 0, By_worker 0,
     By_main 0, By_main 0, By_main 0, By_main 0, By_main 0, By_main 0,
     By_worker 0, By_worker 0, By_worker 0, By_worker 0, By_worker 0, By_worker 0, By_worker 0,
     By_main 0, By_main 0]"

text \<open>One queue; one job added; then the queue is started and stopped.\<close>

definition demo_one :: "(ptr list, string) man_sys" where
  "demo_one = \<lparr>ms_queues = [demo_sys], ms_nr = 1, ms_idx = 0, ms_pcs = (\<lambda>_. P_idle), ms_env = '''', called = []\<rparr>"

lemma demo_one_start: "man_start list_urcu (\<lambda>q. q) demo_one"
  using demo_initial by (simp add: man_start_def demo_one_def)

abbreviation demo_acts :: "actor list \<Rightarrow> (ptr list, string) man_sys \<Rightarrow> (ptr list, string) man_sys option" where
  "demo_acts \<equiv> acts list_urcu (\<lambda>_. demo_job) (\<lambda>q. 0x5000 + of_nat q * 0x200)"

definition one_called :: "(ptr list, string) man_sys" where
  "one_called = demo_one\<lparr>ms_pcs := (\<lambda>_. P_idle)(7 := RI_read 0x1000), called := [0x1000]\<rparr>"

lemma one_call: "demo_step\<^sup>*\<^sup>* demo_one one_called"
proof -
  have "demo_step demo_one (demo_one\<lparr>ms_pcs := (ms_pcs demo_one)(7 := enters Policy_rr4idle 0x1000),
      called := called demo_one @ [0x1000]\<rparr>)"
    by (rule man_step.call)
      (simp_all add: alive_def demo_one_def demo_sys_def man_under_way_def under_way_def threadwq_init_def)
  then show ?thesis by (simp add: one_called_def demo_one_def r_into_rtranclp)
qed

lemma one_run:
  "case demo_acts adding_run one_called of None \<Rightarrow> False
   | Some s \<Rightarrow> (\<forall>i. ms_pcs s i = P_idle) \<and> called s = [0x1000] \<and> (\<forall>t \<in> set (ms_queues s). mpc t = M_create)
     \<and> (case demo_acts stopping_run s of None \<Rightarrow> False
        | Some s' \<Rightarrow> \<forall>t \<in> set (ms_queues s'). mpc t = M_done)"
  by (simp add: one_called_def demo_one_def demo_sys_def threadwq_init_def demo_twq_def demo_ops_def demo_job_def
      THREQDWQ_OPS_INITIALIZER_def in_queue_def inside_def try_lock_def enter_queue_def run_queue_def
      take_mutex_def drop_mutex_def wake_def call_start_def call_rcu_def take_job_def dequeue_one_job_def Let_def)

theorem man_exit_flushes_witness:
  "\<exists>s s'. demo_step\<^sup>*\<^sup>* demo_one s \<and> called s = [0x1000] \<and> demo_step\<^sup>*\<^sup>* s s'
    \<and> (\<forall>t \<in> set (ms_queues s'). wpc t = W_done) \<and> {#0x1000#} \<subseteq># mset (concat (map started (ms_queues s')))"
proof -
  obtain s s' where s: "demo_acts adding_run one_called = Some s" "demo_acts stopping_run s = Some s'"
      "\<forall>i. ms_pcs s i = P_idle" "called s = [0x1000]" "\<forall>t \<in> set (ms_queues s). mpc t = M_create"
      "\<forall>t \<in> set (ms_queues s'). mpc t = M_done"
    using one_run by (auto simp del: acts.simps split: option.splits)
  have run: "demo_step\<^sup>*\<^sup>* demo_one s" "demo_step\<^sup>*\<^sup>* s s'"
    using rtranclp_trans[OF one_call acts_man_steps[OF s(1)]] acts_man_steps[OF s(2)] by blast+
  have "\<forall>t \<in> set (ms_queues s). mpc t \<in> {M_create, M_spin, M_ready}" using s(5) by simp
  from man_exit_flushes[OF list_urcu_fifo demo_one_start run(1) s(3) this run(2) s(6)]
  show ?thesis using run s(4) by auto
qed

text \<open>
  The race on \<open>twq_idx\<close> is real: two callers of \<open>rr_add_job\<close> that read it before either has moved
  it both go to queue 0, and queue 1 is passed over.
\<close>

definition race_pool :: "(ptr list, string) man_sys" where
  "race_pool = demo_pool\<lparr>ms_pcs := (\<lambda>_. P_idle)(0 := RR_read 0x1000, 1 := RR_read 0x2000)\<rparr>"

lemma rr_race:
  "case demo_acts [By_caller 0, By_caller 1, By_caller 0, By_caller 1] race_pool of None \<Rightarrow> False
   | Some s \<Rightarrow> ms_pcs s 0 = RR_add 0x1000 0 \<and> ms_pcs s 1 = RR_add 0x2000 0 \<and> ms_idx s = 2"
  by (simp add: race_pool_def demo_pool_def demo_sys_def)

end
