(* ===== verification/Stdmsg.thy ===== *)
theory Stdmsg
  imports C_Prelude
begin

text \<open>
  \<open>lgu/stdmsg/stdmsg.h\<close> and \<open>stdmsg.c\<close>: the message level of the program and the macros that
  print a message when the level allows it. The state is the global \<open>stdmsg_lv\<close>, an \<open>int\<close> that
  never leaves 0 to 5.
\<close>

section \<open>The level\<close>

datatype stdmsg_level_t =
  STDMSG_LV_NONE | STDMSG_LV_ERR | STDMSG_LV_INFO | STDMSG_LV_DBG | STDMSG_LV_VBS | STDMSG_LV_MAX

fun level_val :: "stdmsg_level_t \<Rightarrow> int" where
  "level_val STDMSG_LV_NONE = 0"
| "level_val STDMSG_LV_ERR = 1"
| "level_val STDMSG_LV_INFO = 2"
| "level_val STDMSG_LV_DBG = 3"
| "level_val STDMSG_LV_VBS = 4"
| "level_val STDMSG_LV_MAX = 5"

text \<open>The initial value of \<open>stdmsg_lv\<close>, \<open>STDMSG_LV_DFL\<close>\<close>

definition stdmsg_lv_dfl :: int where
  "stdmsg_lv_dfl = level_val STDMSG_LV_INFO"

definition stdmsg_lv_inc :: "int \<Rightarrow> int" where
  "stdmsg_lv_inc lv = (if lv < level_val STDMSG_LV_MAX then lv + 1 else lv)"

definition stdmsg_lv_dec :: "int \<Rightarrow> int" where
  "stdmsg_lv_dec lv = (if lv > level_val STDMSG_LV_NONE then lv - 1 else lv)"

text \<open>The argument is an unsigned enumeration value, which need not be an enumerator.\<close>

definition stdmsg_lv_set :: "u32 \<Rightarrow> int \<Rightarrow> int" where
  "stdmsg_lv_set lv old = (if uint lv \<ge> level_val STDMSG_LV_MAX then level_val STDMSG_LV_MAX else uint lv)"

definition stdmsg_lv_get :: "int \<Rightarrow> u32" where
  "stdmsg_lv_get lv = of_int lv"

definition stdmsg_lv_test :: "stdmsg_level_t \<Rightarrow> int \<Rightarrow> bool" where
  "stdmsg_lv_test l lv \<longleftrightarrow> level_val l \<le> lv"

section \<open>The messages\<close>

datatype stream = Stdout | Stderr

text \<open>
  What a message macro prints: \<open>where\<close> is the function and line in front of debug messages,
  \<open>txt\<close> the formatted text.
\<close>

definition ERR :: "string \<Rightarrow> int \<Rightarrow> (stream \<times> string) list" where
  "ERR txt lv = (if stdmsg_lv_test STDMSG_LV_ERR lv
     then [(Stderr, '' * ERROR: '' @ txt @ [CHR 0x0A])] else [])"

definition INFO :: "string \<Rightarrow> int \<Rightarrow> (stream \<times> string) list" where
  "INFO txt lv = (if stdmsg_lv_test STDMSG_LV_INFO lv then [(Stdout, txt @ [CHR 0x0A])] else [])"

definition DBG :: "string \<Rightarrow> string \<Rightarrow> int \<Rightarrow> (stream \<times> string) list" where
  "DBG at txt lv = (if stdmsg_lv_test STDMSG_LV_DBG lv
     then [(Stdout, at @ '': '' @ txt @ [CHR 0x0A])] else [])"

definition VBS :: "string \<Rightarrow> string \<Rightarrow> int \<Rightarrow> (stream \<times> string) list" where
  "VBS at txt lv = (if stdmsg_lv_test STDMSG_LV_VBS lv
     then [(Stdout, at @ '': '' @ txt @ [CHR 0x0A])] else [])"

text \<open>The variants that print the bare text\<close>

definition ERR_RAW :: "string \<Rightarrow> int \<Rightarrow> (stream \<times> string) list" where
  "ERR_RAW txt lv = (if stdmsg_lv_test STDMSG_LV_ERR lv then [(Stderr, txt)] else [])"

definition INFO_RAW :: "string \<Rightarrow> int \<Rightarrow> (stream \<times> string) list" where
  "INFO_RAW txt lv = (if stdmsg_lv_test STDMSG_LV_INFO lv then [(Stdout, txt)] else [])"

definition DBG_RAW :: "string \<Rightarrow> int \<Rightarrow> (stream \<times> string) list" where
  "DBG_RAW txt lv = (if stdmsg_lv_test STDMSG_LV_DBG lv then [(Stdout, txt)] else [])"

definition VBS_RAW :: "string \<Rightarrow> int \<Rightarrow> (stream \<times> string) list" where
  "VBS_RAW txt lv = (if stdmsg_lv_test STDMSG_LV_VBS lv then [(Stdout, txt)] else [])"

section \<open>The level stays in range\<close>

definition level_ok :: "int \<Rightarrow> bool" where
  "level_ok lv \<longleftrightarrow> 0 \<le> lv \<and> lv \<le> 5"

lemma level_ok_ops [simp, intro]:
  "level_ok stdmsg_lv_dfl"
  "level_ok lv \<Longrightarrow> level_ok (stdmsg_lv_inc lv)"
  "level_ok lv \<Longrightarrow> level_ok (stdmsg_lv_dec lv)"
  "level_ok (stdmsg_lv_set l lv)"
  by (auto simp: level_ok_def stdmsg_lv_dfl_def stdmsg_lv_inc_def stdmsg_lv_dec_def stdmsg_lv_set_def)

lemma level_get: "level_ok lv \<Longrightarrow> uint (stdmsg_lv_get lv) = lv"
  by (simp add: level_ok_def stdmsg_lv_get_def uint_word_of_int)

lemma quiet_at_none:
  "ERR txt (stdmsg_lv_set 0 lv) = []" "INFO txt (stdmsg_lv_set 0 lv) = []"
  "DBG w txt (stdmsg_lv_set 0 lv) = []" "VBS w txt (stdmsg_lv_set 0 lv) = []"
  by (simp_all add: stdmsg_lv_set_def ERR_def INFO_def DBG_def VBS_def stdmsg_lv_test_def)

end
