(* ===== verification/Atomic.thy ===== *)
theory Atomic
  imports C_Prelude
begin

text \<open>
  \<open>lgu/atomic/atomic.h\<close>: an \<open>int\<close> with operations that are each one indivisible step, so
  threads that share a counter perform some sequence of them. Signed wrap-around is defined
  for the compiler's builtins.
\<close>

record atomic_t =
  counter :: "32 word"

definition ATOMIC_INIT :: "32 word \<Rightarrow> atomic_t" where
  "ATOMIC_INIT i = \<lparr>counter = i\<rparr>"

definition atomic_read :: "atomic_t \<Rightarrow> 32 word" where
  "atomic_read v = counter v"

definition atomic_set :: "atomic_t \<Rightarrow> 32 word \<Rightarrow> atomic_t" where
  "atomic_set v i = v\<lparr>counter := i\<rparr>"

text \<open>\<open>__sync_add_and_fetch\<close> and \<open>__sync_sub_and_fetch\<close>: the new value\<close>

definition sync_add_and_fetch :: "atomic_t \<Rightarrow> 32 word \<Rightarrow> 32 word \<times> atomic_t" where
  "sync_add_and_fetch v i = (counter v + i, v\<lparr>counter := counter v + i\<rparr>)"

definition sync_sub_and_fetch :: "atomic_t \<Rightarrow> 32 word \<Rightarrow> 32 word \<times> atomic_t" where
  "sync_sub_and_fetch v i = (counter v - i, v\<lparr>counter := counter v - i\<rparr>)"

definition atomic_add :: "32 word \<Rightarrow> atomic_t \<Rightarrow> atomic_t" where
  "atomic_add i v = snd (sync_add_and_fetch v i)"

definition atomic_sub :: "32 word \<Rightarrow> atomic_t \<Rightarrow> atomic_t" where
  "atomic_sub i v = snd (sync_sub_and_fetch v i)"

definition atomic_sub_and_test :: "32 word \<Rightarrow> atomic_t \<Rightarrow> bool \<times> atomic_t" where
  "atomic_sub_and_test i v = (let (r, v) = sync_sub_and_fetch v i in (r = 0, v))"

definition atomic_inc :: "atomic_t \<Rightarrow> atomic_t" where
  "atomic_inc v = snd (sync_add_and_fetch v 1)"

definition atomic_dec :: "atomic_t \<Rightarrow> atomic_t" where
  "atomic_dec v = snd (sync_sub_and_fetch v 1)"

definition atomic_dec_and_test :: "atomic_t \<Rightarrow> bool \<times> atomic_t" where
  "atomic_dec_and_test v = (let (r, v) = sync_sub_and_fetch v 1 in (r = 0, v))"

definition atomic_inc_and_test :: "atomic_t \<Rightarrow> bool \<times> atomic_t" where
  "atomic_inc_and_test v = (let (r, v) = sync_add_and_fetch v 1 in (r = 0, v))"

definition atomic_add_negative :: "32 word \<Rightarrow> atomic_t \<Rightarrow> bool \<times> atomic_t" where
  "atomic_add_negative i v = (let (r, v) = sync_add_and_fetch v i in (sint r < 0, v))"

lemmas atomic_defs = atomic_read_def atomic_set_def sync_add_and_fetch_def sync_sub_and_fetch_def
  atomic_add_def atomic_sub_def atomic_sub_and_test_def atomic_inc_def atomic_dec_def
  atomic_dec_and_test_def atomic_inc_and_test_def atomic_add_negative_def

section \<open>A reference counter\<close>

text \<open>
  The use the header has in mind: whoever takes a reference increments, whoever gives one
  back decrements and tests. \<open>Get\<close> and \<open>Put\<close> are the operations of all threads in the order
  in which they take effect; the result is that of the last \<open>Put\<close>s' tests, in order.
\<close>

datatype ref_op = Get | Put

fun ref_run :: "ref_op list \<Rightarrow> atomic_t \<Rightarrow> bool list \<times> atomic_t" where
  "ref_run [] v = ([], v)"
| "ref_run (Get # ops) v = ref_run ops (atomic_inc v)"
| "ref_run (Put # ops) v =
     (let (b, v) = atomic_dec_and_test v; (bs, v) = ref_run ops v in (b # bs, v))"

text \<open>The references there are; nobody gets or puts one when there is none.\<close>

fun ref_count :: "ref_op list \<Rightarrow> nat \<Rightarrow> nat option" where
  "ref_count [] n = Some n"
| "ref_count (op # ops) n =
     (if n = 0 \<or> 2 ^ 32 \<le> Suc n then None
      else ref_count ops (case op of Get \<Rightarrow> Suc n | Put \<Rightarrow> n - 1))"

lemma ref_run_count:
  assumes "ref_count ops n = Some m" and "unat (counter v) = n"
  shows "unat (counter (snd (ref_run ops v))) = m
    \<and> (0 < n \<longrightarrow> (\<exists>k. fst (ref_run ops v) = replicate k False @ (if m = 0 then [True] else [])))
    \<and> (n = 0 \<longrightarrow> fst (ref_run ops v) = [])"
  using assms
proof (induction ops arbitrary: n v)
  case Nil
  then show ?case by auto
next
  case (Cons op ops)
  then have n: "0 < n" "Suc n < 2 ^ 32" by (auto split: if_splits)
  show ?case
  proof (cases op)
    case Get
    have "unat (counter (atomic_inc v)) = Suc n"
      using Cons.prems(2) n by (simp add: atomic_defs unat_word_ariths)
    then show ?thesis using Cons.IH[of "Suc n" "atomic_inc v"] Cons.prems(1) Get n by simp
  next
    case Put
    let ?v = "v\<lparr>counter := counter v - 1\<rparr>"
    have ne: "counter v \<noteq> 0" using Cons.prems(2) n by auto
    then have v: "unat (counter ?v) = n - 1"
      using Cons.prems(2) n by (simp add: unat_sub word_le_nat_alt Suc_le_eq)
    then have z: "counter v - 1 = 0 \<longleftrightarrow> n - 1 = 0" by (metis atomic_t.select_convs(1) atomic_t.update_convs(1) atomic_t.surjective unat_eq_zero)
    have run: "ref_run (Put # ops) v = ((counter v - 1 = 0) # fst (ref_run ops ?v), snd (ref_run ops ?v))"
      by (simp add: atomic_defs case_prod_unfold Let_def)
    have "ref_count ops (n - 1) = Some m" using Cons.prems(1) Put n by simp
    note ih = Cons.IH[OF this v]
    show ?thesis
    proof (cases "n - 1 = 0")
      case True
      then have "ops = []" using \<open>ref_count ops (n - 1) = Some m\<close> by (cases ops) auto
      then have "m = 0" using \<open>ref_count ops (n - 1) = Some m\<close> True by simp
      then show ?thesis
        using run z True \<open>ops = []\<close> v n Put by (auto intro!: exI[of _ 0])
    next
      case False
      then obtain k where k: "fst (ref_run ops ?v) = replicate k False @ (if m = 0 then [True] else [])"
        using ih by auto
      have "fst (ref_run (op # ops) v) = replicate (Suc k) False @ (if m = 0 then [True] else [])"
        using run z False k Put by simp
      then show ?thesis using ih run n Put by (metis less_irrefl snd_conv)
    qed
  qed
qed

section \<open>Properties\<close>

text \<open>The last reference is seen once. Threads that share a counter and hold references to
  it while they use it make it count them exactly; of all their \<open>atomic_dec_and_test\<close> only the
  one that gives back the last reference returns true, in every interleaving.\<close>

theorem atomic_last_put_returns_true:
  assumes "ref_count ops n = Some m" and "0 < n" and "n < 2 ^ 32"
  shows "\<exists>k. ref_run ops (ATOMIC_INIT (of_nat n))
      = (replicate k False @ (if m = 0 then [True] else []), ATOMIC_INIT (of_nat m))"
proof -
  have "unat (counter (ATOMIC_INIT (of_nat n))) = n"
    using assms(3) by (simp add: ATOMIC_INIT_def unat_of_nat)
  from ref_run_count[OF assms(1) this] assms(2)
  obtain k where "fst (ref_run ops (ATOMIC_INIT (of_nat n))) = replicate k False @ (if m = 0 then [True] else [])"
      "unat (counter (snd (ref_run ops (ATOMIC_INIT (of_nat n))))) = m"
    by auto
  moreover from this(2) have "snd (ref_run ops (ATOMIC_INIT (of_nat n))) = ATOMIC_INIT (of_nat m)"
    by (simp add: ATOMIC_INIT_def word_eq_of_unat)
  ultimately show ?thesis by (intro exI[of _ k]) (simp add: prod_eq_iff)
qed

theorem atomic_last_put_returns_true_witness:
  "ref_run [Get, Put, Get, Put, Put] (ATOMIC_INIT 1) = ([False, False, True], ATOMIC_INIT 0)"
proof -
  have "\<exists>k. ref_run [Get, Put, Get, Put, Put] (ATOMIC_INIT (of_nat 1))
      = (replicate k False @ (if 0 = (0::nat) then [True] else []), ATOMIC_INIT (of_nat 0))"
    by (rule atomic_last_put_returns_true) simp_all
  then obtain k where k: "ref_run [Get, Put, Get, Put, Put] (ATOMIC_INIT 1)
      = (replicate k False @ [True], ATOMIC_INIT 0)"
    by auto
  have "length (fst (ref_run [Get, Put, Get, Put, Put] (ATOMIC_INIT 1))) = 3"
    by (simp add: atomic_defs ATOMIC_INIT_def case_prod_unfold)
  then have "k = 2" using k by simp
  then show ?thesis using k by (simp add: numeral_eq_Suc)
qed

end
