(* ===== verification/C_String.thy ===== *)
theory C_String
  imports C_Prelude
begin

text \<open>
  What the sources use of C strings: \<open>strcat\<close> and \<open>snprintf\<close> into arrays of a known size, and the
  conversions of \<open>printf\<close> that occur.
\<close>

section \<open>Arrays of characters\<close>

text \<open>A C string in an array of \<open>cap\<close> characters; \<open>strcat\<close> past its end is a fault.\<close>

definition strcat :: "nat \<Rightarrow> string \<Rightarrow> string \<Rightarrow> string res" where
  "strcat cap dst src = (if length dst + length src < cap then Inr (dst @ src) else Inl SegFault)"

text \<open>\<open>snprintf\<close> cuts the text to the array.\<close>

definition snprintf :: "nat \<Rightarrow> string \<Rightarrow> string" where
  "snprintf cap txt = take (cap - 1) txt"

section \<open>Conversions\<close>

definition hex_digit :: "nat \<Rightarrow> char" where
  "hex_digit n = (if n < 10 then char_of (48 + n) else char_of (55 + n))"

text \<open>\<open>%0nX\<close> for a value of at most \<open>n\<close> digits, \<open>%u\<close>, \<open>%-ns\<close>\<close>

fun hex_pad :: "nat \<Rightarrow> nat \<Rightarrow> string" where
  "hex_pad 0 v = []"
| "hex_pad (Suc n) v = hex_pad n (v div 16) @ [hex_digit (v mod 16)]"

fun dec :: "nat \<Rightarrow> string" where
  "dec n = (if n < 10 then [hex_digit n] else dec (n div 10) @ [hex_digit (n mod 10)])"

declare dec.simps [simp del]

definition pad_right :: "nat \<Rightarrow> string \<Rightarrow> string" where
  "pad_right n s = s @ replicate (n - length s) CHR '' ''"

text \<open>\<open>%d\<close>\<close>

definition print_int :: "int \<Rightarrow> string" where
  "print_int n = (if n < 0 then CHR ''-'' # dec (nat (- n)) else dec (nat n))"

lemma length_hex_pad [simp]: "length (hex_pad n v) = n"
  by (induction n v rule: hex_pad.induct) simp_all

lemma snprintf_short [simp]: "length txt < cap \<Longrightarrow> snprintf cap txt = txt"
  by (simp add: snprintf_def)

end
