(* ===== verification/Hexdump.thy ===== *)
theory Hexdump
  imports C_String
begin

text \<open>
  \<open>lgu/hexdump/hexdump.c\<close>: a hex and text dump of a buffer, built row by row in two
  fixed character arrays. The model keeps the arrays' sizes, so an overrun would be a fault.
\<close>

section \<open>The dump\<close>

text \<open>The head line: the loop over \<open>i\<close> from 0 to 15\<close>

function head_loop :: "nat \<Rightarrow> string \<times> string \<Rightarrow> (string \<times> string) res" where
  "head_loop i = (\<lambda>(dh, hr).
     if i < 16 then
       bindR (strcat 50 dh (snprintf 8 (hex_pad 2 i @ '' ''))) (\<lambda>dh.
       bindR (strcat 20 hr (snprintf 8 (hex_pad 1 i))) (\<lambda>hr.
         if i mod 16 = 7
         then bindR (strcat 20 hr '' '') (\<lambda>hr. bindR (strcat 50 dh '' '') (\<lambda>dh. head_loop (Suc i) (dh, hr)))
         else head_loop (Suc i) (dh, hr)))
     else Inr (dh, hr))"
  by pat_completeness auto
termination by (relation "measure (\<lambda>i. 16 - i)") auto

declare head_loop.simps [simp del]

text \<open>\<open>"%08X %-49s |%-17s|\n"\<close>\<close>

definition print_row :: "u32 \<Rightarrow> string \<Rightarrow> string \<Rightarrow> string" where
  "print_row line dh hr =
     hex_pad 8 (unat (0x10 * line)) @ '' '' @ pad_right 49 dh @ '' |'' @ pad_right 17 hr @ ''|'' @ [CHR 0x0A]"

text \<open>The loop over the bytes, and the last, incomplete row; \<open>data\<close> is the memory that may be read.\<close>

function byte_loop ::
  "u8 list \<Rightarrow> nat \<Rightarrow> nat \<Rightarrow> string \<Rightarrow> string \<Rightarrow> u32 \<Rightarrow> string \<Rightarrow> string res" where
  "byte_loop data nbytes i dh hr line out =
     (if i < nbytes then
        (if length data \<le> i then Inl SegFault
         else
           (let c = data ! i in
            bindR (strcat 50 dh (snprintf 8 (hex_pad 2 (unat c) @ '' ''))) (\<lambda>dh.
            bindR (if c < 0x21 \<or> c > 0x7e then strcat 20 hr ''.''
                   else strcat 20 hr (snprintf 8 [char_of (unat c)])) (\<lambda>hr.
              if i mod 16 = 7 then
                bindR (strcat 20 hr '' '') (\<lambda>hr. bindR (strcat 50 dh '' '') (\<lambda>dh.
                  byte_loop data nbytes (Suc i) dh hr line out))
              else if i mod 16 = 15 then
                byte_loop data nbytes (Suc i) [] [] (line + 1) (out @ print_row line dh hr)
              else byte_loop data nbytes (Suc i) dh hr line out))))
      else Inr (if length hr > 0 then out @ print_row line dh hr else out))"
  by pat_completeness auto
termination by (relation "measure (\<lambda>(data, nbytes, i, _). nbytes - i)") auto

declare byte_loop.simps [simp del]

definition hexdump_f :: "u8 list \<Rightarrow> u32 \<Rightarrow> u32 \<Rightarrow> string res" where
  "hexdump_f data nbytes limit =
     (let first = ''hexdump_f, len='' @ dec (unat nbytes) @ '', limit='' @ dec (unat limit) @ '':'' @ [CHR 0x0A] in
      bindR (head_loop 0 ([], [])) (\<lambda>(dh, hr).
        byte_loop data (unat nbytes) 0 [] [] 0
          (first @ ''         '' @ pad_right 49 dh @ '' |'' @ hr @ ''|'' @ [CHR 0x0A]
            @ ''         -----------------------  -----------------------   -------- --------'' @ [CHR 0x0A])))"

definition hexdump :: "u8 list \<Rightarrow> u32 \<Rightarrow> string res" where
  "hexdump p n = hexdump_f p n 0"

definition hexdump_limit :: "u8 list \<Rightarrow> u32 \<Rightarrow> u32 \<Rightarrow> string res" where
  "hexdump_limit p n limit = hexdump_f p n limit"

section \<open>What a row shows\<close>

definition hex_col :: "u8 list \<Rightarrow> string" where
  "hex_col bs = concat (map (\<lambda>b. hex_pad 2 (unat b) @ '' '') (take 8 bs))
     @ (if 8 \<le> length bs then '' '' else [])
     @ concat (map (\<lambda>b. hex_pad 2 (unat b) @ '' '') (drop 8 bs))"

definition shown :: "u8 \<Rightarrow> char" where
  "shown c = (if c < 0x21 \<or> c > 0x7e then CHR ''.'' else char_of (unat c))"

definition text_col :: "u8 list \<Rightarrow> string" where
  "text_col bs = map shown (take 8 bs) @ (if 8 \<le> length bs then '' '' else []) @ map shown (drop 8 bs)"

function rows :: "nat \<Rightarrow> u8 list \<Rightarrow> string list" where
  "rows k bs = (if bs = [] then []
     else print_row (of_nat k) (hex_col (take 16 bs)) (text_col (take 16 bs)) # rows (Suc k) (drop 16 bs))"
  by pat_completeness auto
termination by (relation "measure (\<lambda>(k, bs). length bs)") auto

declare rows.simps [simp del]

lemma length_concat_const: "(\<And>x. length (f x) = n) \<Longrightarrow> length (concat (map f xs)) = n * length xs"
  by (induction xs) simp_all

lemma length_hex_col: "length (hex_col bs) = 3 * length bs + (if 8 \<le> length bs then 1 else 0)"
  unfolding hex_col_def
  by (auto simp: length_concat_const[where f = "\<lambda>b. hex_pad 2 (unat b) @ '' ''" and n = 3])

lemma length_text_col: "length (text_col bs) = length bs + (if 8 \<le> length bs then 1 else 0)"
  by (simp add: text_col_def)

lemma cols_Nil [simp]: "hex_col [] = []" "text_col [] = []"
  by (simp_all add: hex_col_def text_col_def)

lemma hex_col_snoc:
  "hex_col (bs @ [c]) = hex_col bs @ hex_pad 2 (unat c) @ '' '' @ (if length bs = 7 then '' '' else [])"
  by (cases "length bs < 8") (auto simp: hex_col_def)

lemma text_col_snoc:
  "text_col (bs @ [c]) = text_col bs @ [shown c] @ (if length bs = 7 then '' '' else [])"
  by (cases "length bs < 8") (auto simp: text_col_def)

lemma rows_short: "length bs < 16 \<Longrightarrow> rows k bs = (if bs = [] then [] else [print_row (of_nat k) (hex_col bs) (text_col bs)])"
  by (subst rows.simps) (simp add: rows.simps)

lemma rows_full: "length bs = 16 \<Longrightarrow> rows k (bs @ cs) = print_row (of_nat k) (hex_col bs) (text_col bs) # rows (Suc k) cs"
  by (subst rows.simps) auto

lemma byte_loop_rows:
  assumes "nbytes \<le> length data" and "i \<le> nbytes" and "length cur = i mod 16"
  shows "byte_loop data nbytes i (hex_col cur) (text_col cur) (of_nat k) out
    = Inr (out @ concat (rows k (cur @ drop i (take nbytes data))))"
  using assms(2-)
proof (induction "nbytes - i" arbitrary: i cur k out)
  case 0
  then have "i = nbytes" by simp
  moreover have "length cur < 16" using 0(3) by simp
  ultimately show ?case
    by (subst byte_loop.simps) (auto simp: rows_short text_col_def)
next
  case (Suc n)
  let ?c = "data ! i"
  have i: "i < nbytes" "i < length data" using Suc.hyps(2) assms(1) by auto
  have dr: "drop i (take nbytes data) = ?c # drop (Suc i) (take nbytes data)"
    using i by (simp add: Cons_nth_drop_Suc[symmetric])
  have len: "length cur < 16" using Suc.prems(2) by simp
  have hx: "length (hex_col cur) \<le> 46" and tx: "length (text_col cur) \<le> 16"
    using len by (auto simp: length_hex_col length_text_col)
  let ?dh = "hex_col cur @ hex_pad 2 (unat ?c) @ '' ''" and ?hr = "text_col cur @ [shown ?c]"
  have dh: "strcat 50 (hex_col cur) (snprintf 8 (hex_pad 2 (unat ?c) @ '' '')) = Inr ?dh"
    using hx by (simp add: strcat_def)
  have hr: "(if ?c < 0x21 \<or> ?c > 0x7e then strcat 20 (text_col cur) ''.''
      else strcat 20 (text_col cur) (snprintf 8 [char_of (unat ?c)])) = Inr ?hr"
    using tx by (simp add: strcat_def shown_def)
  note step = byte_loop.simps[of data nbytes i "hex_col cur" "text_col cur" "of_nat k" out]
  consider (sep) "i mod 16 = 7" | (last) "i mod 16 = 15" | (other) "i mod 16 \<noteq> 7" "i mod 16 \<noteq> 15" by blast
  then show ?case
  proof cases
    case sep
    then have l7: "length cur = 7" using Suc.prems(2) by simp
    have "strcat 20 ?hr '' '' = Inr (text_col (cur @ [?c]))" "strcat 50 ?dh '' '' = Inr (hex_col (cur @ [?c]))"
      using l7 by (simp_all add: strcat_def length_hex_col length_text_col hex_col_snoc text_col_snoc)
    then have "byte_loop data nbytes i (hex_col cur) (text_col cur) (of_nat k) out
        = byte_loop data nbytes (Suc i) (hex_col (cur @ [?c])) (text_col (cur @ [?c])) (of_nat k) out"
      using i sep by (simp only: step Let_def dh hr bindR_Inr) simp
    also have "\<dots> = Inr (out @ concat (rows k ((cur @ [?c]) @ drop (Suc i) (take nbytes data))))"
      using Suc.hyps(2) Suc.prems l7 sep i by (intro Suc.hyps(1)) (auto simp: mod_Suc)
    finally show ?thesis by (simp add: dr)
  next
    case last
    then have l: "length (cur @ [?c]) = 16" using Suc.prems(2) by simp
    have cols: "?dh = hex_col (cur @ [?c])" "?hr = text_col (cur @ [?c])"
      using l by (simp_all add: hex_col_snoc text_col_snoc)
    have "byte_loop data nbytes i (hex_col cur) (text_col cur) (of_nat k) out
        = byte_loop data nbytes (Suc i) (hex_col []) (text_col []) (of_nat (Suc k))
            (out @ print_row (of_nat k) ?dh ?hr)"
      using i last by (simp only: step Let_def dh hr bindR_Inr) (simp add: add.commute)
    also have "\<dots> = Inr ((out @ print_row (of_nat k) ?dh ?hr)
        @ concat (rows (Suc k) ([] @ drop (Suc i) (take nbytes data))))"
      using Suc.hyps(2) Suc.prems last i by (intro Suc.hyps(1)) (auto simp: mod_Suc)
    finally show ?thesis
      using rows_full[OF l, of k "drop (Suc i) (take nbytes data)"] by (simp add: dr cols)
  next
    case other
    then have "length cur \<noteq> 7" using Suc.prems(2) by simp
    then have cols: "?dh = hex_col (cur @ [?c])" "?hr = text_col (cur @ [?c])"
      by (simp_all add: hex_col_snoc text_col_snoc)
    have "byte_loop data nbytes i (hex_col cur) (text_col cur) (of_nat k) out
        = byte_loop data nbytes (Suc i) (hex_col (cur @ [?c])) (text_col (cur @ [?c])) (of_nat k) out"
      using i other by (simp only: step Let_def dh hr bindR_Inr cols) simp
    also have "\<dots> = Inr (out @ concat (rows k ((cur @ [?c]) @ drop (Suc i) (take nbytes data))))"
      using Suc.hyps(2) Suc.prems other i by (intro Suc.hyps(1)) (auto simp: mod_Suc)
    finally show ?thesis by (simp add: dr)
  qed
qed


lemma head_loop_eq: "head_loop 0 ([], []) =
    Inr (''00 01 02 03 04 05 06 07  08 09 0A 0B 0C 0D 0E 0F '', ''01234567 89ABCDEF'')"
  by code_simp

section \<open>Reading a dump back\<close>

definition unhex :: "char \<Rightarrow> nat" where
  "unhex c = (if of_char c < (58 :: nat) then of_char c - 48 else of_char c - 55)"

fun hex_pairs :: "string \<Rightarrow> u8 list" where
  "hex_pairs (a # b # s) = of_nat (16 * unhex a + unhex b) # hex_pairs s"
| "hex_pairs _ = []"

text \<open>The bytes a row shows: the 49 characters after the offset, without the blanks\<close>

definition row_bytes :: "string \<Rightarrow> u8 list" where
  "row_bytes r = hex_pairs (filter (\<lambda>c. c \<noteq> CHR '' '') (take 49 (drop 9 r)))"

lemma unhex_digit: "n < 16 \<Longrightarrow> unhex (hex_digit n) = n"
  by (auto simp: unhex_def hex_digit_def of_char_of)

lemma hex_digit_not_blank: "n < 16 \<Longrightarrow> hex_digit n \<noteq> CHR '' ''"
proof
  assume "n < 16" and "hex_digit n = CHR '' ''"
  then have "of_char (hex_digit n) = (32 :: nat)" by simp
  then show False using \<open>n < 16\<close> by (auto simp: hex_digit_def of_char_of split: if_splits)
qed

lemma hex_pad_2: "hex_pad 2 v = [hex_digit (v div 16 mod 16), hex_digit (v mod 16)]"
  by (simp add: numeral_2_eq_2)

lemma hex_pairs_bytes: "hex_pairs (concat (map (\<lambda>b. hex_pad 2 (unat b)) bs)) = bs"
proof (induction bs)
  case (Cons b bs)
  have "unat b < 256" using unsigned_less[of b] by simp
  then have "unat b div 16 < 16" by simp
  then have "16 * unhex (hex_digit (unat b div 16 mod 16)) + unhex (hex_digit (unat b mod 16)) = unat b"
    by (simp add: unhex_digit)
  then show ?case using Cons by (simp add: hex_pad_2 del: of_nat_add of_nat_mult)
qed simp

lemma filter_hex_col:
  "filter (\<lambda>c. c \<noteq> CHR '' '') (hex_col bs) = concat (map (\<lambda>b. hex_pad 2 (unat b)) bs)"
proof -
  let ?p = "\<lambda>c. c \<noteq> CHR '' ''"
  have one: "filter ?p (hex_pad 2 v @ '' '') = hex_pad 2 v" for v
    by (simp add: hex_pad_2 hex_digit_not_blank)
  have "filter ?p (concat (map (\<lambda>b. hex_pad 2 (unat b) @ '' '') xs)) = concat (map (\<lambda>b. hex_pad 2 (unat b)) xs)" for xs :: "u8 list"
  proof (induction xs)
    case (Cons x xs)
    then show ?case using one[of "unat x"] by simp
  qed simp
  then have "filter ?p (hex_col bs)
      = concat (map (\<lambda>b. hex_pad 2 (unat b)) (take 8 bs)) @ concat (map (\<lambda>b. hex_pad 2 (unat b)) (drop 8 bs))"
    by (simp add: hex_col_def)
  also have "\<dots> = concat (map (\<lambda>b. hex_pad 2 (unat b)) bs)"
    by (metis append_take_drop_id concat_append map_append)
  finally show ?thesis .
qed

lemma row_bytes_row:
  assumes "length bs \<le> 16"
  shows "row_bytes (print_row l (hex_col bs) (text_col bs)) = bs"
proof -
  have "length (hex_col bs) \<le> 49" using assms by (simp add: length_hex_col)
  then have "take 49 (drop 9 (print_row l (hex_col bs) (text_col bs))) = pad_right 49 (hex_col bs)"
    by (simp add: print_row_def pad_right_def)
  then show ?thesis
    by (simp add: row_bytes_def pad_right_def filter_hex_col hex_pairs_bytes)
qed

lemma length_row:
  assumes "length bs \<le> 16"
  shows "length (print_row l (hex_col bs) (text_col bs)) = 79"
  using assms by (simp add: print_row_def pad_right_def length_hex_col length_text_col)

lemma rows_facts:
  "length (rows k bs) = (length bs + 15) div 16"
  "concat (map row_bytes (rows k bs)) = bs"
  "r \<in> set (rows k bs) \<Longrightarrow> length r = 79"
  "i < length (rows k bs) \<Longrightarrow> take 8 (rows k bs ! i) = hex_pad 8 (unat (0x10 * of_nat (k + i) :: u32))"
proof (induction k bs arbitrary: i rule: rows.induct)
  case (1 k bs)
  have eq: "rows k bs = (if bs = [] then []
     else print_row (of_nat k) (hex_col (take 16 bs)) (text_col (take 16 bs)) # rows (Suc k) (drop 16 bs))"
    by (rule rows.simps)
  { case 1
    show ?case
    proof (cases "16 \<le> length bs")
      case True
      then obtain m where m: "length bs = 16 + m" by (metis le_add_diff_inverse)
      then have "bs \<noteq> []" by auto
      then show ?thesis using "1.IH"(1) m by (simp add: eq)
    next
      case False
      moreover have "(length bs + 15) div 16 = 1" if "bs \<noteq> []"
        using that False by (intro div_nat_eqI) (auto simp: Suc_le_eq)
      ultimately show ?thesis by (simp add: rows_short)
    qed }
  { case 2 show ?case using "1.IH"(2) by (simp add: eq row_bytes_row) }
  { case 3 then show ?case using "1.IH"(3) by (auto simp: eq length_row split: if_splits) }
  { case 4
    then have ne: "bs \<noteq> []" by (auto simp: eq)
    show ?case
    proof (cases i)
      case 0
      then show ?thesis using ne by (simp add: eq print_row_def)
    next
      case (Suc j)
      then have "j < length (rows (Suc k) (drop 16 bs))" using 4 ne by (simp add: eq)
      from "1.IH"(4)[OF ne this] show ?thesis using ne Suc by (simp add: eq)
    qed }
qed

section \<open>Properties\<close>

text \<open>The two lines above the rows\<close>

definition dump_head :: "u32 \<Rightarrow> u32 \<Rightarrow> string" where
  "dump_head nbytes limit = ''hexdump_f, len='' @ dec (unat nbytes) @ '', limit='' @ dec (unat limit) @ '':'' @ [CHR 0x0A]
     @ ''         00 01 02 03 04 05 06 07  08 09 0A 0B 0C 0D 0E 0F  |01234567 89ABCDEF|'' @ [CHR 0x0A]
     @ ''         -----------------------  -----------------------   -------- --------'' @ [CHR 0x0A]"

text \<open>C34: a dump is complete and in its arrays. For any readable buffer \<open>hexdump_f\<close> ends without
  writing past \<open>hd[50]\<close> and \<open>hr[20]\<close>. Below the two head lines it prints one row of 79
  characters for every 16 bytes or part of it, row \<open>i\<close> with the offset \<open>16 i\<close>, and reading the hex
  columns back gives exactly the bytes of the buffer. \<open>limit\<close> is printed but limits nothing.\<close>

theorem hexdump_complete:
  assumes "unat nbytes \<le> length data"
  shows "\<exists>rs. (\<forall>limit. hexdump_f data nbytes limit = Inr (dump_head nbytes limit @ concat rs))
    \<and> length rs = (unat nbytes + 15) div 16 \<and> (\<forall>r \<in> set rs. length r = 79)
    \<and> (\<forall>i < length rs. take 8 (rs ! i) = hex_pad 8 (16 * i))
    \<and> concat (map row_bytes rs) = take (unat nbytes) data"
proof -
  let ?n = "unat nbytes" and ?rs = "rows 0 (take (unat nbytes) data)"
  have "hexdump_f data nbytes limit = Inr (dump_head nbytes limit @ concat ?rs)" for limit
    using byte_loop_rows[where nbytes = ?n and data = data and i = 0 and cur = "[]" and k = 0
        and out = "dump_head nbytes limit"] assms
    by (simp add: hexdump_f_def head_loop_eq dump_head_def pad_right_def Let_def)
  moreover have "take 8 (?rs ! i) = hex_pad 8 (16 * i)" if "i < length ?rs" for i
  proof -
    have "i < (?n + 15) div 16" using that rows_facts(1) assms by simp
    then have "16 * i < ?n" by simp
    also have "?n < 2 ^ 32" using unsigned_less[of nbytes] by simp
    finally have "16 * i < 2 ^ 32" .
    then have "unat (0x10 * of_nat i :: u32) = 16 * i" by (simp add: unat_word_ariths unat_of_nat)
    then show ?thesis using rows_facts(4)[OF that] by simp
  qed
  ultimately show ?thesis
    using rows_facts[where k = 0 and bs = "take ?n data"] assms by (intro exI[of _ ?rs]) simp
qed

theorem hexdump_complete_witness:
  "\<exists>rs. hexdump_f (map of_nat [0..<20]) 20 7 = Inr (dump_head 20 7 @ concat rs)
    \<and> length rs = 2 \<and> concat (map row_bytes rs) = map of_nat [0..<20]"
proof -
  have "unat (20 :: u32) \<le> length (map of_nat [0..<20] :: u8 list)" by simp
  from hexdump_complete[OF this]
  obtain rs where "\<forall>limit. hexdump_f (map of_nat [0..<20]) 20 limit = Inr (dump_head 20 limit @ concat rs)"
    "length rs = (unat (20 :: u32) + 15) div 16" "concat (map row_bytes rs) = take (unat (20 :: u32)) (map of_nat [0..<20])"
    by blast
  then show ?thesis by (intro exI[of _ rs]) simp
qed

end
