(* ===== verification/Asciidump.thy ===== *)
theory Asciidump
  imports C_String
begin

text \<open>
  \<open>lgu/asciidump/asciidump.h\<close>: a buffer as text, each other byte as a coloured hexadecimal
  escape. The model gives what is printed.
\<close>

section \<open>The dump\<close>

definition is_text :: "u8 \<Rightarrow> bool" where
  "is_text ch \<longleftrightarrow> (ch \<ge> 0x20 \<and> ch \<le> 0x7E) \<and> ch \<noteq> 0x5C"

abbreviation ESC :: char where
  "ESC \<equiv> CHR 0x1B"

text \<open>A digit of \<open>%02x\<close>\<close>

definition hex_lower :: "nat \<Rightarrow> char" where
  "hex_lower n = (if n < 10 then char_of (48 + n) else char_of (87 + n))"

definition print_byte :: "u8 \<Rightarrow> string" where
  "print_byte ch =
     (if \<not> is_text ch
      then ESC # ''[0;33m'' @ [CHR 0x5C, hex_lower (unat ch div 16), hex_lower (unat ch mod 16)] @ ESC # ''[0m''
      else [char_of (unat ch)])"

text \<open>The loop over \<open>i\<close>; \<open>data\<close> is the memory that may be read.\<close>

function ascii_loop :: "u8 list \<Rightarrow> int \<Rightarrow> int \<Rightarrow> int \<Rightarrow> string \<Rightarrow> string res" where
  "ascii_loop data nbytes limit i out =
     (if i < nbytes \<and> (limit = 0 \<or> i < limit) then
        (if int (length data) \<le> i then Inl SegFault
         else ascii_loop data nbytes limit (i + 1) (out @ print_byte (data ! nat i)))
      else Inr out)"
  by pat_completeness auto
termination by (relation "measure (\<lambda>(data, nbytes, limit, i, out). nat (nbytes - i))") auto

declare ascii_loop.simps [simp del]

definition asciidump_limit :: "u8 list option \<Rightarrow> int \<Rightarrow> int \<Rightarrow> string res" where
  "asciidump_limit data nbytes limit =
     (case data of
        None \<Rightarrow> Inr []
      | Some d \<Rightarrow>
          bindR (ascii_loop d nbytes limit 0 (ESC # ''[0;35m +'' @ print_int nbytes @ ''>'' @ ESC # ''[0m ''))
            (\<lambda>out. Inr (out @ [CHR 0x0A])))"

definition asciidump :: "u8 list option \<Rightarrow> int \<Rightarrow> string res" where
  "asciidump p plen = asciidump_limit p plen 0"

section \<open>Reading it back\<close>

definition unhex_lower :: "char \<Rightarrow> nat" where
  "unhex_lower c = (if of_char c < (58 :: nat) then of_char c - 48 else of_char c - 87)"

text \<open>An escape takes 14 characters, with the digits at 8 and 9.\<close>

function read_dump :: "string \<Rightarrow> u8 list" where
  "read_dump s =
     (case s of
        [] \<Rightarrow> []
      | c # s' \<Rightarrow>
          if c = ESC
          then of_nat (16 * unhex_lower (s ! 8) + unhex_lower (s ! 9)) # read_dump (drop 14 s)
          else of_nat (of_char c) # read_dump s')"
  by pat_completeness auto
termination by (relation "measure length") auto

declare read_dump.simps [simp del]

text \<open>How many bytes are shown\<close>

definition shown_bytes :: "int \<Rightarrow> int \<Rightarrow> nat" where
  "shown_bytes nbytes limit = nat (if limit = 0 then nbytes else min nbytes limit)"

lemma ascii_loop_eq:
  assumes "nbytes \<le> int (length data)" and "i \<le> shown_bytes nbytes limit"
  shows "ascii_loop data nbytes limit (int i) out
    = Inr (out @ concat (map print_byte (drop i (take (shown_bytes nbytes limit) data))))"
  using assms(2)
proof (induction "shown_bytes nbytes limit - i" arbitrary: i out)
  case 0
  then have "i = shown_bytes nbytes limit" by simp
  moreover from this have no: "\<not> (int i < nbytes \<and> (limit = 0 \<or> int i < limit))"
    by (auto simp: shown_bytes_def)
  have "ascii_loop data nbytes limit (int i) out = Inr out"
    by (subst ascii_loop.simps, subst if_not_P[OF no]) (rule refl)
  ultimately show ?case by simp
next
  case (Suc n)
  let ?m = "shown_bytes nbytes limit"
  have i: "i < ?m" using Suc.hyps(2) by simp
  then have g: "int i < nbytes \<and> (limit = 0 \<or> int i < limit)"
    by (auto simp: shown_bytes_def split: if_splits)
  have il: "i < length data" using g assms(1) by simp
  have "ascii_loop data nbytes limit (int i) out = ascii_loop data nbytes limit (int (Suc i)) (out @ print_byte (data ! i))"
    using g il by (subst ascii_loop.simps) (simp add: add.commute)
  also have "\<dots> = Inr ((out @ print_byte (data ! i)) @ concat (map print_byte (drop (Suc i) (take ?m data))))"
    using Suc.hyps(2) i by (intro Suc.hyps(1)) auto
  also have "drop i (take ?m data) = data ! i # drop (Suc i) (take ?m data)"
    using i il by (simp add: Cons_nth_drop_Suc[symmetric])
  ultimately show ?case by simp
qed

lemma unhex_lower_digit: "n < 16 \<Longrightarrow> unhex_lower (hex_lower n) = n"
  by (auto simp: unhex_lower_def hex_lower_def of_char_of)

lemma word_unat_of_nat_self: "of_nat (unat (ch :: u8)) = ch"
  by simp

lemma unat_u8_less: "unat (ch :: u8) < 256"
  using unsigned_less[of ch] by simp

lemma read_print_byte: "read_dump (print_byte ch @ s) = ch # read_dump s"
proof (cases "is_text ch")
  case True
  then have "0x20 \<le> unat ch" by (simp add: is_text_def word_le_nat_alt)
  then have "of_char (char_of (unat ch)) \<noteq> (of_char ESC :: nat)"
    using unat_u8_less[of ch] by (simp add: of_char_of)
  then have ne: "char_of (unat ch) \<noteq> ESC" by metis
  have "of_nat (of_char (char_of (unat ch))) = ch"
    using unat_u8_less[of ch] by (simp add: of_char_of)
  then show ?thesis using True ne by (subst read_dump.simps) (simp add: print_byte_def)
next
  case False
  have "unat ch div 16 < 16" using unat_u8_less[of ch] by simp
  then have "16 * unhex_lower (hex_lower (unat ch div 16)) + unhex_lower (hex_lower (unat ch mod 16)) = unat ch"
    by (simp add: unhex_lower_digit)
  then have "of_nat (16 * unhex_lower (hex_lower (unat ch div 16)) + unhex_lower (hex_lower (unat ch mod 16))) = ch"
    by (simp only: word_unat_of_nat_self)
  then show ?thesis using False
    by (subst read_dump.simps) (simp add: print_byte_def del: of_nat_add of_nat_mult)
qed

lemma read_print_bytes: "read_dump (concat (map print_byte bs)) = bs"
proof (induction bs)
  case (Cons b bs)
  then show ?case using read_print_byte[of b "concat (map print_byte bs)"] by simp
qed (simp add: read_dump.simps)

text \<open>Printable characters and ESC only\<close>

definition safe_char :: "char \<Rightarrow> bool" where
  "safe_char c \<longleftrightarrow> c = ESC \<or> 0x20 \<le> (of_char c :: nat) \<and> (of_char c :: nat) \<le> 0x7E"

lemma hex_lower_safe: "n < 16 \<Longrightarrow> safe_char (hex_lower n)"
  by (auto simp: safe_char_def hex_lower_def of_char_of)

lemma print_byte_safe: "c \<in> set (print_byte ch) \<Longrightarrow> safe_char c"
proof (cases "is_text ch")
  case True
  assume "c \<in> set (print_byte ch)"
  then have "c = char_of (unat ch)" using True by (simp add: print_byte_def)
  then show ?thesis using True unat_u8_less[of ch]
    by (simp add: safe_char_def is_text_def word_le_nat_alt of_char_of)
next
  case False
  assume c: "c \<in> set (print_byte ch)"
  have "safe_char (hex_lower (unat ch div 16))" "safe_char (hex_lower (unat ch mod 16))"
    using unat_u8_less[of ch] by (auto intro!: hex_lower_safe)
  then show ?thesis using c False by (auto simp: print_byte_def safe_char_def)
qed

section \<open>Properties\<close>

text \<open>C39: a dump can be read back and is safe to print. Between its head and the newline
  \<open>asciidump_limit\<close> prints only printable characters and the escapes of its own, whatever the
  bytes are, and the text determines the bytes: the first \<open>nbytes\<close>, or \<open>limit\<close> of them when a
  limit is set.\<close>

theorem asciidump_reads_back:
  assumes "nbytes \<le> int (length data)"
  shows "\<exists>body. asciidump_limit (Some data) nbytes limit
      = Inr (ESC # ''[0;35m +'' @ print_int nbytes @ ''>'' @ ESC # ''[0m '' @ body @ [CHR 0x0A])
    \<and> read_dump body = take (nat (if limit = 0 then nbytes else min nbytes limit)) data
    \<and> (\<forall>c \<in> set body. c = ESC \<or> 0x20 \<le> (of_char c :: nat) \<and> (of_char c :: nat) \<le> 0x7E)"
proof -
  let ?bs = "take (shown_bytes nbytes limit) data"
  have "asciidump_limit (Some data) nbytes limit
      = Inr ((ESC # ''[0;35m +'' @ print_int nbytes @ ''>'' @ ESC # ''[0m '') @ concat (map print_byte ?bs) @ [CHR 0x0A])"
    using ascii_loop_eq[OF assms, of 0 limit] by (simp add: asciidump_limit_def)
  moreover have "safe_char c" if "c \<in> set (concat (map print_byte ?bs))" for c
    using that print_byte_safe by auto
  ultimately show ?thesis
    using read_print_bytes[of ?bs]
    by (intro exI[of _ "concat (map print_byte ?bs)"]) (simp add: shown_bytes_def safe_char_def)
qed

theorem asciidump_reads_back_witness:
  "\<exists>body. asciidump_limit (Some [0x41, 0x5C, 0x1B, 0x42]) 4 3
      = Inr (ESC # ''[0;35m +'' @ print_int 4 @ ''>'' @ ESC # ''[0m '' @ body @ [CHR 0x0A])
    \<and> read_dump body = [0x41, 0x5C, 0x1B]"
  using asciidump_reads_back[of 4 "[0x41, 0x5C, 0x1B, 0x42]" 3] by (auto simp: numeral_eq_Suc)

end
