(* ===== verification/Fio_Easyrw.thy ===== *)
theory Fio_Easyrw
  imports C_Prelude "HOL-Library.Sublist"
begin

text \<open>
  \<open>lgu/fio/fio_easyrw.c\<close> and \<open>fio_easyrw.h\<close>: reading a regular file into one buffer or block by
  block. The answers of the operating system are an argument: what \<open>stat\<close> says, whether \<open>open\<close>
  succeeds, what \<open>malloc\<close> gives, and how \<open>read\<close> cuts the contents into pieces.
\<close>

section \<open>Data\<close>

datatype fio_easyrw_res_t =
  FIO_EASYRW_RES_OK | FIO_EASYRW_RES_INVAL | FIO_EASYRW_RES_OPEN | FIO_EASYRW_RES_NOMEM
| FIO_EASYRW_RES_IO | FIO_EASYRW_RRRNUM_OVERSZ | FIO_EASYRW_RES_MISC

text \<open>The buffer is \<open>None\<close> for NULL, else its bytes, as many as were allocated.\<close>

record fio_easyrw =
  path :: "string option"
  limit :: u64
  out_buf :: "u8 list option"
  out_len :: u32
  out_max :: u32
  erw_fd :: int

definition MY_PAGE_SZ :: u32 where
  "MY_PAGE_SZ = 4096"

text \<open>
  \<open>os_stat\<close> is \<open>None\<close> when \<open>stat\<close> fails, else whether the file is regular and \<open>st_size\<close>.
  The \<open>i\<close>-th \<open>read\<close> fails when \<open>os_read i\<close> is \<open>None\<close>, else it gives at most \<open>Suc k\<close>
  bytes. \<open>os_content\<close> is what the file holds while it is read.
\<close>

record os =
  os_stat :: "(bool \<times> u64) option"
  os_malloc :: "u32 \<Rightarrow> u8 list option"
  os_open :: bool
  os_content :: "u8 list"
  os_read :: "nat \<Rightarrow> nat option"

definition malloc_ok :: "os \<Rightarrow> bool" where
  "malloc_ok w \<longleftrightarrow> (\<forall>n b. os_malloc w n = Some b \<longrightarrow> length b = unat n)"

text \<open>\<open>read\<close> of at most \<open>n\<close> of the bytes \<open>rest\<close> that are left\<close>

definition sys_read :: "os \<Rightarrow> nat \<Rightarrow> nat \<Rightarrow> u8 list \<Rightarrow> u8 list option" where
  "sys_read w i n rest = map_option (\<lambda>k. take (min n (Suc k)) rest) (os_read w i)"

text \<open>Bytes written to a buffer from \<open>off\<close> on; past its end is a fault.\<close>

definition put_bytes :: "nat \<Rightarrow> u8 list \<Rightarrow> u8 list \<Rightarrow> u8 list res" where
  "put_bytes off bs buf =
     (if off + length bs \<le> length buf
      then Inr (take off buf @ bs @ drop (off + length bs) buf) else Inl SegFault)"

section \<open>The operations\<close>

definition fio_easyrw_init :: "string option \<Rightarrow> u64 \<Rightarrow> fio_easyrw" where
  "fio_easyrw_init p lim =
     \<lparr>path = p, limit = lim, out_buf = None, out_len = 0, out_max = 0, erw_fd = -1\<rparr>"

definition fio_easyrw_get_out :: "fio_easyrw \<Rightarrow> u8 list option" where
  "fio_easyrw_get_out erw = out_buf erw"

definition fio_easyrw_get_out_len :: "fio_easyrw \<Rightarrow> u32" where
  "fio_easyrw_get_out_len erw = out_len erw"

definition fio_easyrw_alloc_out :: "os \<Rightarrow> u32 \<Rightarrow> fio_easyrw \<Rightarrow> (int \<times> fio_easyrw) res" where
  "fio_easyrw_alloc_out w len erw =
     bug_on (out_buf erw \<noteq> None)
       (case os_malloc w (len + MY_PAGE_SZ) of
          None \<Rightarrow> Inr (-1, erw)
        | Some b \<Rightarrow> Inr (0, erw\<lparr>out_buf := Some b, out_len := 0, out_max := len\<rparr>))"

definition fio_easyrw_free_out :: "fio_easyrw \<Rightarrow> fio_easyrw" where
  "fio_easyrw_free_out erw =
     (if out_buf erw \<noteq> None then erw\<lparr>out_buf := None, out_len := 0, out_max := 0\<rparr> else erw)"

definition fio_easyrw_exit :: "fio_easyrw \<Rightarrow> fio_easyrw" where
  "fio_easyrw_exit erw = fio_easyrw_free_out erw"

text \<open>The loop of \<open>__fio_easyrw_read_simple\<close>: \<open>off\<close> is \<open>p - out\<close>.\<close>

function simple_loop ::
  "os \<Rightarrow> nat \<Rightarrow> u8 list \<Rightarrow> nat \<Rightarrow> u32 \<Rightarrow> u32 \<Rightarrow> u32 \<Rightarrow> fio_easyrw
    \<Rightarrow> (fio_easyrw_res_t \<times> fio_easyrw) res"
where
  "simple_loop w i rest off accl p_unused expect_len erw =
     (case sys_read w i (unat p_unused) rest of
        None \<Rightarrow> Inr (FIO_EASYRW_RES_IO, erw)
      | Some bs \<Rightarrow>
          if bs = [] then
            (if accl \<noteq> expect_len then Inr (FIO_EASYRW_RES_IO, erw)
             else Inr (FIO_EASYRW_RES_OK, erw\<lparr>out_len := expect_len\<rparr>))
          else
            bindR (put_bytes off bs (the (out_buf erw))) (\<lambda>buf.
              (let erw = erw\<lparr>out_buf := Some buf\<rparr>; accl = accl + of_nat (length bs) in
               if accl > expect_len then Inr (FIO_EASYRW_RES_IO, erw)
               else simple_loop w (Suc i) (drop (length bs) rest) (off + length bs) accl
                      (p_unused - of_nat (length bs)) expect_len erw)))"
  by pat_completeness auto
termination
  by (relation "measure (\<lambda>(w, i, rest, _). length rest)")
    (auto simp: sys_read_def intro!: diff_less)

declare simple_loop.simps [simp del]

definition raw_fio_easyrw_read_simple ::
  "os \<Rightarrow> u32 \<Rightarrow> fio_easyrw \<Rightarrow> (fio_easyrw_res_t \<times> fio_easyrw) res" where
  "raw_fio_easyrw_read_simple w expect_len erw =
     bug_on (\<not> (out_max erw > 0 \<and> out_buf erw \<noteq> None))
       (bug_on (out_len erw \<noteq> 0)
         (simple_loop w 0 (os_content w) 0 0 (out_max erw) expect_len erw))"

definition fio_easyrw_read_simple :: "os \<Rightarrow> fio_easyrw \<Rightarrow> (fio_easyrw_res_t \<times> fio_easyrw) res" where
  "fio_easyrw_read_simple w erw =
     (let erw = fio_easyrw_free_out erw in
      if path erw = None then Inr (FIO_EASYRW_RES_INVAL, erw)
      else (case os_stat w of
          None \<Rightarrow> Inr (FIO_EASYRW_RES_OPEN, erw)
        | Some (reg, st_size) \<Rightarrow>
            if \<not> reg then Inr (FIO_EASYRW_RES_OPEN, erw)
            else if limit erw \<noteq> 0 \<and> limit erw < st_size then Inr (FIO_EASYRW_RRRNUM_OVERSZ, erw)
            else bindR (fio_easyrw_alloc_out w (ucast st_size) erw) (\<lambda>(r, erw).
              if r \<noteq> 0 then Inr (FIO_EASYRW_RES_NOMEM, erw)
              else if \<not> os_open w then Inr (FIO_EASYRW_RES_OPEN, fio_easyrw_free_out erw)
              else bindR (raw_fio_easyrw_read_simple w (ucast st_size) erw) (\<lambda>(res, erw).
                if res \<noteq> FIO_EASYRW_RES_OK then Inr (res, fio_easyrw_free_out erw)
                else Inr (FIO_EASYRW_RES_OK, erw)))))"

text \<open>
  \<open>__fio_easyrw_read\<close>. The callback sees the bytes \<open>out[0 .. out_len)\<close> and the private data.
\<close>

function block_loop ::
  "os \<Rightarrow> nat \<Rightarrow> u8 list \<Rightarrow> u64 \<Rightarrow> (u8 list \<Rightarrow> 'c \<Rightarrow> 32 word \<times> 'c) \<Rightarrow> 'c \<Rightarrow> fio_easyrw
    \<Rightarrow> (fio_easyrw_res_t \<times> 'c \<times> fio_easyrw) res"
where
  "block_loop w i rest accl func priv erw =
     (case sys_read w i (unat (out_max erw)) rest of
        None \<Rightarrow> Inr (FIO_EASYRW_RES_IO, priv, erw)
      | Some bs \<Rightarrow>
          if bs = [] then Inr (FIO_EASYRW_RES_OK, priv, erw)
          else
            bindR (put_bytes 0 bs (the (out_buf erw))) (\<lambda>buf.
              (let erw = erw\<lparr>out_buf := Some buf\<rparr>; accl = accl + of_nat (length bs) in
               if limit erw \<noteq> 0 \<and> accl > limit erw then Inr (FIO_EASYRW_RRRNUM_OVERSZ, priv, erw)
               else
                 (let erw = erw\<lparr>out_len := of_nat (length bs)\<rparr>;
                      (ret, priv) = func (take (unat (out_len erw)) buf) priv in
                  if ret \<noteq> 0 then Inr (FIO_EASYRW_RES_MISC, priv, erw)
                  else block_loop w (Suc i) (drop (length bs) rest) accl func priv erw))))"
  by pat_completeness auto
termination
  by (relation "measure (\<lambda>(w, i, rest, _). length rest)")
    (auto simp: sys_read_def intro!: diff_less)

declare block_loop.simps [simp del]

definition raw_fio_easyrw_read ::
  "os \<Rightarrow> (u8 list \<Rightarrow> 'c \<Rightarrow> 32 word \<times> 'c) option \<Rightarrow> 'c \<Rightarrow> fio_easyrw
    \<Rightarrow> (fio_easyrw_res_t \<times> 'c \<times> fio_easyrw) res" where
  "raw_fio_easyrw_read w func priv erw =
     bug_on (\<not> (out_max erw > 0 \<and> out_buf erw \<noteq> None))
       (bug_on (func = None)
         (block_loop w 0 (os_content w) 0 (the func) priv erw))"

definition fio_easyrw_read ::
  "os \<Rightarrow> (u8 list \<Rightarrow> 'c \<Rightarrow> 32 word \<times> 'c) option \<Rightarrow> 'c \<Rightarrow> fio_easyrw
    \<Rightarrow> (fio_easyrw_res_t \<times> 'c \<times> fio_easyrw) res" where
  "fio_easyrw_read w func priv erw =
     (let erw = fio_easyrw_free_out erw in
      if path erw = None then Inr (FIO_EASYRW_RES_INVAL, priv, erw)
      else (case os_stat w of
          None \<Rightarrow> Inr (FIO_EASYRW_RES_OPEN, priv, erw)
        | Some (reg, st_size) \<Rightarrow>
            if \<not> reg then Inr (FIO_EASYRW_RES_OPEN, priv, erw)
            else bindR (fio_easyrw_alloc_out w 8192 erw) (\<lambda>(r, erw).
              if r \<noteq> 0 then Inr (FIO_EASYRW_RES_NOMEM, priv, erw)
              else if \<not> os_open w then Inr (FIO_EASYRW_RES_OPEN, priv, fio_easyrw_free_out erw)
              else bindR (raw_fio_easyrw_read w func priv erw) (\<lambda>(res, priv, erw).
                Inr (res, priv, fio_easyrw_free_out erw)))))"


section \<open>Reading a whole file\<close>

definition reads_ok :: "os \<Rightarrow> bool" where
  "reads_ok w \<longleftrightarrow> (\<forall>i. os_read w i \<noteq> None)"

lemma sys_read_cases:
  assumes "reads_ok w"
  obtains l where "sys_read w i n rest = Some (take l rest)" and "l \<le> n"
    and "0 < n \<Longrightarrow> 0 < l"
proof -
  obtain k where "os_read w i = Some k" using assms by (auto simp: reads_ok_def)
  then show ?thesis using that[of "min n (Suc k)"] by (simp add: sys_read_def)
qed

lemma put_bytes_fits:
  "off + length bs \<le> length buf \<Longrightarrow> put_bytes off bs buf = Inr (take off buf @ bs @ drop (off + length bs) buf)"
  by (simp add: put_bytes_def)

lemma simple_loop_reads:
  assumes ok: "reads_ok w" and m: "m < 2 ^ 32"
    and "off \<le> m" and "m - off \<le> length rest" and "out_buf erw = Some b" and "m \<le> length b"
  shows "simple_loop w i rest off (of_nat off) (of_nat (m - off)) (of_nat m) erw
    = Inr (FIO_EASYRW_RES_OK, erw\<lparr>out_buf := Some (take off b @ take (m - off) rest @ drop m b), out_len := of_nat m\<rparr>)"
  using assms(3-)
proof (induction "m - off" arbitrary: i rest off erw b rule: less_induct)
  case less
  have n: "unat (of_nat (m - off) :: u32) = m - off" using m by (simp add: unat_of_nat)
  obtain l where l: "sys_read w i (m - off) rest = Some (take l rest)" "l \<le> m - off" "0 < m - off \<Longrightarrow> 0 < l"
    using sys_read_cases[OF ok] by metis
  note step = simple_loop.simps[of w i rest off "of_nat off" "of_nat (m - off)" "of_nat m" erw, unfolded n l(1)]
  show ?case
  proof (cases "m = off")
    case True
    then have "take l rest = []" using l(2) by simp
    then show ?thesis unfolding step using True less.prems by simp
  next
    case False
    then have pos: "0 < l" "l \<le> length rest" using l less.prems by auto
    then have ne: "take l rest \<noteq> []" and len: "length (take l rest) = l" by auto
    let ?b = "take off b @ take l rest @ drop (off + l) b"
    let ?e = "erw\<lparr>out_buf := Some ?b\<rparr>"
    have put: "put_bytes off (take l rest) b = Inr ?b"
      using put_bytes_fits[of off "take l rest" b] less.prems l(2) len by simp
    have "off + l \<le> m" using l(2) less.prems(1) by simp
    then have le: "\<not> (of_nat m :: u32) < of_nat off + of_nat l"
      using m by (simp add: word_less_nat_alt unat_of_nat flip: of_nat_add)
    have un: "(of_nat (m - off) :: u32) - of_nat l = of_nat (m - (off + l))"
      using l(2) by (simp flip: of_nat_diff)
    have "simple_loop w i rest off (of_nat off) (of_nat (m - off)) (of_nat m) erw
        = simple_loop w (Suc i) (drop l rest) (off + l) (of_nat (off + l)) (of_nat (m - (off + l))) (of_nat m) ?e"
      unfolding step using ne put le un less.prems(3) by (simp add: min_absorb2[OF pos(2)] Let_def)
    also have "\<dots> = Inr (FIO_EASYRW_RES_OK, ?e\<lparr>out_buf := Some (take (off + l) ?b
        @ take (m - (off + l)) (drop l rest) @ drop m ?b), out_len := of_nat m\<rparr>)"
      using pos l(2) less.prems by (intro less.hyps) auto
    also have "take (off + l) ?b @ take (m - (off + l)) (drop l rest) @ drop m ?b
        = take off b @ take (m - off) rest @ drop m b"
    proof -
      have "off \<le> length b" using less.prems by simp
      moreover have "m - off = l + (m - (off + l))" using \<open>off + l \<le> m\<close> by simp
      then have "take (m - off) rest = take l rest @ take (m - (off + l)) (drop l rest)"
        by (metis take_add)
      ultimately show ?thesis using \<open>off + l \<le> m\<close> pos by (simp add: min_absorb2)
    qed
    finally show ?thesis by simp
  qed
qed

text \<open>
  What a file of \<open>st_size\<close> bytes gives: the low 32 bits \<open>m\<close> of the size are what counts.
\<close>

definition regular :: "os \<Rightarrow> fio_easyrw \<Rightarrow> u64 \<Rightarrow> bool" where
  "regular w erw n \<longleftrightarrow> path erw \<noteq> None \<and> os_stat w = Some (True, n) \<and> os_open w
     \<and> (\<forall>k. os_malloc w k \<noteq> None) \<and> malloc_ok w"

definition opens :: "os \<Rightarrow> fio_easyrw \<Rightarrow> u64 \<Rightarrow> bool" where
  "opens w erw n \<longleftrightarrow> regular w erw n \<and> (limit erw = 0 \<or> n \<le> limit erw)"

lemma free_out_facts [simp]:
  "path (fio_easyrw_free_out erw) = path erw" "limit (fio_easyrw_free_out erw) = limit erw"
  "out_buf (fio_easyrw_free_out erw) = None"
  by (simp_all add: fio_easyrw_free_out_def)

lemma read_simple_low:
  assumes "opens w erw n" and "m = unat (ucast n :: u32)"
  obtains b where "length b = (m + 4096) mod 2 ^ 32"
    and "fio_easyrw_read_simple w erw
      = bindR (raw_fio_easyrw_read_simple w (of_nat m) ((fio_easyrw_free_out erw)\<lparr>out_buf := Some b, out_len := 0, out_max := of_nat m\<rparr>))
          (\<lambda>(res, erw). if res \<noteq> FIO_EASYRW_RES_OK then Inr (res, fio_easyrw_free_out erw) else Inr (FIO_EASYRW_RES_OK, erw))"
proof -
  obtain b where b: "os_malloc w (ucast n + MY_PAGE_SZ) = Some b"
    using assms(1) by (auto simp: opens_def regular_def)
  then have "length b = unat (ucast n + MY_PAGE_SZ)" using assms(1) by (auto simp: opens_def regular_def malloc_ok_def)
  then have "length b = (m + 4096) mod 2 ^ 32" by (simp add: assms(2) MY_PAGE_SZ_def unat_word_ariths)
  moreover have "(ucast n :: u32) = of_nat m" by (simp add: assms(2))
  moreover have "\<not> (limit erw \<noteq> 0 \<and> limit erw < n)" using assms(1) by (auto simp: opens_def regular_def)
  then have "fio_easyrw_read_simple w erw
      = bindR (raw_fio_easyrw_read_simple w (ucast n) ((fio_easyrw_free_out erw)\<lparr>out_buf := Some b, out_len := 0, out_max := ucast n\<rparr>))
          (\<lambda>(res, erw). if res \<noteq> FIO_EASYRW_RES_OK then Inr (res, fio_easyrw_free_out erw) else Inr (FIO_EASYRW_RES_OK, erw))"
    using b assms(1) unfolding fio_easyrw_read_simple_def fio_easyrw_alloc_out_def opens_def regular_def Let_def
    by (cases "limit erw = 0") auto
  ultimately show ?thesis using that[of b] by simp
qed

lemma read_simple_low_bits:
  assumes "opens w erw n" and "reads_ok w" and "m = unat (ucast n :: u32)"
    and "0 < m" and "m + 4096 < 2 ^ 32" and "m \<le> length (os_content w)"
  shows "\<exists>erw' b. fio_easyrw_read_simple w erw = Inr (FIO_EASYRW_RES_OK, erw')
    \<and> out_buf erw' = Some b \<and> out_len erw' = of_nat m \<and> take m b = take m (os_content w)"
proof -
  obtain b where b: "length b = (m + 4096) mod 2 ^ 32"
    and eq: "fio_easyrw_read_simple w erw
      = bindR (raw_fio_easyrw_read_simple w (of_nat m) ((fio_easyrw_free_out erw)\<lparr>out_buf := Some b, out_len := 0, out_max := of_nat m\<rparr>))
          (\<lambda>(res, erw). if res \<noteq> FIO_EASYRW_RES_OK then Inr (res, fio_easyrw_free_out erw) else Inr (FIO_EASYRW_RES_OK, erw))"
    by (rule read_simple_low[OF assms(1,3)])
  let ?e = "(fio_easyrw_free_out erw)\<lparr>out_buf := Some b, out_len := 0, out_max := of_nat m\<rparr>"
  have "unat (of_nat m :: u32) = m" using assms(5) by (simp add: unat_of_nat)
  then have "(of_nat m :: u32) \<noteq> 0" using assms(4) by auto
  then have "(of_nat m :: u32) > 0" by (simp only: word_neq_0_conv)
  then have "raw_fio_easyrw_read_simple w (of_nat m) ?e = simple_loop w 0 (os_content w) 0 (of_nat 0) (of_nat (m - 0)) (of_nat m) ?e"
    by (simp only: raw_fio_easyrw_read_simple_def) simp
  also have "\<dots> = Inr (FIO_EASYRW_RES_OK, ?e\<lparr>out_buf := Some (take 0 b @ take (m - 0) (os_content w) @ drop m b), out_len := of_nat m\<rparr>)"
    using assms(5,6) b by (intro simple_loop_reads[OF assms(2)]) simp_all
  finally show ?thesis using assms(6) by (simp add: eq)
qed


section \<open>Reading block by block\<close>

definition feed :: "(u8 list \<Rightarrow> 'c \<Rightarrow> 32 word \<times> 'c) \<Rightarrow> u8 list list \<Rightarrow> 'c \<Rightarrow> 'c" where
  "feed func bss c = fold (\<lambda>bs c. snd (func bs c)) bss c"

lemma feed_simps [simp]: "feed func [] c = c" "feed func (bs # bss) c = feed func bss (snd (func bs c))"
  by (simp_all add: feed_def)

lemma block_loop_step:
  assumes "sys_read w i (unat (out_max erw)) rest = Some bs" and "bs \<noteq> []"
    and "put_bytes 0 bs (the (out_buf erw)) = Inr buf"
    and "limit erw = 0 \<or> accl + of_nat (length bs) \<le> limit erw"
    and "take (unat (of_nat (length bs) :: u32)) buf = bs" and "fst (func bs priv) = 0"
  shows "block_loop w i rest accl func priv erw
    = block_loop w (Suc i) (drop (length bs) rest) (accl + of_nat (length bs)) func (snd (func bs priv))
        (erw\<lparr>out_buf := Some buf, out_len := of_nat (length bs)\<rparr>)"
proof -
  have "\<not> (limit erw \<noteq> 0 \<and> limit erw < accl + of_nat (length bs))" using assms(4) by auto
  then show ?thesis
    using assms
    by (subst block_loop.simps) (cases "limit erw = 0"; cases "func bs priv"; simp add: Let_def)
qed

lemma block_loop_over:
  assumes "sys_read w i (unat (out_max erw)) rest = Some bs" and "bs \<noteq> []"
    and "put_bytes 0 bs (the (out_buf erw)) = Inr buf"
    and "limit erw \<noteq> 0" and "limit erw < accl + of_nat (length bs)"
  shows "block_loop w i rest accl func priv erw
    = Inr (FIO_EASYRW_RRRNUM_OVERSZ, priv, erw\<lparr>out_buf := Some buf\<rparr>)"
  using assms by (subst block_loop.simps) (simp add: Let_def)

lemma block_loop_reads:
  assumes ok: "reads_ok w" and go: "\<And>bs c. fst (func bs c) = 0"
    and "out_buf erw = Some b" and "0 < unat (out_max erw)" and "unat (out_max erw) \<le> length b"
    and "d + length rest < 2 ^ 64" and "limit erw = 0 \<or> d \<le> unat (limit erw)"
  shows "\<exists>bss erw'. block_loop w i rest (of_nat d) func priv erw
      = Inr (if limit erw = 0 \<or> d + length rest \<le> unat (limit erw)
             then FIO_EASYRW_RES_OK else FIO_EASYRW_RRRNUM_OVERSZ, feed func bss priv, erw')
    \<and> prefix (concat bss) rest
    \<and> (limit erw = 0 \<or> d + length rest \<le> unat (limit erw) \<longrightarrow> concat bss = rest)
    \<and> (limit erw \<noteq> 0 \<longrightarrow> d + length (concat bss) \<le> unat (limit erw))
    \<and> (\<forall>bs \<in> set bss. 0 < length bs \<and> length bs \<le> unat (out_max erw))"
  using assms(3-)
proof (induction "length rest" arbitrary: i rest d priv erw b rule: less_induct)
  case less
  let ?cap = "unat (out_max erw)"
  obtain l where l: "sys_read w i ?cap rest = Some (take l rest)" "l \<le> ?cap" "0 < ?cap \<Longrightarrow> 0 < l"
    using sys_read_cases[OF ok] by metis
  note step = block_loop.simps[of w i rest "of_nat d" func priv erw, unfolded l(1)]
  show ?case
  proof (cases "rest = []")
    case True
    then have "block_loop w i rest (of_nat d) func priv erw = Inr (FIO_EASYRW_RES_OK, priv, erw)"
      unfolding step by simp
    then show ?thesis
      using True less.prems(5) by (intro exI[of _ "[]"] exI[of _ erw]) auto
  next
    case False
    let ?bs = "take l rest" and ?n = "min (length rest) l"
    have ne: "?bs \<noteq> []" and n: "length ?bs = ?n" "0 < ?n" "?n \<le> ?cap" "?n \<le> length rest"
      using l(2,3) less.prems(2) False by auto
    let ?b = "?bs @ drop ?n b"
    have tk: "take ?n rest = take l rest" by (simp add: min_def)
    have put: "put_bytes 0 ?bs b = Inr ?b"
      using put_bytes_fits[of 0 ?bs b] less.prems(3) n by simp
    have acc: "(of_nat d :: u64) + of_nat (length ?bs) = of_nat (d + ?n)" using n(1) by simp
    have over: "(of_nat (d + ?n) :: u64) > limit erw \<longleftrightarrow> d + ?n > unat (limit erw)"
    proof -
      have "d + ?n < 2 ^ 64" using less.prems(4) n(4) by linarith
      moreover have "k < 2 ^ 64 \<Longrightarrow> unat (of_nat k :: u64) = k" for k by (simp add: unat_of_nat)
      ultimately have "unat (of_nat (d + ?n) :: u64) = d + ?n" by blast
      then show ?thesis by (simp only: word_less_nat_alt)
    qed
    show ?thesis
    proof (cases "limit erw \<noteq> 0 \<and> d + ?n > unat (limit erw)")
      case True
      then have no: "\<not> (limit erw = 0 \<or> d + length rest \<le> unat (limit erw))" using n(4) by auto
      have "block_loop w i rest (of_nat d) func priv erw
          = Inr (FIO_EASYRW_RRRNUM_OVERSZ, priv, erw\<lparr>out_buf := Some ?b\<rparr>)"
        using True ne put less.prems(1) over acc by (intro block_loop_over[OF l(1)]) simp_all
      then show ?thesis
        using no less.prems(5) by (intro exI[of _ "[]"] exI[of _ "erw\<lparr>out_buf := Some ?b\<rparr>"]) auto
    next
      case False
      let ?e = "erw\<lparr>out_buf := Some ?b, out_len := of_nat ?n\<rparr>"
      have "?cap < 2 ^ 32" using unsigned_less[of "out_max erw"] by simp
      then have "?n < 2 ^ 32" using n(3) by linarith
      then have "unat (of_nat ?n :: u32) = ?n" by (simp add: unat_of_nat)
      then have seen: "take (unat (of_nat (length ?bs) :: u32)) ?b = ?bs" using n(1) tk by simp
      have "block_loop w i rest (of_nat d) func priv erw
          = block_loop w (Suc i) (drop ?n rest) (of_nat (d + ?n)) func (snd (func ?bs priv)) ?e"
      proof -
        have "fst (func ?bs priv) = 0" by (rule go)
        moreover have "limit erw = 0 \<or> of_nat d + of_nat (length ?bs) \<le> limit erw"
          using False over by (auto simp only: acc not_less[symmetric])
        ultimately show ?thesis
          using block_loop_step[OF l(1) ne, of ?b "of_nat d" func priv] put less.prems(1) seen
          by (simp only: option.sel acc) (simp only: n(1))
      qed
      moreover have "\<exists>bss erw'. block_loop w (Suc i) (drop ?n rest) (of_nat (d + ?n)) func (snd (func ?bs priv)) ?e
          = Inr (if limit ?e = 0 \<or> (d + ?n) + length (drop ?n rest) \<le> unat (limit ?e)
                 then FIO_EASYRW_RES_OK else FIO_EASYRW_RRRNUM_OVERSZ, feed func bss (snd (func ?bs priv)), erw')
        \<and> prefix (concat bss) (drop ?n rest)
        \<and> (limit ?e = 0 \<or> (d + ?n) + length (drop ?n rest) \<le> unat (limit ?e) \<longrightarrow> concat bss = drop ?n rest)
        \<and> (limit ?e \<noteq> 0 \<longrightarrow> (d + ?n) + length (concat bss) \<le> unat (limit ?e))
        \<and> (\<forall>bs \<in> set bss. 0 < length bs \<and> length bs \<le> unat (out_max ?e))"
      proof (rule less.hyps[of _ _ ?b])
        have e: "out_max ?e = out_max erw" by simp
        show "0 < unat (out_max ?e)" using less.prems(2) by (subst e)
        show "d + ?n + length (drop ?n rest) < 2 ^ 64" using less.prems(4) n(4) by simp
        show "limit ?e = 0 \<or> d + ?n \<le> unat (limit ?e)" using False by auto
        show "unat (out_max ?e) \<le> length ?b" using less.prems(3) n(3) by simp
        show "length (drop ?n rest) < length rest" using n by simp
      qed simp
      ultimately obtain bss erw' where rec: "block_loop w i rest (of_nat d) func priv erw
          = Inr (if limit erw = 0 \<or> d + length rest \<le> unat (limit erw)
                 then FIO_EASYRW_RES_OK else FIO_EASYRW_RRRNUM_OVERSZ, feed func (?bs # bss) priv, erw')"
        "prefix (concat bss) (drop ?n rest)"
        "limit erw = 0 \<or> d + length rest \<le> unat (limit erw) \<longrightarrow> concat bss = drop ?n rest"
        "limit erw \<noteq> 0 \<longrightarrow> d + ?n + length (concat bss) \<le> unat (limit erw)"
        "\<forall>bs \<in> set bss. 0 < length bs \<and> length bs \<le> ?cap"
        using n(4) by auto
      have rest: "?bs @ drop ?n rest = rest" by (metis append_take_drop_id min_def nat_le_linear take_all)
      show ?thesis
      proof (intro exI[of _ "?bs # bss"] exI[of _ erw'] conjI impI)
        show "prefix (concat (?bs # bss)) rest"
          using rec(2) rest by (metis concat.simps(2) same_prefix_prefix)
        show "concat (?bs # bss) = rest" if "limit erw = 0 \<or> d + length rest \<le> unat (limit erw)"
          using rec(3) that rest by simp
        show "d + length (concat (?bs # bss)) \<le> unat (limit erw)" if "limit erw \<noteq> 0"
          using rec(4) that n(1) by simp
      qed (use rec n in auto)
    qed
  qed
qed


section \<open>The buffer is too small for sizes near a multiple of 4 GiB\<close>

text \<open>\<open>len + MY_PAGE_SZ\<close> wraps, so a few bytes are allocated and all of the file is read there.\<close>

lemma simple_loop_overflows:
  assumes ok: "reads_ok w" and m: "m < 2 ^ 32"
    and "off \<le> length b" and "length b < m" and "m - off \<le> length rest" and "out_buf erw = Some b"
  shows "simple_loop w i rest off (of_nat off) (of_nat (m - off)) (of_nat m) erw = Inl SegFault"
  using assms(3-)
proof (induction "m - off" arbitrary: i rest off erw b rule: less_induct)
  case less
  have n: "unat (of_nat (m - off) :: u32) = m - off" using m by (simp add: unat_of_nat)
  obtain l where l: "sys_read w i (m - off) rest = Some (take l rest)" "l \<le> m - off" "0 < m - off \<Longrightarrow> 0 < l"
    using sys_read_cases[OF ok] by metis
  note step = simple_loop.simps[of w i rest off "of_nat off" "of_nat (m - off)" "of_nat m" erw, unfolded n l(1)]
  have pos: "0 < l" "l \<le> length rest" using l less.prems by auto
  then have ne: "take l rest \<noteq> []" and len: "length (take l rest) = l" by auto
  show ?case
  proof (cases "off + l \<le> length b")
    case False
    then have "put_bytes off (take l rest) b = Inl SegFault" using len by (simp add: put_bytes_def)
    then show ?thesis unfolding step using ne less.prems(4) by simp
  next
    case True
    let ?b = "take off b @ take l rest @ drop (off + l) b"
    let ?e = "erw\<lparr>out_buf := Some ?b\<rparr>"
    have put: "put_bytes off (take l rest) b = Inr ?b"
      using put_bytes_fits[of off "take l rest" b] True len by simp
    have "off + l \<le> m" using l(2) less.prems by simp
    then have le: "\<not> (of_nat m :: u32) < of_nat off + of_nat l"
      using m by (simp add: word_less_nat_alt unat_of_nat flip: of_nat_add)
    have un: "(of_nat (m - off) :: u32) - of_nat l = of_nat (m - (off + l))"
      using l(2) by (simp flip: of_nat_diff)
    have "simple_loop w i rest off (of_nat off) (of_nat (m - off)) (of_nat m) erw
        = simple_loop w (Suc i) (drop l rest) (off + l) (of_nat (off + l)) (of_nat (m - (off + l))) (of_nat m) ?e"
      unfolding step using ne put le un less.prems(4) by (simp add: min_absorb2[OF pos(2)] Let_def)
    also have "\<dots> = Inl SegFault"
      using pos l(2) less.prems True by (intro less.hyps[of _ ?b]) auto
    finally show ?thesis .
  qed
qed

lemma read_simple_zero:
  assumes "opens w erw n" and "unat (ucast n :: u32) = 0"
  shows "fio_easyrw_read_simple w erw = Inl BugOn"
  by (rule read_simple_low[OF assms(1) assms(2)[symmetric]]) (simp add: raw_fio_easyrw_read_simple_def)

lemma read_simple_wraps:
  assumes "opens w erw n" and "reads_ok w" and "m = unat (ucast n :: u32)"
    and "2 ^ 32 \<le> m + 4096" and "m \<le> length (os_content w)"
  shows "fio_easyrw_read_simple w erw = Inl SegFault"
proof -
  obtain b where b: "length b = (m + 4096) mod 2 ^ 32"
    and eq: "fio_easyrw_read_simple w erw
      = bindR (raw_fio_easyrw_read_simple w (of_nat m) ((fio_easyrw_free_out erw)\<lparr>out_buf := Some b, out_len := 0, out_max := of_nat m\<rparr>))
          (\<lambda>(res, erw). if res \<noteq> FIO_EASYRW_RES_OK then Inr (res, fio_easyrw_free_out erw) else Inr (FIO_EASYRW_RES_OK, erw))"
    by (rule read_simple_low[OF assms(1,3)])
  have m: "m < 2 ^ 32" using assms(3) unsigned_less[of "ucast n :: u32"] by simp
  then have "unat (of_nat m :: u32) = m" "m \<noteq> 0" using assms(4) by (auto simp: unat_of_nat)
  then have "(of_nat m :: u32) > 0" by (metis unat_0 word_neq_0_conv)
  moreover have "m + 4096 = 2 ^ 32 + (m + 4096 - 2 ^ 32)" using assms(4) by simp
  then have "(m + 4096) mod 2 ^ 32 = (m + 4096 - 2 ^ 32) mod 2 ^ 32" by (metis mod_add_self1)
  then have "length b < m" using b m assms(4) by simp
  ultimately show ?thesis
    using simple_loop_overflows[OF assms(2) m, of 0 b "os_content w"] assms(5)
    by (simp add: eq raw_fio_easyrw_read_simple_def)
qed

section \<open>Error results\<close>

lemma simple_loop_keeps_out:
  "simple_loop w i rest off accl u e erw = Inr (res, erw') \<Longrightarrow> out_buf erw \<noteq> None \<Longrightarrow> out_buf erw' \<noteq> None"
  by (induction w i rest off accl u e erw rule: simple_loop.induct)
    (subst (asm) simple_loop.simps,
      auto simp: Let_def bindR_eq_Inr split: option.splits if_splits)


lemma free_out_ne [simp]:
  "fio_easyrw_free_out e \<noteq> e'\<lparr>out_buf := Some b, out_len := l, out_max := k\<rparr>"
proof
  assume "fio_easyrw_free_out e = e'\<lparr>out_buf := Some b, out_len := l, out_max := k\<rparr>"
  then have "out_buf (fio_easyrw_free_out e) = Some b" by simp
  then show False by simp
qed

lemma read_simple_buf:
  assumes "fio_easyrw_read_simple w erw = Inr (res, erw')"
  shows "out_buf erw' \<noteq> None \<longleftrightarrow> res = FIO_EASYRW_RES_OK"
  using assms
  by (auto simp: fio_easyrw_read_simple_def Let_def bindR_eq_Inr fio_easyrw_alloc_out_def bug_on_def
      raw_fio_easyrw_read_simple_def split: if_splits option.splits)
    (drule simple_loop_keeps_out; simp)+

lemma read_buf:
  assumes "fio_easyrw_read w func priv erw = Inr (res, priv', erw')"
  shows "out_buf erw' = None"
  using assms
  by (auto simp: fio_easyrw_read_def Let_def bindR_eq_Inr fio_easyrw_alloc_out_def bug_on_def
      split: if_splits option.splits)

section \<open>The properties of the readers\<close>

lemma block_reader:
  assumes reg: "regular w erw n" and ok: "reads_ok w" and go: "\<And>bs c. fst (func bs c) = 0"
    and len: "length (os_content w) < 2 ^ 64"
  shows "\<exists>bss erw'. fio_easyrw_read w (Some func) priv erw
      = Inr (if limit erw = 0 \<or> length (os_content w) \<le> unat (limit erw)
             then FIO_EASYRW_RES_OK else FIO_EASYRW_RRRNUM_OVERSZ, feed func bss priv, erw')
    \<and> prefix (concat bss) (os_content w)
    \<and> (limit erw = 0 \<or> length (os_content w) \<le> unat (limit erw) \<longrightarrow> concat bss = os_content w)
    \<and> (limit erw \<noteq> 0 \<longrightarrow> length (concat bss) \<le> unat (limit erw))
    \<and> (\<forall>bs \<in> set bss. 0 < length bs \<and> length bs \<le> 8192) \<and> out_buf erw' = None"
proof -
  obtain b where b: "os_malloc w (8192 + MY_PAGE_SZ) = Some b" using reg by (auto simp: regular_def)
  then have lb: "length b = 12288" using reg by (auto simp: regular_def malloc_ok_def MY_PAGE_SZ_def)
  let ?e = "(fio_easyrw_free_out erw)\<lparr>out_buf := Some b, out_len := 0, out_max := 8192\<rparr>"
  have "fio_easyrw_read w (Some func) priv erw
      = bindR (block_loop w 0 (os_content w) (of_nat 0) func priv ?e)
          (\<lambda>(res, priv, erw). Inr (res, priv, fio_easyrw_free_out erw))"
    using b reg by (auto simp: fio_easyrw_read_def fio_easyrw_alloc_out_def raw_fio_easyrw_read_def regular_def)
  moreover obtain bss erw' where "block_loop w 0 (os_content w) (of_nat 0) func priv ?e
      = Inr (if limit ?e = 0 \<or> 0 + length (os_content w) \<le> unat (limit ?e)
             then FIO_EASYRW_RES_OK else FIO_EASYRW_RRRNUM_OVERSZ, feed func bss priv, erw')"
    and out: "prefix (concat bss) (os_content w)"
      "limit ?e = 0 \<or> 0 + length (os_content w) \<le> unat (limit ?e) \<longrightarrow> concat bss = os_content w"
      "limit ?e \<noteq> 0 \<longrightarrow> 0 + length (concat bss) \<le> unat (limit ?e)"
      "\<forall>bs \<in> set bss. 0 < length bs \<and> length bs \<le> unat (out_max ?e)"
    using block_loop_reads[where func = func and w = w and erw = ?e and b = b and d = 0
        and rest = "os_content w" and i = 0 and priv = priv, OF ok go] lb len by auto
  ultimately have "fio_easyrw_read w (Some func) priv erw
      = Inr (if limit erw = 0 \<or> length (os_content w) \<le> unat (limit erw)
             then FIO_EASYRW_RES_OK else FIO_EASYRW_RRRNUM_OVERSZ, feed func bss priv, fio_easyrw_free_out erw')"
    by simp
  then show ?thesis using out by (intro exI[of _ bss] exI[of _ "fio_easyrw_free_out erw'"]) simp
qed

text \<open>Block reads feed the file to the callback once and in order. However \<open>read\<close> cuts it up,
  \<open>fio_easyrw_read\<close> hands the callback non-empty blocks of at most 8192 bytes, one after another
  from the start of the file; without a limit, or within it, they are the whole file and the
  result is OK, else nothing beyond the limit is handed over and the result says over size. The
  buffer is gone at the end.\<close>

theorem fio_read_blocks:
  assumes reg: "regular w erw n" and ok: "reads_ok w" and go: "\<And>bs c. fst (func bs c) = 0"
    and len: "length (os_content w) < 2 ^ 64"
  shows "\<exists>bss erw'. fio_easyrw_read w (Some func) priv erw
      = Inr (if limit erw = 0 \<or> length (os_content w) \<le> unat (limit erw)
             then FIO_EASYRW_RES_OK else FIO_EASYRW_RRRNUM_OVERSZ, feed func bss priv, erw')
    \<and> prefix (concat bss) (os_content w)
    \<and> (limit erw = 0 \<or> length (os_content w) \<le> unat (limit erw) \<longrightarrow> concat bss = os_content w)
    \<and> (limit erw \<noteq> 0 \<longrightarrow> length (concat bss) \<le> unat (limit erw))
    \<and> (\<forall>bs \<in> set bss. 0 < length bs \<and> length bs \<le> 8192) \<and> out_buf erw' = None"
  by (rule block_reader[OF assms])

text \<open>A system for the concrete cases: \<open>read\<close> gives two bytes at a time.\<close>

definition sample_os :: "u8 list \<Rightarrow> os" where
  "sample_os bs = \<lparr>os_stat = Some (True, of_nat (length bs)),
     os_malloc = (\<lambda>n. Some (replicate (unat n) 0)), os_open = True, os_content = bs,
     os_read = (\<lambda>_. Some 1)\<rparr>"

lemma sample_os_facts:
  "reads_ok (sample_os bs)" "os_content (sample_os bs) = bs"
  "regular (sample_os bs) (fio_easyrw_init (Some ''f'') lim) (of_nat (length bs))"
  "limit (fio_easyrw_init (Some ''f'') lim) = lim"
  by (simp_all add: reads_ok_def sample_os_def regular_def malloc_ok_def fio_easyrw_init_def)

theorem fio_read_blocks_witness:
  "\<exists>erw'. fio_easyrw_read (sample_os [1, 2, 3]) (Some (\<lambda>bs c. (0, c @ bs))) [] (fio_easyrw_init (Some ''f'') 8)
    = Inr (FIO_EASYRW_RES_OK, [1, 2, 3], erw') \<and> out_buf erw' = None"
proof -
  have f: "feed (\<lambda>bs c. (0, c @ bs)) bss c = c @ concat bss" for bss :: "u8 list list" and c
    by (induction bss arbitrary: c) auto
  show ?thesis
    using fio_read_blocks[where w = "sample_os [1, 2, 3]" and func = "\<lambda>bs c. (0, c @ bs)" and priv = "[]",
        OF sample_os_facts(3)[of "[1, 2, 3]" 8] sample_os_facts(1)]
    by (auto simp: sample_os_facts f)
qed





text \<open>A result that is not OK leaves no buffer. After \<open>fio_easyrw_read_simple\<close> there is an output
  buffer exactly if the result is OK, so a caller that checks the result neither leaks nor reads a
  stale buffer.\<close>

theorem fio_read_simple_buffer_iff_ok:
  assumes "fio_easyrw_read_simple w erw = Inr (res, erw')"
  shows "fio_easyrw_get_out erw' \<noteq> None \<longleftrightarrow> res = FIO_EASYRW_RES_OK"
  using read_simple_buf[OF assms] by (simp add: fio_easyrw_get_out_def)

theorem fio_read_simple_buffer_iff_ok_witness:
  "\<exists>erw'. fio_easyrw_read_simple (sample_os [1, 2, 3]) (fio_easyrw_init (Some ''f'') 2) = Inr (FIO_EASYRW_RRRNUM_OVERSZ, erw')
    \<and> fio_easyrw_get_out erw' = None"
proof -
  have *: "fio_easyrw_read_simple (sample_os [1, 2, 3]) (fio_easyrw_init (Some ''f'') 2)
      = Inr (FIO_EASYRW_RRRNUM_OVERSZ, fio_easyrw_init (Some ''f'') 2)"
    by (simp add: fio_easyrw_read_simple_def sample_os_def fio_easyrw_init_def fio_easyrw_free_out_def)
  with fio_read_simple_buffer_iff_ok[OF *] show ?thesis by simp
qed

end
