(* ===== verification/Fio_Lock.thy ===== *)
theory Fio_Lock
  imports C_Prelude
begin

text \<open>
  \<open>lgu/fio/fio_lock.c\<close>: locking a file between processes with \<open>flock\<close>, over the part of the
  kernel it uses. A descriptor of a process refers to an open file description, a lock belongs
  to a description, \<open>fork\<close> shares descriptions, and a description that no descriptor refers to
  any more gives up its lock. The contract a client needs is the locale \<open>file_lock\<close>.
\<close>

section \<open>The kernel\<close>

type_synonym pid = nat

text \<open>
  \<open>k_fds\<close>: the open descriptors, each with the number and the file of its description.
  \<open>k_lock\<close>: the files with an exclusive lock, each with the description that holds it.
  \<open>k_max\<close>: how many descriptors a process may have.
\<close>

record kernel =
  k_fds :: "((pid \<times> int) \<times> (nat \<times> string)) list"
  k_lock :: "(string \<times> nat) list"
  k_next :: nat
  k_max :: nat

definition fd_desc :: "kernel \<Rightarrow> pid \<Rightarrow> int \<Rightarrow> (nat \<times> string) option" where
  "fd_desc k p fd = map_of (k_fds k) (p, fd)"

definition free_fd :: "kernel \<Rightarrow> pid \<Rightarrow> int option" where
  "free_fd k p = find (\<lambda>fd. fd_desc k p fd = None) (map int [0..<k_max k])"

text \<open>
  \<open>open\<close> with \<open>O_CREAT\<close>; \<open>can\<close> says whether the file can be opened or made at all.
\<close>

definition sys_open :: "bool \<Rightarrow> pid \<Rightarrow> string \<Rightarrow> kernel \<Rightarrow> int \<times> kernel" where
  "sys_open can p file k =
     (case free_fd k p of
        None \<Rightarrow> (-1, k)
      | Some fd \<Rightarrow>
          if can then (fd, k\<lparr>k_fds := ((p, fd), (k_next k, file)) # k_fds k, k_next := Suc (k_next k)\<rparr>)
          else (-1, k))"

text \<open>A description without a descriptor is gone, and its lock with it.\<close>

definition drop_dead :: "kernel \<Rightarrow> kernel" where
  "drop_dead k = k\<lparr>k_lock := filter (\<lambda>(file, d). d \<in> (fst \<circ> snd) ` set (k_fds k)) (k_lock k)\<rparr>"

definition sys_close :: "pid \<Rightarrow> int \<Rightarrow> kernel \<Rightarrow> kernel" where
  "sys_close p fd k = drop_dead (k\<lparr>k_fds := filter (\<lambda>e. fst e \<noteq> (p, fd)) (k_fds k)\<rparr>)"

text \<open>\<open>LOCK_EX\<close>: \<open>None\<close> when another description holds the lock, so that the caller would wait.\<close>

definition flock_ex :: "pid \<Rightarrow> int \<Rightarrow> kernel \<Rightarrow> (int \<times> kernel) option" where
  "flock_ex p fd k =
     (case fd_desc k p fd of
        None \<Rightarrow> Some (-1, k)
      | Some (d, file) \<Rightarrow>
          (case map_of (k_lock k) file of
             None \<Rightarrow> Some (0, k\<lparr>k_lock := (file, d) # k_lock k\<rparr>)
           | Some e \<Rightarrow> if e = d then Some (0, k) else None))"

definition flock_un :: "pid \<Rightarrow> int \<Rightarrow> kernel \<Rightarrow> kernel" where
  "flock_un p fd k =
     (case fd_desc k p fd of
        None \<Rightarrow> k
      | Some (d, file) \<Rightarrow> k\<lparr>k_lock := filter (\<lambda>e. e \<noteq> (file, d)) (k_lock k)\<rparr>)"

text \<open>\<open>fork\<close> gives the child the parent's descriptors; the end of a process closes its own.\<close>

definition sys_fork :: "pid \<Rightarrow> pid \<Rightarrow> kernel \<Rightarrow> kernel" where
  "sys_fork p c k = k\<lparr>k_fds := map (\<lambda>((q, fd), d). ((c, fd), d)) (filter (\<lambda>e. fst (fst e) = p) (k_fds k)) @ k_fds k\<rparr>"

definition sys_exit :: "pid \<Rightarrow> kernel \<Rightarrow> kernel" where
  "sys_exit p k = drop_dead (k\<lparr>k_fds := filter (\<lambda>e. fst (fst e) \<noteq> p) (k_fds k)\<rparr>)"

section \<open>The operations\<close>

text \<open>\<open>fio_lock\<close> waits for the lock: \<open>None\<close> means it still does. \<open>intr\<close>: a signal ends the wait.\<close>

definition fio_lock :: "bool \<Rightarrow> bool \<Rightarrow> pid \<Rightarrow> string \<Rightarrow> kernel \<Rightarrow> (int \<times> kernel) option" where
  "fio_lock can intr p path k =
     (let (fd, k) = sys_open can p path k in
      if fd < 0 then Some (-1, k)
      else (case flock_ex p fd k of
          None \<Rightarrow> if intr then Some (-1, sys_close p fd k) else None
        | Some (r, k) \<Rightarrow> if r < 0 then Some (-1, sys_close p fd k) else Some (fd, k)))"

definition fio_trylock :: "bool \<Rightarrow> pid \<Rightarrow> string \<Rightarrow> kernel \<Rightarrow> int \<times> kernel" where
  "fio_trylock can p path k =
     (let (fd, k) = sys_open can p path k in
      if fd < 0 then (-1, k)
      else (case flock_ex p fd k of
          None \<Rightarrow> (-1, sys_close p fd k)
        | Some (r, k) \<Rightarrow> if r \<noteq> 0 then (-1, sys_close p fd k) else (fd, k)))"

definition fio_unlock :: "pid \<Rightarrow> int \<Rightarrow> kernel \<Rightarrow> int \<times> kernel" where
  "fio_unlock p fd k =
     (if fd < 0 then (-1, k) else (0, sys_close p fd (flock_un p fd k)))"

section \<open>The contract\<close>

text \<open>
  \<open>holders k\<close>: the descriptors through which the lock of the one file is held. A client takes
  the lock, hands it on to a child by \<open>fork\<close>, and gives it up or dies.
\<close>

locale file_lock =
  fixes ok :: "'k \<Rightarrow> bool"
    and holders :: "'k \<Rightarrow> (pid \<times> int) set"
    and used :: "'k \<Rightarrow> pid set"
    and trylock :: "bool \<Rightarrow> pid \<Rightarrow> 'k \<Rightarrow> int \<times> 'k"
    and unlock :: "pid \<Rightarrow> int \<Rightarrow> 'k \<Rightarrow> 'k"
    and fork :: "pid \<Rightarrow> pid \<Rightarrow> 'k \<Rightarrow> 'k"
    and die :: "pid \<Rightarrow> 'k \<Rightarrow> 'k"
  assumes holders_used: "ok k \<Longrightarrow> (p, fd) \<in> holders k \<Longrightarrow> p \<in> used k \<and> 0 \<le> fd"
    and trylock_law: "ok k \<Longrightarrow> trylock can p k = (fd, k') \<Longrightarrow> ok k' \<and> used k' \<subseteq> insert p (used k)
      \<and> (if 0 \<le> fd then holders k = {} \<and> holders k' = {(p, fd)} else holders k' = holders k)"
    and trylock_free: "ok k \<Longrightarrow> holders k = {} \<Longrightarrow> p \<notin> used k \<Longrightarrow> 0 \<le> fst (trylock True p k)"
    and unlock_law: "ok k \<Longrightarrow> (p, fd) \<in> holders k
      \<Longrightarrow> ok (unlock p fd k) \<and> used (unlock p fd k) \<subseteq> used k \<and> holders (unlock p fd k) = {}"
    and fork_law: "ok k \<Longrightarrow> c \<notin> used k \<Longrightarrow> ok (fork p c k) \<and> used (fork p c k) \<subseteq> insert c (used k)
      \<and> holders (fork p c k) = holders k \<union> {(c, fd) |fd. (p, fd) \<in> holders k}"
    and die_law: "ok k \<Longrightarrow> ok (die p k) \<and> used (die p k) = used k - {p}
      \<and> holders (die p k) = {e \<in> holders k. fst e \<noteq> p}"
begin

text \<open>While the lock is held everyone else is refused; a released or orphaned lock can be taken.\<close>

lemma held_refuses: "ok k \<Longrightarrow> holders k \<noteq> {} \<Longrightarrow> fst (trylock can p k) < 0"
  using trylock_law[of k can p "fst (trylock can p k)" "snd (trylock can p k)"]
  by (auto split: if_splits)

lemma handover:
  assumes "ok k" and "holders k = {(p, fd)}" and "c \<notin> used k"
  shows "holders (die p (fork p c k)) = {(c, fd)}" and "ok (die p (fork p c k))"
    and "used (die p (fork p c k)) \<subseteq> insert c (used k)"
proof -
  have "p \<in> used k" using holders_used[OF assms(1)] assms(2) by blast
  then have "c \<noteq> p" using assms(3) by auto
  then show "holders (die p (fork p c k)) = {(c, fd)}"
    using fork_law[OF assms(1,3)] die_law[of "fork p c k" p] assms(2) by auto
  show "ok (die p (fork p c k))" "used (die p (fork p c k)) \<subseteq> insert c (used k)"
    using fork_law[OF assms(1,3)] die_law[of "fork p c k" p] by auto
qed

lemma death_releases: "ok k \<Longrightarrow> holders k \<subseteq> {p} \<times> UNIV \<Longrightarrow> holders (die p k) = {}"
  using die_law[of k p] by auto

lemma taken_again:
  assumes "ok k" and "holders k \<subseteq> {p} \<times> UNIV" and "q \<notin> used (die p k)"
  shows "0 \<le> fst (trylock True q (die p k))"
  using trylock_free[of "die p k" q] die_law[OF assms(1)] death_releases[OF assms(1,2)] assms(3) by auto

end

section \<open>The operations keep the contract\<close>

text \<open>What every reachable kernel is like\<close>

definition kernel_ok :: "kernel \<Rightarrow> bool" where
  "kernel_ok k \<longleftrightarrow> 0 < k_max k \<and> distinct (map fst (k_fds k))
     \<and> (\<forall>((p, fd), (d, file)) \<in> set (k_fds k). 0 \<le> fd \<and> d < k_next k)
     \<and> (\<forall>(e, (d, file)) \<in> set (k_fds k). \<forall>(e', (d', file')) \<in> set (k_fds k). d = d' \<longrightarrow> file = file')
     \<and> distinct (map fst (k_lock k))
     \<and> (\<forall>(file, d) \<in> set (k_lock k). \<exists>e. (e, (d, file)) \<in> set (k_fds k))"

definition lock_holders :: "string \<Rightarrow> kernel \<Rightarrow> (pid \<times> int) set" where
  "lock_holders file k = {e. \<exists>d. (e, (d, file)) \<in> set (k_fds k) \<and> (file, d) \<in> set (k_lock k)}"

definition pids :: "kernel \<Rightarrow> pid set" where
  "pids k = fst ` fst ` set (k_fds k)"

lemma fd_desc_iff: "kernel_ok k \<Longrightarrow> fd_desc k p fd = Some x \<longleftrightarrow> ((p, fd), x) \<in> set (k_fds k)"
  by (simp add: fd_desc_def kernel_ok_def map_of_eq_Some_iff)

lemma lock_iff: "kernel_ok k \<Longrightarrow> map_of (k_lock k) file = Some d \<longleftrightarrow> (file, d) \<in> set (k_lock k)"
  by (simp add: kernel_ok_def map_of_eq_Some_iff)

lemma free_fd_facts:
  assumes "free_fd k p = Some fd"
  shows "0 \<le> fd" and "fd_desc k p fd = None"
  using assms by (auto simp: free_fd_def find_Some_iff)

lemma free_fd_None: "p \<notin> pids k \<Longrightarrow> 0 < k_max k \<Longrightarrow> free_fd k p = Some 0"
  by (auto simp: free_fd_def fd_desc_def pids_def image_iff map_of_eq_None_iff upt_conv_Cons)

lemma holders_empty_iff:
  "kernel_ok k \<Longrightarrow> lock_holders file k = {} \<longleftrightarrow> map_of (k_lock k) file = None"
  by (force simp: lock_holders_def kernel_ok_def map_of_eq_None_iff)


lemma distinct_fst_filter: "distinct (map fst xs) \<Longrightarrow> distinct (map fst (filter P xs))"
  by (induction xs) auto

lemma lock_desc: "kernel_ok k \<Longrightarrow> (file, d) \<in> set (k_lock k) \<Longrightarrow> \<exists>e. (e, (d, file)) \<in> set (k_fds k)"
  by (fastforce simp: kernel_ok_def)

lemma desc_file:
  "kernel_ok k \<Longrightarrow> (e, (d, file)) \<in> set (k_fds k) \<Longrightarrow> (e', (d, file')) \<in> set (k_fds k) \<Longrightarrow> file = file'"
  by (fastforce simp: kernel_ok_def)

lemma key_desc:
  assumes "kernel_ok k" and "(e, x) \<in> set (k_fds k)" and "(e, y) \<in> set (k_fds k)"
  shows "x = y"
proof -
  have "distinct (map fst (k_fds k))" using assms(1) by (simp add: kernel_ok_def)
  then show ?thesis using assms(2,3) by (rule eq_key_imp_eq_value)
qed

lemma lock_key:
  assumes "kernel_ok k" and "(file, d) \<in> set (k_lock k)" and "(file, d') \<in> set (k_lock k)"
  shows "d = d'"
proof -
  have "distinct (map fst (k_lock k))" using assms(1) by (simp add: kernel_ok_def)
  then show ?thesis using assms(2,3) by (rule eq_key_imp_eq_value)
qed

lemma kernel_okI:
  assumes "0 < k_max k" and "distinct (map fst (k_fds k))"
    and "\<And>p fd d file. ((p, fd), (d, file)) \<in> set (k_fds k) \<Longrightarrow> 0 \<le> fd \<and> d < k_next k"
    and "\<And>e e' d file file'. (e, (d, file)) \<in> set (k_fds k) \<Longrightarrow> (e', (d, file')) \<in> set (k_fds k) \<Longrightarrow> file = file'"
    and "distinct (map fst (k_lock k))"
    and "\<And>file d. (file, d) \<in> set (k_lock k) \<Longrightarrow> \<exists>e. (e, (d, file)) \<in> set (k_fds k)"
  shows "kernel_ok k"
  using assms unfolding kernel_ok_def by blast

lemma kernel_okD:
  assumes "kernel_ok k"
  shows "0 < k_max k" and "distinct (map fst (k_fds k))" and "distinct (map fst (k_lock k))"
    and "((p, fd), (d, file)) \<in> set (k_fds k) \<Longrightarrow> 0 \<le> fd \<and> d < k_next k"
  using assms by (fastforce simp: kernel_ok_def)+

text \<open>Closing some of the descriptors\<close>

lemma close_some:
  fixes k :: kernel and Q :: "pid \<times> int \<Rightarrow> bool"
  assumes "kernel_ok k"
  defines "k' \<equiv> drop_dead (k\<lparr>k_fds := filter (\<lambda>e. Q (fst e)) (k_fds k)\<rparr>)"
  shows "kernel_ok k'" and "lock_holders file k' = {e \<in> lock_holders file k. Q e}"
    and "pids k' = fst ` {e \<in> fst ` set (k_fds k). Q e}"
proof -
  have fds: "set (k_fds k') = {e \<in> set (k_fds k). Q (fst e)}" "k_max k' = k_max k" "k_next k' = k_next k"
    by (auto simp: k'_def drop_dead_def)
  have locks: "(f, d) \<in> set (k_lock k') \<longleftrightarrow> (f, d) \<in> set (k_lock k) \<and> (\<exists>e. (e, (d, f)) \<in> set (k_fds k'))" for f d
  proof -
    have "(f, d) \<in> set (k_lock k') \<longleftrightarrow> (f, d) \<in> set (k_lock k) \<and> (\<exists>e f'. (e, (d, f')) \<in> set (k_fds k'))"
      by (force simp: k'_def drop_dead_def)
    moreover have "f' = f" if "(f, d) \<in> set (k_lock k)" "(e, (d, f')) \<in> set (k_fds k')" for e f'
      using that fds(1) lock_desc[OF assms(1)] desc_file[OF assms(1)] by blast
    ultimately show ?thesis by blast
  qed
  show "kernel_ok k'"
  proof (rule kernel_okI)
    show "distinct (map fst (k_fds k'))" "distinct (map fst (k_lock k'))"
      using kernel_okD(2,3)[OF assms(1)] by (simp_all add: k'_def drop_dead_def distinct_fst_filter)
  qed (use fds locks kernel_okD[OF assms(1)] desc_file[OF assms(1)] in auto)
  show "lock_holders file k' = {e \<in> lock_holders file k. Q e}"
    using fds locks by (auto simp: lock_holders_def)
  show "pids k' = fst ` {e \<in> fst ` set (k_fds k). Q e}"
    by (force simp: pids_def fds)
qed

lemma sys_close_facts:
  assumes "kernel_ok k"
  shows "kernel_ok (sys_close p fd k)" and "lock_holders file (sys_close p fd k) = lock_holders file k - {(p, fd)}"
    and "pids (sys_close p fd k) \<subseteq> pids k"
proof -
  note c = close_some[OF assms, where Q = "\<lambda>e. e \<noteq> (p, fd)", folded sys_close_def]
  show "kernel_ok (sys_close p fd k)" by (rule c)
  show "lock_holders file (sys_close p fd k) = lock_holders file k - {(p, fd)}" unfolding c(2) by blast
  show "pids (sys_close p fd k) \<subseteq> pids k" unfolding c(3) unfolding pids_def by blast
qed

lemma sys_exit_facts:
  assumes "kernel_ok k"
  shows "kernel_ok (sys_exit p k)" and "lock_holders file (sys_exit p k) = {e \<in> lock_holders file k. fst e \<noteq> p}"
    and "pids (sys_exit p k) = pids k - {p}"
proof -
  note c = close_some[OF assms, where Q = "\<lambda>e. fst e \<noteq> p", folded sys_exit_def]
  show "kernel_ok (sys_exit p k)" by (rule c)
  show "lock_holders file (sys_exit p k) = {e \<in> lock_holders file k. fst e \<noteq> p}" by (rule c)
  show "pids (sys_exit p k) = pids k - {p}" unfolding c(3) unfolding pids_def by blast
qed

lemma sys_open_facts:
  assumes "kernel_ok k" and "sys_open can p file k = (fd, k1)"
  shows "fd < 0 \<Longrightarrow> k1 = k"
    and "0 \<le> fd \<Longrightarrow> kernel_ok k1 \<and> fd_desc k p fd = None
      \<and> k1 = k\<lparr>k_fds := ((p, fd), (k_next k, file)) # k_fds k, k_next := Suc (k_next k)\<rparr>"
proof -
  show "fd < 0 \<Longrightarrow> k1 = k"
    using assms(2) free_fd_facts[of k p] by (auto simp: sys_open_def split: option.splits if_splits)
  assume "0 \<le> fd"
  then have fd: "free_fd k p = Some fd"
    and k1: "k1 = k\<lparr>k_fds := ((p, fd), (k_next k, file)) # k_fds k, k_next := Suc (k_next k)\<rparr>"
    using assms(2) by (auto simp: sys_open_def split: option.splits if_splits)
  note no = free_fd_facts[OF fd]
  have key: "(p, fd) \<notin> fst ` set (k_fds k)" using no(2) by (simp add: fd_desc_def map_of_eq_None_iff)
  have fresh: "(e, (k_next k, f)) \<notin> set (k_fds k)" for e f
    using kernel_okD(4)[OF assms(1), of "fst e" "snd e" "k_next k" f] by (cases e) auto
  have "kernel_ok k1"
  proof (intro kernel_okI)
    show "\<exists>e. (e, (d, f)) \<in> set (k_fds k1)" if "(f, d) \<in> set (k_lock k1)" for f d
      using lock_desc[OF assms(1), of f d] that by (auto simp: k1)
    show "f = f'" if "(e, (d, f)) \<in> set (k_fds k1)" "(e', (d, f')) \<in> set (k_fds k1)" for e e' d f f'
      using that fresh[of e f] fresh[of e' f'] desc_file[OF assms(1), of e d f e' f'] by (auto simp: k1)
    show "0 \<le> fd' \<and> d < k_next k1" if "((q, fd'), (d, f)) \<in> set (k_fds k1)" for q fd' d f
      using that no(1) kernel_okD(4)[OF assms(1), of q fd' d f] by (auto simp: k1)
  qed (use key kernel_okD[OF assms(1)] in \<open>auto simp: k1\<close>)
  then show "kernel_ok k1 \<and> fd_desc k p fd = None
      \<and> k1 = k\<lparr>k_fds := ((p, fd), (k_next k, file)) # k_fds k, k_next := Suc (k_next k)\<rparr>"
    using no(2) k1 by simp
qed

lemma trylock_facts:
  assumes "kernel_ok k" and "fio_trylock can p file k = (fd, k')"
  shows "kernel_ok k'" and "pids k' \<subseteq> insert p (pids k)"
    and "if 0 \<le> fd then lock_holders file k = {} \<and> lock_holders file k' = {(p, fd)}
      else lock_holders file k' = lock_holders file k"
proof -
  obtain fd1 k1 where op: "sys_open can p file k = (fd1, k1)" by fastforce
  note f = sys_open_facts[OF assms(1) op]
  have all: "kernel_ok k' \<and> pids k' \<subseteq> insert p (pids k)
    \<and> (if 0 \<le> fd then lock_holders file k = {} \<and> lock_holders file k' = {(p, fd)}
      else lock_holders file k' = lock_holders file k)"
  proof (cases "fd1 < 0")
    case True
    then show ?thesis using f assms op by (auto simp: fio_trylock_def)
  next
    case False
    then have k1: "kernel_ok k1" "fd_desc k p fd1 = None"
        "k1 = k\<lparr>k_fds := ((p, fd1), (k_next k, file)) # k_fds k, k_next := Suc (k_next k)\<rparr>"
      using f(2) by auto
    have d: "fd_desc k1 p fd1 = Some (k_next k, file)" by (simp add: k1(3) fd_desc_def)
    have pd: "pids k1 = insert p (pids k)" by (simp add: k1(3) pids_def)
    have new: "(file, k_next k) \<notin> set (k_lock k)"
      using lock_desc[OF assms(1)] kernel_okD(4)[OF assms(1)] by fastforce
    then have h1: "lock_holders file k1 = lock_holders file k"
      by (auto simp: lock_holders_def k1(3))
    have nh: "(p, fd1) \<notin> lock_holders file k"
      using k1(2) by (force simp: lock_holders_def fd_desc_def map_of_eq_None_iff)
    show ?thesis
    proof (cases "map_of (k_lock k) file")
      case None
      then have e: "fd = fd1" "k' = k1\<lparr>k_lock := (file, k_next k) # k_lock k1\<rparr>"
        using assms(2) op d False by (auto simp: fio_trylock_def flock_ex_def k1(3))
      have nk: "file \<notin> fst ` set (k_lock k)" using None by (simp add: map_of_eq_None_iff)
      have "kernel_ok k'"
        using kernel_okD[OF k1(1)] desc_file[OF k1(1)] lock_desc[OF k1(1)] nk
        by (intro kernel_okI) (auto simp: e k1(3))
      moreover have "\<And>e f. (e, (k_next k, f)) \<notin> set (k_fds k)" using kernel_okD(4)[OF assms(1)] by fastforce
      then have "lock_holders file k' = {(p, fd)}"
        using nk by (force simp: lock_holders_def e k1(3))
      ultimately show ?thesis
        using None False pd holders_empty_iff[OF assms(1)] by (auto simp: e pids_def)
    next
      case (Some e)
      then have "e \<noteq> k_next k" using new lock_iff[OF assms(1)] by auto
      then have e: "fd = -1" "k' = sys_close p fd1 k1"
        using assms(2) op d False Some by (auto simp: fio_trylock_def flock_ex_def k1(3))
      then show ?thesis using sys_close_facts[OF k1(1)] h1 nh pd by auto
    qed
  qed
  then show "kernel_ok k'" "pids k' \<subseteq> insert p (pids k)"
    "if 0 \<le> fd then lock_holders file k = {} \<and> lock_holders file k' = {(p, fd)}
      else lock_holders file k' = lock_holders file k" by auto
qed

lemma trylock_free_ok:
  assumes "kernel_ok k" and "lock_holders file k = {}" and "p \<notin> pids k"
  shows "0 \<le> fst (fio_trylock True p file k)"
proof -
  have "free_fd k p = Some 0" using assms by (intro free_fd_None) (auto dest: kernel_okD)
  moreover have "map_of (k_lock k) file = None" using holders_empty_iff[OF assms(1)] assms(2) by simp
  ultimately show ?thesis
    by (simp add: fio_trylock_def sys_open_def flock_ex_def fd_desc_def)
qed

lemma unlock_facts:
  assumes "kernel_ok k" and "(p, fd) \<in> lock_holders file k"
  shows "kernel_ok (snd (fio_unlock p fd k))" and "pids (snd (fio_unlock p fd k)) \<subseteq> pids k"
    and "lock_holders file (snd (fio_unlock p fd k)) = {}" and "fst (fio_unlock p fd k) = 0"
proof -
  obtain d where d: "((p, fd), (d, file)) \<in> set (k_fds k)" "(file, d) \<in> set (k_lock k)"
    using assms(2) by (auto simp: lock_holders_def)
  then have fd: "fd_desc k p fd = Some (d, file)" using fd_desc_iff[OF assms(1)] by blast
  let ?k = "k\<lparr>k_lock := filter (\<lambda>e. e \<noteq> (file, d)) (k_lock k)\<rparr>"
  have u: "flock_un p fd k = ?k" by (simp add: flock_un_def fd)
  have ok: "kernel_ok ?k"
    using kernel_okD[OF assms(1)] desc_file[OF assms(1)] lock_desc[OF assms(1)]
    by (intro kernel_okI) (auto simp: distinct_fst_filter)
  have "lock_holders file ?k = {}"
    using lock_key[OF assms(1) d(2)] by (auto simp: lock_holders_def)
  moreover have "0 \<le> fd" using kernel_okD(4)[OF assms(1) d(1)] by simp
  moreover have "pids ?k = pids k" by (simp add: pids_def)
  ultimately show "kernel_ok (snd (fio_unlock p fd k))" "pids (snd (fio_unlock p fd k)) \<subseteq> pids k"
    "lock_holders file (snd (fio_unlock p fd k)) = {}" "fst (fio_unlock p fd k) = 0"
    using sys_close_facts[OF ok, where p = p and fd = fd] by (simp_all add: fio_unlock_def u)
qed

lemma fork_facts:
  assumes "kernel_ok k" and "c \<notin> pids k"
  shows "kernel_ok (sys_fork p c k)" and "pids (sys_fork p c k) \<subseteq> insert c (pids k)"
    and "lock_holders file (sys_fork p c k) = lock_holders file k \<union> {(c, fd) |fd. (p, fd) \<in> lock_holders file k}"
proof -
  let ?k = "sys_fork p c k"
  have s1: "((a, b), x) \<in> set (k_fds ?k) \<longleftrightarrow> ((a, b), x) \<in> set (k_fds k) \<or> a = c \<and> ((p, b), x) \<in> set (k_fds k)" for a b x
  proof -
    have "set (k_fds ?k) = (\<lambda>((q, fd), d). ((c, fd), d)) ` {e \<in> set (k_fds k). fst (fst e) = p} \<union> set (k_fds k)"
      by (simp add: sys_fork_def)
    moreover have "((a, b), x) \<in> (\<lambda>((q, fd), d). ((c, fd), d)) ` {e \<in> set (k_fds k). fst (fst e) = p}
        \<longleftrightarrow> a = c \<and> ((p, b), x) \<in> set (k_fds k)"
      unfolding image_iff Bex_def split_paired_Ex by (cases x) auto
    ultimately show ?thesis by blast
  qed
  have s: "(e, x) \<in> set (k_fds ?k) \<longleftrightarrow> (e, x) \<in> set (k_fds k) \<or> fst e = c \<and> ((p, snd e), x) \<in> set (k_fds k)" for e x
    by (cases e) (simp add: s1)
  have same: "k_lock ?k = k_lock k" "k_max ?k = k_max k" "k_next ?k = k_next k"
    by (simp_all add: sys_fork_def)
  let ?cs = "map (\<lambda>((q, fd), d). ((c, fd), d)) (filter (\<lambda>e. fst (fst e) = p) (k_fds k))"
  have "map fst ?cs = map (\<lambda>e. (c, snd e)) (map fst (filter (\<lambda>e. fst (fst e) = p) (k_fds k)))"
    by (simp add: case_prod_unfold)
  moreover have "inj_on (\<lambda>e. (c, snd e)) (set (map fst (filter (\<lambda>e. fst (fst e) = p) (k_fds k))))"
    by (auto simp: inj_on_def)
  ultimately have "distinct (map fst ?cs)"
    using distinct_fst_filter[OF kernel_okD(2)[OF assms(1)]] by (simp only: distinct_map[of "\<lambda>e. (c, snd e)"])
  moreover have A: "\<forall>e \<in> set (map fst ?cs). fst e = c" by auto
  have B: "\<forall>e \<in> set (map fst (k_fds k)). fst e \<noteq> c" using assms(2) unfolding pids_def set_map by blast
  have "set (map fst ?cs) \<inter> set (map fst (k_fds k)) = {}" using A B by blast
  ultimately have "distinct (map fst (k_fds ?k))"
    using kernel_okD(2)[OF assms(1)] unfolding sys_fork_def by (simp del: map_map set_map)
  then show "kernel_ok ?k"
  proof (rule kernel_okI[rotated])
    show "\<exists>e. (e, (d, f)) \<in> set (k_fds ?k)" if "(f, d) \<in> set (k_lock ?k)" for f d
      using lock_desc[OF assms(1), of f d] that by (auto simp: same s)
    show "f = f'" if "(e, (d, f)) \<in> set (k_fds ?k)" "(e', (d, f')) \<in> set (k_fds ?k)" for e e' d f f'
      using that desc_file[OF assms(1)] unfolding s by blast
    show "0 \<le> fd' \<and> d < k_next ?k" if "((q, fd'), (d, f)) \<in> set (k_fds ?k)" for q fd' d f
      using that kernel_okD(4)[OF assms(1), of q fd' d f] kernel_okD(4)[OF assms(1), of p fd' d f]
      by (auto simp: same s)
  qed (use kernel_okD[OF assms(1)] in \<open>simp_all add: same\<close>)
  show "pids ?k \<subseteq> insert c (pids k)" by (force simp: pids_def s)
  show "lock_holders file ?k = lock_holders file k \<union> {(c, fd) |fd. (p, fd) \<in> lock_holders file k}"
    by (auto simp: lock_holders_def same s)
qed

interpretation fl: file_lock kernel_ok "lock_holders path" pids
  "\<lambda>can p. fio_trylock can p path" "\<lambda>p fd k. snd (fio_unlock p fd k)" sys_fork sys_exit
  for path
proof
  show "p \<in> pids k \<and> 0 \<le> fd" if "kernel_ok k" "(p, fd) \<in> lock_holders path k" for k p fd
    using that kernel_okD(4)[OF that(1)] by (force simp: lock_holders_def pids_def)
  show "kernel_ok k' \<and> pids k' \<subseteq> insert p (pids k) \<and> (if 0 \<le> fd then lock_holders path k = {}
      \<and> lock_holders path k' = {(p, fd)} else lock_holders path k' = lock_holders path k)"
    if "kernel_ok k" "fio_trylock can p path k = (fd, k')" for k can p fd k'
    using trylock_facts[OF that] by blast
  show "0 \<le> fst (fio_trylock True p path k)"
    if "kernel_ok k" "lock_holders path k = {}" "p \<notin> pids k" for k p
    by (rule trylock_free_ok[OF that])
qed (simp_all add: unlock_facts fork_facts sys_exit_facts)

end
