(* ===== verification/Lock_Calls.thy ===== *)
theory Lock_Calls
  imports Fio_Lock
begin

text \<open>
  \<open>lgu/fio/fio_lock.c\<close> one system call at a time: any number of processes are inside
  \<open>fio_lock\<close>, \<open>fio_trylock\<close> or \<open>fio_unlock\<close>, on any files, fork between calls, and are killed
  anywhere. Run alone, the system calls make up the functions of \<open>Fio_Lock\<close>.
\<close>

section \<open>The calls\<close>

text \<open>
  Where a process is. \<open>LC_open\<close> and \<open>LC_flock\<close> carry whether the call waits (\<open>fio_lock\<close>) or not
  (\<open>fio_trylock\<close>).
\<close>

datatype lock_pc =
  LC_idle
| LC_open bool string
| LC_flock bool int string
| LC_close int \<comment> \<open>after a refusal\<close>
| LC_got int string \<comment> \<open>about to return the descriptor\<close>
| LC_failed \<comment> \<open>about to return -1\<close>
| LU_flock int
| LU_close int
| LU_done \<comment> \<open>about to return 0\<close>

text \<open>
  One system call; \<open>can\<close>: the file can be opened, \<open>intr\<close>: a signal ends the wait. \<open>None\<close>: the
  process waits, or is in no call.
\<close>

fun lock_step :: "bool \<Rightarrow> bool \<Rightarrow> pid \<Rightarrow> lock_pc \<Rightarrow> kernel \<Rightarrow> (lock_pc \<times> kernel) option" where
  "lock_step can intr p (LC_open wait path) k =
     (let (fd, k) = sys_open can p path k in
      Some (if fd < 0 then LC_failed else LC_flock wait fd path, k))"
| "lock_step can intr p (LC_flock wait fd path) k =
     (case flock_ex p fd k of
        None \<Rightarrow> if wait \<and> \<not> intr then None else Some (LC_close fd, k)
      | Some (r, k) \<Rightarrow> Some (if (if wait then r < 0 else r \<noteq> 0) then LC_close fd else LC_got fd path, k))"
| "lock_step can intr p (LC_close fd) k = Some (LC_failed, sys_close p fd k)"
| "lock_step can intr p (LU_flock fd) k =
     (if fd < 0 then Some (LC_failed, k) else Some (LU_close fd, flock_un p fd k))"
| "lock_step can intr p (LU_close fd) k = Some (LU_done, sys_close p fd k)"
| "lock_step can intr p _ k = None"

section \<open>One process alone\<close>

fun finished_call :: "lock_pc \<Rightarrow> bool" where
  "finished_call (LC_got _ _) = True"
| "finished_call LC_failed = True"
| "finished_call LU_done = True"
| "finished_call _ = False"

fun lc_value :: "lock_pc \<Rightarrow> int" where
  "lc_value (LC_got fd _) = fd"
| "lc_value LU_done = 0"
| "lc_value _ = -1"

fun lock_solo :: "nat \<Rightarrow> bool \<Rightarrow> bool \<Rightarrow> pid \<Rightarrow> lock_pc \<Rightarrow> kernel \<Rightarrow> (int \<times> kernel) option" where
  "lock_solo 0 can intr p pc k = None"
| "lock_solo (Suc n) can intr p pc k =
     (if finished_call pc then Some (lc_value pc, k)
      else Option.bind (lock_step can intr p pc k) (\<lambda>(pc, k). lock_solo n can intr p pc k))"

text \<open>The system calls, one after the other, are the functions; \<open>fio_lock\<close> waits when it waits.\<close>

lemma lock_calls_are_functions:
  "lock_solo (n + 4) can intr p (LC_open True path) k = fio_lock can intr p path k"
  "lock_solo (n + 4) can intr p (LC_open False path) k = Some (fio_trylock can p path k)"
  "lock_solo (n + 4) can intr p (LU_flock fd) k = Some (fio_unlock p fd k)"
  by (auto simp: eval_nat_numeral fio_lock_def fio_trylock_def fio_unlock_def Let_def flock_ex_def
      split: prod.splits option.splits)

section \<open>The processes together\<close>

text \<open>\<open>ls_held\<close>: the locks the processes have, as far as the return values tell.\<close>

record lock_sys =
  ls_kern :: kernel
  ls_pcs :: "pid \<Rightarrow> lock_pc"
  ls_held :: "(pid \<times> int \<times> string) set"

text \<open>
  A lock belongs to a description, which \<open>fork\<close> shares: who unlocks it gives it up for all that
  share it.
\<close>

definition sharing :: "kernel \<Rightarrow> pid \<Rightarrow> int \<Rightarrow> (pid \<times> int \<times> string) set" where
  "sharing k p fd = {(q, fd', path). fd_desc k q fd' = fd_desc k p fd}"

inductive lock_sys_step :: "lock_sys \<Rightarrow> lock_sys \<Rightarrow> bool" where
  run: "lock_step can intr p (ls_pcs s p) (ls_kern s) = Some (pc, k)
    \<Longrightarrow> lock_sys_step s (s\<lparr>ls_kern := k, ls_pcs := (ls_pcs s)(p := pc)\<rparr>)"
| call_lock: "ls_pcs s p = LC_idle \<Longrightarrow> lock_sys_step s (s\<lparr>ls_pcs := (ls_pcs s)(p := LC_open wait path)\<rparr>)"
| got: "ls_pcs s p = LC_got fd path \<Longrightarrow> lock_sys_step s
    (s\<lparr>ls_pcs := (ls_pcs s)(p := LC_idle), ls_held := insert (p, fd, path) (ls_held s)\<rparr>)"
| returned: "ls_pcs s p = LC_failed \<or> ls_pcs s p = LU_done
    \<Longrightarrow> lock_sys_step s (s\<lparr>ls_pcs := (ls_pcs s)(p := LC_idle)\<rparr>)"
| call_unlock: "ls_pcs s p = LC_idle \<Longrightarrow> (p, fd, path) \<in> ls_held s \<Longrightarrow> lock_sys_step s
    (s\<lparr>ls_pcs := (ls_pcs s)(p := LU_flock fd), ls_held := ls_held s - sharing (ls_kern s) p fd\<rparr>)"
| fork: "ls_pcs s p = LC_idle \<Longrightarrow> ls_pcs s c = LC_idle \<Longrightarrow> c \<notin> pids (ls_kern s) \<Longrightarrow> lock_sys_step s
    (s\<lparr>ls_kern := sys_fork p c (ls_kern s),
       ls_held := ls_held s \<union> {(c, fd, path) |fd path. (p, fd, path) \<in> ls_held s}\<rparr>)"
| die: "lock_sys_step s (s\<lparr>ls_kern := sys_exit p (ls_kern s), ls_pcs := (ls_pcs s)(p := LC_idle),
       ls_held := {e \<in> ls_held s. fst e \<noteq> p}\<rparr>)"

definition lock_start :: "lock_sys \<Rightarrow> bool" where
  "lock_start s \<longleftrightarrow> kernel_ok (ls_kern s) \<and> ls_pcs s = (\<lambda>_. LC_idle) \<and> ls_held s = {}"

section \<open>The invariant\<close>

abbreviation at_desc :: "kernel \<Rightarrow> pid \<Rightarrow> int \<Rightarrow> nat \<Rightarrow> string \<Rightarrow> bool" where
  "at_desc k p fd d file \<equiv> ((p, fd), (d, file)) \<in> set (k_fds k)"

text \<open>No other descriptor refers to the description.\<close>

definition sole :: "kernel \<Rightarrow> pid \<Rightarrow> int \<Rightarrow> bool" where
  "sole k p fd \<longleftrightarrow> (\<forall>q fd' d f f'. at_desc k p fd d f \<longrightarrow> at_desc k q fd' d f' \<longrightarrow> q = p \<and> fd' = fd)"

definition unclaimed :: "(pid \<times> int \<times> string) set \<Rightarrow> pid \<Rightarrow> int \<Rightarrow> bool" where
  "unclaimed H p fd \<longleftrightarrow> (\<forall>path. (p, fd, path) \<notin> H)"

fun call_ok :: "kernel \<Rightarrow> (pid \<times> int \<times> string) set \<Rightarrow> pid \<Rightarrow> lock_pc \<Rightarrow> bool" where
  "call_ok k H p (LC_flock wait fd path) \<longleftrightarrow> (\<exists>d. at_desc k p fd d path) \<and> sole k p fd \<and> unclaimed H p fd"
| "call_ok k H p (LC_got fd path) \<longleftrightarrow> (p, fd) \<in> lock_holders path k \<and> sole k p fd \<and> unclaimed H p fd"
| "call_ok k H p (LC_close fd) \<longleftrightarrow> unclaimed H p fd"
| "call_ok k H p (LU_flock fd) \<longleftrightarrow> (\<exists>d f. at_desc k p fd d f \<and> (\<forall>(q, fd', g) \<in> H. \<not> at_desc k q fd' d g))"
| "call_ok k H p (LU_close fd) \<longleftrightarrow> unclaimed H p fd"
| "call_ok k H p _ \<longleftrightarrow> True"

definition lock_inv :: "lock_sys \<Rightarrow> bool" where
  "lock_inv s \<longleftrightarrow> kernel_ok (ls_kern s)
     \<and> (\<forall>(p, fd, path) \<in> ls_held s. (p, fd) \<in> lock_holders path (ls_kern s))
     \<and> (\<forall>p. call_ok (ls_kern s) (ls_held s) p (ls_pcs s p))"

subsection \<open>What one process does to the others\<close>

lemma lock_holdersD:
  assumes "(p, fd) \<in> lock_holders path k"
  obtains d where "at_desc k p fd d path" and "(path, d) \<in> set (k_lock k)"
  using assms by (auto simp: lock_holders_def)

lemma sole_other:
  assumes "kernel_ok k" and "kernel_ok k'" and "at_desc k q fd d f" and "sole k q fd"
    and keep: "at_desc k' q fd d f"
    and new: "\<And>r fd d f. at_desc k' r fd d f
      \<Longrightarrow> at_desc k r fd d f \<or> k_next k \<le> d \<or> (\<exists>p fd0. p \<noteq> q \<and> at_desc k p fd0 d f)"
  shows "sole k' q fd"
  unfolding sole_def
proof (intro allI impI)
  fix r fd' d1 f1 f2
  assume a: "at_desc k' q fd d1 f1" "at_desc k' r fd' d1 f2"
  then have "d1 = d" using key_desc[OF assms(2) keep] by blast
  then show "r = q \<and> fd' = fd"
    using new[OF a(2)] assms(3,4) kernel_okD(4)[OF assms(1,3)] unfolding sole_def by (metis not_less)
qed

lemma call_ok_other:
  assumes ok: "kernel_ok k" "kernel_ok k'" and pc: "call_ok k H q pc"
    and keep: "\<And>fd d f. at_desc k q fd d f \<Longrightarrow> at_desc k' q fd d f"
    and new: "\<And>r fd d f. at_desc k' r fd d f
      \<Longrightarrow> at_desc k r fd d f \<or> k_next k \<le> d \<or> (\<exists>p fd0. p \<noteq> q \<and> at_desc k p fd0 d f)"
    and lock: "\<And>fd f. (q, fd) \<in> lock_holders f k \<Longrightarrow> sole k q fd \<Longrightarrow> (q, fd) \<in> lock_holders f k'"
    and H: "\<And>fd f. (q, fd, f) \<in> H' \<Longrightarrow> (q, fd, f) \<in> H"
    and H2: "\<And>r fd d g. (r, fd, g) \<in> H' \<Longrightarrow> at_desc k' r fd d g \<Longrightarrow> d < k_next k
      \<Longrightarrow> \<exists>r0 fd0. (r0, fd0, g) \<in> H \<and> at_desc k r0 fd0 d g"
  shows "call_ok k' H' q pc"
proof -
  have un: "unclaimed H' q fd" if "unclaimed H q fd" for fd
    using that H unfolding unclaimed_def by blast
  show ?thesis
  proof (cases pc)
    case (LC_flock w fd path)
    then obtain d where d: "at_desc k q fd d path" "sole k q fd" "unclaimed H q fd" using pc by auto
    have "sole k' q fd" by (rule sole_other[OF ok d(1,2) keep[OF d(1)] new])
    then show ?thesis using LC_flock keep[OF d(1)] un[OF d(3)] by auto
  next
    case (LC_got fd path)
    then have g: "(q, fd) \<in> lock_holders path k" "sole k q fd" "unclaimed H q fd" using pc by auto
    obtain d where d: "at_desc k q fd d path" using g(1) by (rule lock_holdersD)
    have "sole k' q fd" by (rule sole_other[OF ok d g(2) keep[OF d] new])
    then show ?thesis using LC_got lock[OF g(1,2)] un[OF g(3)] by auto
  next
    case (LU_flock fd)
    then obtain d f where d: "at_desc k q fd d f" "\<forall>(r, fd', g) \<in> H. \<not> at_desc k r fd' d g" using pc by auto
    then have "\<forall>(r, fd', g) \<in> H'. \<not> at_desc k' r fd' d g"
      using H2 kernel_okD(4)[OF ok(1) d(1)] by fastforce
    then show ?thesis using LU_flock keep[OF d(1)] by auto
  qed (use pc un in auto)
qed

subsection \<open>The system calls\<close>

lemma at_desc_close: "at_desc (sys_close p fd k) q fd' d f \<longleftrightarrow> at_desc k q fd' d f \<and> (q, fd') \<noteq> (p, fd)"
  by (auto simp: sys_close_def drop_dead_def)

lemma at_desc_exit: "at_desc (sys_exit p k) q fd' d f \<longleftrightarrow> at_desc k q fd' d f \<and> q \<noteq> p"
  by (auto simp: sys_exit_def drop_dead_def)

lemma at_desc_un [simp]: "at_desc (flock_un p fd k) q fd' d f \<longleftrightarrow> at_desc k q fd' d f"
  by (auto simp: flock_un_def split: option.splits)

lemma at_desc_fork:
  "at_desc (sys_fork p c k) q fd d f \<longleftrightarrow> at_desc k q fd d f \<or> q = c \<and> at_desc k p fd d f"
  by (force simp: sys_fork_def)

lemma flock_ex_some:
  assumes "kernel_ok k" and "at_desc k p fd d path" and "flock_ex p fd k = Some (r, k')"
  shows "r = 0" and "kernel_ok k'" and "k_fds k' = k_fds k" and "k_next k' = k_next k"
    and "(p, fd) \<in> lock_holders path k'" and "lock_holders f k \<subseteq> lock_holders f k'"
proof -
  have fd: "fd_desc k p fd = Some (d, path)" using fd_desc_iff[OF assms(1)] assms(2) by blast
  have k': "r = 0 \<and> (k' = k \<and> (path, d) \<in> set (k_lock k)
      \<or> k' = k\<lparr>k_lock := (path, d) # k_lock k\<rparr> \<and> path \<notin> fst ` set (k_lock k))"
    using assms(3) lock_iff[OF assms(1)] unfolding flock_ex_def
    by (auto simp: fd map_of_eq_None_iff split: option.splits if_splits)
  then show "r = 0" "k_fds k' = k_fds k" "k_next k' = k_next k" "lock_holders f k \<subseteq> lock_holders f k'"
    by (auto simp: lock_holders_def)
  show "(p, fd) \<in> lock_holders path k'" using k' assms(2) by (auto simp: lock_holders_def)
  show "kernel_ok k'"
    using k' kernel_okD[OF assms(1)] desc_file[OF assms(1)] lock_desc[OF assms(1)] assms(1,2)
    by (elim conjE disjE) (simp, intro kernel_okI, auto)
qed

lemma flock_un_ok:
  assumes "kernel_ok k"
  shows "kernel_ok (flock_un p fd k)" and "k_next (flock_un p fd k) = k_next k"
    and "(q, fd') \<in> lock_holders f k \<Longrightarrow> at_desc k q fd' d f \<Longrightarrow> \<not> (\<exists>g. at_desc k p fd d g)
      \<Longrightarrow> (q, fd') \<in> lock_holders f (flock_un p fd k)"
proof -
  show "kernel_ok (flock_un p fd k)"
    using kernel_okD[OF assms] desc_file[OF assms] lock_desc[OF assms] assms
    by (cases "fd_desc k p fd") (auto simp: flock_un_def distinct_fst_filter intro!: kernel_okI)
  show "k_next (flock_un p fd k) = k_next k" by (auto simp: flock_un_def split: option.splits)
  assume a: "(q, fd') \<in> lock_holders f k" "at_desc k q fd' d f" "\<not> (\<exists>g. at_desc k p fd d g)"
  then have "(f, d) \<in> set (k_lock k)" using key_desc[OF assms a(2)] by (auto simp: lock_holders_def)
  then show "(q, fd') \<in> lock_holders f (flock_un p fd k)"
    using a fd_desc_iff[OF assms, of p fd] by (auto simp: flock_un_def lock_holders_def split: option.splits)
qed

lemma open_holders:
  assumes "kernel_ok k" and "sys_open can p path k = (fd, k')" and "0 \<le> fd"
  shows "lock_holders f k' = lock_holders f k" and "sole k' p fd" and "(p, fd) \<notin> lock_holders f k"
proof -
  have k': "fd_desc k p fd = None" "k' = k\<lparr>k_fds := ((p, fd), (k_next k, path)) # k_fds k, k_next := Suc (k_next k)\<rparr>"
    using sys_open_facts(2)[OF assms] by auto
  have fresh: "\<not> at_desc k q fd' (k_next k) g" for q fd' g using kernel_okD(4)[OF assms(1)] by blast
  have none: "\<not> at_desc k p fd d g" for d g using k'(1) fd_desc_iff[OF assms(1)] by (metis option.distinct(1))
  have "(g, k_next k) \<notin> set (k_lock k)" for g using lock_desc[OF assms(1)] fresh by (metis surj_pair)
  then show "lock_holders f k' = lock_holders f k" by (auto simp: lock_holders_def k'(2))
  show "sole k' p fd" using fresh none by (auto simp: sole_def k'(2))
  show "(p, fd) \<notin> lock_holders f k" using none by (auto simp: lock_holders_def)
qed

subsection \<open>The steps\<close>

lemma lock_invD:
  assumes "lock_inv s"
  shows "kernel_ok (ls_kern s)" and "(p, fd, path) \<in> ls_held s \<Longrightarrow> (p, fd) \<in> lock_holders path (ls_kern s)"
    and "call_ok (ls_kern s) (ls_held s) p (ls_pcs s p)"
  using assms by (auto simp: lock_inv_def)

text \<open>A system call of \<open>p\<close> that leaves what the others hold alone\<close>

lemma run_inv:
  assumes inv: "lock_inv s" and ok: "kernel_ok k'"
    and keep: "\<And>q fd d f. q \<noteq> p \<Longrightarrow> at_desc (ls_kern s) q fd d f \<Longrightarrow> at_desc k' q fd d f"
    and new: "\<And>q fd d f. at_desc k' q fd d f \<Longrightarrow> at_desc (ls_kern s) q fd d f \<or> k_next (ls_kern s) \<le> d"
    and lock: "\<And>q fd f. q \<noteq> p \<Longrightarrow> (q, fd) \<in> lock_holders f (ls_kern s) \<Longrightarrow> sole (ls_kern s) q fd \<or> (q, fd, f) \<in> ls_held s
      \<Longrightarrow> (q, fd) \<in> lock_holders f k'"
    and mine: "\<And>fd f. (p, fd, f) \<in> ls_held s \<Longrightarrow> (p, fd) \<in> lock_holders f k'"
    and pc: "call_ok k' (ls_held s) p pc"
  shows "lock_inv (s\<lparr>ls_kern := k', ls_pcs := (ls_pcs s)(p := pc)\<rparr>)"
proof -
  have "(q, fd) \<in> lock_holders f k'" if "(q, fd, f) \<in> ls_held s" for q fd f
    using that mine lock lock_invD(2)[OF inv that] by (cases "q = p") auto
  moreover have "call_ok k' (ls_held s) q (ls_pcs s q)" if "q \<noteq> p" for q
  proof (rule call_ok_other[OF lock_invD(1)[OF inv] ok lock_invD(3)[OF inv]])
    fix r fd d g
    assume r: "(r, fd, g) \<in> ls_held s" "at_desc k' r fd d g" "d < k_next (ls_kern s)"
    then show "\<exists>r0 fd0. (r0, fd0, g) \<in> ls_held s \<and> at_desc (ls_kern s) r0 fd0 d g" using new[OF r(2)] by auto
  qed (use that keep new lock in blast)+
  ultimately show ?thesis using ok pc by (auto simp: lock_inv_def)
qed

lemma lock_step_inv:
  assumes inv: "lock_inv s" and st: "lock_step can intr p (ls_pcs s p) (ls_kern s) = Some (pc, k')"
  shows "lock_inv (s\<lparr>ls_kern := k', ls_pcs := (ls_pcs s)(p := pc)\<rparr>)"
proof -
  let ?k = "ls_kern s"
  note ok = lock_invD(1)[OF inv] and held = lock_invD(2)[OF inv] and mine = lock_invD(3)[OF inv, of p]
  have same: "lock_inv (s\<lparr>ls_kern := ?k, ls_pcs := (ls_pcs s)(p := pc)\<rparr>)" if "call_ok ?k (ls_held s) p pc"
    by (rule run_inv[OF inv ok]) (use held that in auto)
  have close: "lock_inv (s\<lparr>ls_kern := sys_close p fd ?k, ls_pcs := (ls_pcs s)(p := pc)\<rparr>)"
    if "unclaimed (ls_held s) p fd" "pc = LC_failed \<or> pc = LU_done" for fd
    by (rule run_inv[OF inv sys_close_facts(1)[OF ok]])
      (use that held in \<open>auto simp: at_desc_close sys_close_facts(2)[OF ok] unclaimed_def\<close>)
  show ?thesis
  proof (cases "ls_pcs s p")
    case (LC_open w path)
    obtain fd k1 where op: "sys_open can p path ?k = (fd, k1)" by fastforce
    show ?thesis
    proof (cases "fd < 0")
      case True
      then have "k' = ?k" "pc = LC_failed" using st LC_open op sys_open_facts(1)[OF ok op] by simp_all
      then show ?thesis using same by simp
    next
      case False
      then have fd: "0 \<le> fd" "pc = LC_flock w fd path" "k' = k1" using st LC_open op by simp_all
      note f = sys_open_facts(2)[OF ok op fd(1)] and h = open_holders[OF ok op fd(1)]
      have "unclaimed (ls_held s) p fd" using held h(3) by (auto simp: unclaimed_def)
      moreover have "at_desc k1 p fd (k_next ?k) path" using f by simp
      ultimately show ?thesis
        unfolding fd(3) using f h held fd(2) by (intro run_inv[OF inv]) auto
    qed
  next
    case (LC_flock w fd path)
    then obtain d where d: "at_desc ?k p fd d path" "sole ?k p fd" "unclaimed (ls_held s) p fd" using mine by auto
    show ?thesis
    proof (cases "flock_ex p fd ?k")
      case None
      then have "k' = ?k" "pc = LC_close fd" using st LC_flock by (auto split: if_splits)
      then show ?thesis using same d(3) by simp
    next
      case (Some x)
      then obtain r k1 where x: "flock_ex p fd ?k = Some (r, k1)" by (cases x) auto
      note f = flock_ex_some[OF ok d(1) x]
      have k': "k' = k1" "pc = LC_got fd path" using st LC_flock x f(1) by (auto split: if_splits)
      have "sole k1 p fd" using d(2) f(3) by (simp add: sole_def)
      then show ?thesis
        unfolding k' using f(1-5) subsetD[OF f(6)] d(3) held \<open>sole k1 p fd\<close> by (intro run_inv[OF inv f(2)]) auto
    qed
  next
    case (LC_close fd)
    then show ?thesis using st mine close[of fd] by auto
  next
    case (LU_flock fd)
    then obtain d f where d: "at_desc ?k p fd d f" "\<forall>(q, fd', g) \<in> ls_held s. \<not> at_desc ?k q fd' d g" using mine by auto
    have fd: "0 \<le> fd" using kernel_okD(4)[OF ok d(1)] by simp
    then have k': "k' = flock_un p fd ?k" "pc = LU_close fd" using st LU_flock by auto
    note u = flock_un_ok[OF ok, where p = p and fd = fd]
    have keep: "(q, fd') \<in> lock_holders g (flock_un p fd ?k)"
      if q: "(q, fd') \<in> lock_holders g ?k" and w: "q \<noteq> p \<and> sole ?k q fd' \<or> (q, fd', g) \<in> ls_held s" for q fd' g
    proof -
      obtain e where e: "at_desc ?k q fd' e g" using q by (rule lock_holdersD)
      have "\<not> at_desc ?k p fd e h" for h
      proof
        assume h: "at_desc ?k p fd e h"
        then have "e = d" using key_desc[OF ok d(1)] by blast
        then show False using w e d(1,2) unfolding sole_def by blast
      qed
      then show ?thesis using u(3)[OF q e] by blast
    qed
    have "unclaimed (ls_held s) p fd"
      unfolding unclaimed_def
    proof (intro allI notI)
      fix path assume h: "(p, fd, path) \<in> ls_held s"
      obtain e where e: "at_desc ?k p fd e path" using held[OF h] by (rule lock_holdersD)
      then have "e = d" using key_desc[OF ok d(1)] by blast
      then show False using d(2) h e by blast
    qed
    then show ?thesis
      unfolding k' using u keep held by (intro run_inv[OF inv u(1)]) auto
  next
    case (LU_close fd)
    then show ?thesis using st mine close[of fd] by auto
  qed (use st in auto)
qed

lemma lock_sys_step_inv:
  assumes "lock_sys_step s s'" and inv: "lock_inv s"
  shows "lock_inv s'"
proof -
  let ?k = "ls_kern s" and ?H = "ls_held s"
  note ok = lock_invD(1)[OF inv] and held = lock_invD(2)[OF inv] and pcs = lock_invD(3)[OF inv]
  have desc: "\<exists>d. at_desc ?k p fd d path" if "(p, fd, path) \<in> ?H" for p fd path
    using held[OF that] by (auto elim: lock_holdersD)
  show ?thesis
    using assms(1)
  proof (cases rule: lock_sys_step.cases)
    case (run can intr p pc k)
    then show ?thesis using lock_step_inv[OF inv run(2)] by simp
  next
    case (got p fd path)
    have p: "(p, fd) \<in> lock_holders path ?k" "sole ?k p fd" using pcs[of p] got(2) by auto
    have "call_ok ?k (insert (p, fd, path) ?H) q (ls_pcs s q)" if "q \<noteq> p" for q
    proof (cases "ls_pcs s q")
      case (LU_flock fd')
      then obtain d f where d: "at_desc ?k q fd' d f" "\<forall>(r, fd'', g) \<in> ?H. \<not> at_desc ?k r fd'' d g"
        using pcs[of q] by auto
      then have "\<not> at_desc ?k p fd d path" using p(2) that unfolding sole_def by blast
      then show ?thesis using LU_flock d by auto
    qed (use pcs[of q] that in \<open>auto simp: unclaimed_def\<close>)
    then show ?thesis using got p ok held by (auto simp: lock_inv_def)
  next
    case (call_unlock p fd path)
    let ?H' = "?H - sharing ?k p fd"
    obtain d where d: "at_desc ?k p fd d path" using desc[OF call_unlock(3)] by blast
    have fd: "fd_desc ?k p fd = Some (d, path)" using fd_desc_iff[OF ok] d by blast
    have "\<not> at_desc ?k q fd' d g" if "(q, fd', g) \<in> ?H'" for q fd' g
    proof
      assume a: "at_desc ?k q fd' d g"
      then have "g = path" using desc_file[OF ok d] by simp
      then have "fd_desc ?k q fd' = Some (d, path)" using a fd_desc_iff[OF ok, of q fd' "(d, path)"] by simp
      then have "fd_desc ?k q fd' = fd_desc ?k p fd" using fd by simp
      then show False using that by (simp add: sharing_def)
    qed
    then have me: "call_ok ?k ?H' p (LU_flock fd)" using d by auto
    have "call_ok ?k ?H' q (ls_pcs s q)" for q
      by (rule call_ok_other[OF ok ok pcs]) auto
    then show ?thesis using call_unlock(1) me ok held by (auto simp: lock_inv_def)
  next
    case (fork p c)
    let ?f = "sys_fork p c ?k"
    note f = fork_facts[OF ok fork(4)]
    have noc: "(c, fd, path) \<notin> ?H" for fd path
      using fork(4) desc[of c fd path] by (force simp: pids_def)
    have new: "(q, fd) \<in> lock_holders path ?f"
      if "(q, fd, path) \<in> ?H \<union> {(c, fd, path) |fd path. (p, fd, path) \<in> ?H}" for q fd path
      using that held f(3) by auto
    have "call_ok ?f (?H \<union> {(c, fd, path) |fd path. (p, fd, path) \<in> ?H}) q (ls_pcs s q)" for q
    proof (cases "q = p \<or> q = c")
      case True
      then show ?thesis using fork(2,3) by auto
    next
      case False
      show ?thesis
      proof (rule call_ok_other[OF ok f(1) pcs])
        show "at_desc ?k r fd d g \<or> k_next ?k \<le> d \<or> (\<exists>p0 fd0. p0 \<noteq> q \<and> at_desc ?k p0 fd0 d g)"
          if "at_desc ?f r fd d g" for r fd d g
          using that False unfolding at_desc_fork by metis
        show "\<exists>r0 fd0. (r0, fd0, g) \<in> ?H \<and> at_desc ?k r0 fd0 d g"
          if a: "(r, fd, g) \<in> ?H \<union> {(c, fd, path) |fd path. (p, fd, path) \<in> ?H}" "at_desc ?f r fd d g" for r fd d g
        proof -
          have "\<not> at_desc ?k c fd d g" using fork(4) by (force simp: pids_def)
          then consider "(r, fd, g) \<in> ?H" "r \<noteq> c" | "r = c" "(p, fd, g) \<in> ?H" using a(1) noc by blast
          then show ?thesis
          proof cases
            case 1
            then show ?thesis using a(2) at_desc_fork by blast
          next
            case 2
            then have "at_desc ?k p fd d g" using a(2) at_desc_fork \<open>\<not> at_desc ?k c fd d g\<close> by blast
            then show ?thesis using 2 by blast
          qed
        qed
      qed (use False f(3) at_desc_fork in auto)
    qed
    then show ?thesis using fork(1) f(1) new by (auto simp: lock_inv_def)
  next
    case (die p)
    let ?e = "sys_exit p ?k"
    note e = sys_exit_facts[OF ok]
    have "call_ok ?e {x \<in> ?H. fst x \<noteq> p} q (ls_pcs s q)" if "q \<noteq> p" for q
      by (rule call_ok_other[OF ok e(1) pcs]) (use that e(2) at_desc_exit in auto)
    then show ?thesis using die e held by (auto simp: lock_inv_def)
  qed (use ok held pcs in \<open>auto simp: lock_inv_def\<close>)
qed

interpretation lock_calls: machine_invariant lock_start lock_sys_step lock_inv
proof
  show "lock_inv s" if "lock_start s" for s using that by (auto simp: lock_start_def lock_inv_def)
qed (rule lock_sys_step_inv)

section \<open>Properties\<close>

text \<open>Who may hold the lock on \<open>path\<close> next: nobody, as long as it is held through another description\<close>

lemma held_blocks:
  assumes ok: "kernel_ok k" and "(q, fd') \<in> lock_holders path k" and "at_desc k p fd d path"
    and "\<not> at_desc k q fd' d path"
  shows "flock_ex p fd k = None"
proof -
  obtain e where e: "at_desc k q fd' e path" "(path, e) \<in> set (k_lock k)" using assms(2) by (rule lock_holdersD)
  then have "e \<noteq> d" using assms(4) by blast
  moreover have "fd_desc k p fd = Some (d, path)" using fd_desc_iff[OF ok] assms(3) by blast
  moreover have "map_of (k_lock k) path = Some e" using lock_iff[OF ok] e(2) by blast
  ultimately show ?thesis by (simp add: flock_ex_def)
qed


text \<open>C22: a file that is locked. While the lock of a file is held, by another process or, through
  another descriptor, by the caller itself, \<open>fio_trylock\<close> returns -1 and leaves the kernel as it
  was but for a used-up description number; \<open>fio_lock\<close> does the same when a signal ends its wait,
  and waits otherwise, so that locking twice in one process without a signal never returns.\<close>

theorem fio_lock_of_locked_file:
  assumes "kernel_ok k" and "lock_holders path k \<noteq> {}" and "free_fd k p = Some fd"
  shows "(\<exists>k'. fio_trylock True p path k = (-1, k') \<and> fio_lock True True p path k = Some (-1, k')
        \<and> k_fds k' = k_fds k \<and> k_lock k' = k_lock k)
    \<and> fio_lock True False p path k = None"
proof -
  let ?k1 = "k\<lparr>k_fds := ((p, fd), (k_next k, path)) # k_fds k, k_next := Suc (k_next k)\<rparr>"
  let ?k2 = "sys_close p fd ?k1"
  have op: "sys_open True p path k = (fd, ?k1)" by (simp add: sys_open_def assms(3))
  have fd: "0 \<le> fd" "fd_desc k p fd = None" using free_fd_facts[OF assms(3)] .
  have "map_of (k_lock k) path \<noteq> None" using holders_empty_iff[OF assms(1)] assms(2) by simp
  then obtain e where e: "map_of (k_lock k) path = Some e" by blast
  then have "(path, e) \<in> set (k_lock k)" using lock_iff[OF assms(1)] by blast
  then have "e < k_next k" using lock_desc[OF assms(1)] kernel_okD(4)[OF assms(1)] by (metis surj_pair)
  then have block: "flock_ex p fd ?k1 = None" by (simp add: flock_ex_def fd_desc_def e)
  have "(p, fd) \<notin> fst ` set (k_fds k)" using fd(2) by (simp add: fd_desc_def map_of_eq_None_iff)
  then have fds: "filter (\<lambda>e. fst e \<noteq> (p, fd)) (k_fds k) = k_fds k"
    by (intro filter_True) (metis imageI)
  have "k_fds ?k2 = k_fds k" using fds by (simp add: sys_close_def drop_dead_def)
  moreover have "k_lock ?k2 = filter (\<lambda>(file, d). d \<in> (fst \<circ> snd) ` set (k_fds k)) (k_lock k)"
    using fds by (simp add: sys_close_def drop_dead_def)
  moreover have "filter (\<lambda>(file, d). d \<in> (fst \<circ> snd) ` set (k_fds k)) (k_lock k) = k_lock k"
  proof (intro filter_True ballI)
    fix x assume x: "x \<in> set (k_lock k)"
    obtain f d where fd': "x = (f, d)" by (cases x)
    obtain y where "(y, (d, f)) \<in> set (k_fds k)" using lock_desc[OF assms(1)] x fd' by blast
    then show "case x of (file, d) \<Rightarrow> d \<in> (fst \<circ> snd) ` set (k_fds k)" unfolding fd' by force
  qed
  ultimately show ?thesis
    using op fd(1) block by (simp add: fio_trylock_def fio_lock_def)
qed

section \<open>A concrete run\<close>

definition lock_demo :: lock_sys where
  "lock_demo = \<lparr>ls_kern = \<lparr>k_fds = [], k_lock = [], k_next = 0, k_max = 8\<rparr>, ls_pcs = (\<lambda>_. LC_idle), ls_held = {}\<rparr>"

lemma lock_demo_start: "lock_start lock_demo"
  by (simp add: lock_start_def lock_demo_def kernel_ok_def)

text \<open>Process 3 has the lock; process 2 has opened the file.\<close>

definition lock_demo_kernel :: kernel where
  "lock_demo_kernel = \<lparr>k_fds = [((2, 0), (1, ''l'')), ((3, 0), (0, ''l''))], k_lock = [(''l'', 0)], k_next = 2, k_max = 8\<rparr>"

lemma lock_demo_run:
  "lock_sys_step\<^sup>*\<^sup>* lock_demo \<lparr>ls_kern = lock_demo_kernel,
     ls_pcs = ((\<lambda>_. LC_idle)(3 := LC_idle, 2 := LC_flock False 0 ''l'')), ls_held = {(3, 0, ''l'')}\<rparr>"
  (is "lock_sys_step\<^sup>*\<^sup>* _ ?s6")
proof -
  let ?k1 = "\<lparr>k_fds = [((3, 0), (0, ''l''))], k_lock = [], k_next = 1, k_max = 8\<rparr>"
  let ?k2 = "\<lparr>k_fds = [((3, 0), (0, ''l''))], k_lock = [(''l'', 0)], k_next = 1, k_max = 8\<rparr>"
  let ?s1 = "lock_demo\<lparr>ls_pcs := (ls_pcs lock_demo)(3 := LC_open True ''l'')\<rparr>"
  let ?s2 = "?s1\<lparr>ls_kern := ?k1, ls_pcs := (ls_pcs ?s1)(3 := LC_flock True 0 ''l'')\<rparr>"
  let ?s3 = "?s2\<lparr>ls_kern := ?k2, ls_pcs := (ls_pcs ?s2)(3 := LC_got 0 ''l'')\<rparr>"
  let ?s4 = "?s3\<lparr>ls_pcs := (ls_pcs ?s3)(3 := LC_idle), ls_held := insert (3, 0, ''l'') (ls_held ?s3)\<rparr>"
  let ?s5 = "?s4\<lparr>ls_pcs := (ls_pcs ?s4)(2 := LC_open False ''l'')\<rparr>"
  let ?s = "?s5\<lparr>ls_kern := lock_demo_kernel, ls_pcs := (ls_pcs ?s5)(2 := LC_flock False 0 ''l'')\<rparr>"
  have o: "sys_open True 3 ''l'' (ls_kern lock_demo) = (0, ?k1)" "sys_open True 2 ''l'' ?k2 = (0, lock_demo_kernel)"
    by (simp_all add: sys_open_def free_fd_def fd_desc_def upt_conv_Cons lock_demo_def lock_demo_kernel_def)
  have "lock_sys_step lock_demo ?s1" by (rule lock_sys_step.call_lock) (simp add: lock_demo_def)
  moreover have "lock_sys_step ?s1 ?s2"
    by (rule lock_sys_step.run[where can = True and intr = False]) (simp add: o del: One_nat_def)
  moreover have "lock_sys_step ?s2 ?s3"
    by (rule lock_sys_step.run[where can = True and intr = False]) (simp add: flock_ex_def fd_desc_def)
  moreover have "lock_sys_step ?s3 ?s4" by (rule lock_sys_step.got) simp
  moreover have "lock_sys_step ?s4 ?s5" by (rule lock_sys_step.call_lock) (simp add: lock_demo_def)
  moreover have "lock_sys_step ?s5 ?s"
    by (rule lock_sys_step.run[where can = True and intr = False]) (simp add: o del: One_nat_def)
  ultimately have "lock_sys_step\<^sup>*\<^sup>* lock_demo ?s" by (meson converse_rtranclp_into_rtranclp rtranclp.rtrancl_refl)
  moreover have "?s = ?s6" by (simp add: lock_demo_def fun_upd_twist)
  ultimately show ?thesis by simp
qed


theorem fio_lock_of_locked_file_witness:
  "fst (fio_trylock True 3 ''l'' lock_demo_kernel) = -1 \<and> fio_lock True False 3 ''l'' lock_demo_kernel = None"
proof -
  have "kernel_ok lock_demo_kernel" "lock_holders ''l'' lock_demo_kernel \<noteq> {}" "free_fd lock_demo_kernel 3 = Some 1"
    by (auto simp: kernel_ok_def lock_holders_def lock_demo_kernel_def free_fd_def fd_desc_def upt_conv_Cons)
  from fio_lock_of_locked_file[OF this] show ?thesis by auto
qed

end
