(* ===== verification/Hlist.thy ===== *)
theory Hlist
  imports List_Head
begin

text \<open>
  The second half of \<open>lgu/list/list.h\<close>: the list with a single pointer head, whose nodes keep
  the address of the pointer that points at them. Here cells must be addressable one by one, so
  the store maps the address of each pointer cell to its content: a head at \<open>h\<close> is the cell
  \<open>h\<close>, a node at \<open>n\<close> has its \<open>next\<close> in cell \<open>n\<close> and its \<open>pprev\<close> in cell \<open>n + 8\<close>.
\<close>

section \<open>Data and accesses\<close>

type_synonym cells = "ptr \<Rightarrow> ptr option"

definition pprev_of :: "ptr \<Rightarrow> ptr" where
  "pprev_of n = n + 8"

definition cell :: "ptr \<Rightarrow> cells \<Rightarrow> ptr res" where
  "cell c m = (case m c of None \<Rightarrow> Inl SegFault | Some v \<Rightarrow> Inr v)"

definition set_cell :: "ptr \<Rightarrow> ptr \<Rightarrow> cells \<Rightarrow> cells res" where
  "set_cell c v m = (if m c = None then Inl SegFault else Inr (m(c \<mapsto> v)))"

section \<open>The operations\<close>

definition INIT_HLIST_HEAD :: "ptr \<Rightarrow> cells \<Rightarrow> cells res" where
  "INIT_HLIST_HEAD p = set_cell p NULL"

definition INIT_HLIST_NODE :: "ptr \<Rightarrow> cells \<Rightarrow> cells res" where
  "INIT_HLIST_NODE p = seqR [set_cell p NULL, set_cell (pprev_of p) NULL]"

definition hlist_unhashed :: "ptr \<Rightarrow> cells \<Rightarrow> bool res" where
  "hlist_unhashed n m = bindR (cell (pprev_of n) m) (\<lambda>p. Inr (p = NULL))"

definition hlist_empty :: "ptr \<Rightarrow> cells \<Rightarrow> bool res" where
  "hlist_empty h m = bindR (cell h m) (\<lambda>first. Inr (first = NULL))"

text \<open>\<open>__hlist_del\<close>\<close>

definition raw_hlist_del :: "ptr \<Rightarrow> cells \<Rightarrow> cells res" where
  "raw_hlist_del n m =
     bindR (cell n m) (\<lambda>nxt. bindR (cell (pprev_of n) m) (\<lambda>pprev.
       seqR [set_cell pprev nxt,
             \<lambda>m. if nxt \<noteq> NULL then set_cell (pprev_of nxt) pprev m else Inr m] m))"

definition hlist_del :: "ptr \<Rightarrow> cells \<Rightarrow> cells res" where
  "hlist_del n = seqR [raw_hlist_del n, set_cell n LIST_POISON1, set_cell (pprev_of n) LIST_POISON2]"

definition hlist_del_init :: "ptr \<Rightarrow> cells \<Rightarrow> cells res" where
  "hlist_del_init n m =
     bindR (cell (pprev_of n) m) (\<lambda>p.
       if p \<noteq> NULL then seqR [raw_hlist_del n, INIT_HLIST_NODE n] m else Inr m)"

definition hlist_add_head :: "ptr \<Rightarrow> ptr \<Rightarrow> cells \<Rightarrow> cells res" where
  "hlist_add_head n h m =
     bindR (cell h m) (\<lambda>first.
       seqR [set_cell n first,
             \<lambda>m. if first \<noteq> NULL then set_cell (pprev_of first) n m else Inr m,
             set_cell h n, set_cell (pprev_of n) h] m)"

definition hlist_add_before :: "ptr \<Rightarrow> ptr \<Rightarrow> cells \<Rightarrow> cells res" where
  "hlist_add_before n nxt =
     seqR [\<lambda>m. bindR (cell (pprev_of nxt) m) (\<lambda>p. set_cell (pprev_of n) p m),
           set_cell n nxt,
           set_cell (pprev_of nxt) n,
           \<lambda>m. bindR (cell (pprev_of n) m) (\<lambda>p. set_cell p n m)]"

definition hlist_add_after :: "ptr \<Rightarrow> ptr \<Rightarrow> cells \<Rightarrow> cells res" where
  "hlist_add_after n nxt =
     seqR [\<lambda>m. bindR (cell n m) (\<lambda>v. set_cell nxt v m),
           set_cell n nxt,
           set_cell (pprev_of nxt) n,
           \<lambda>m. bindR (cell nxt m) (\<lambda>nn. if nn \<noteq> NULL then set_cell (pprev_of nn) nxt m else Inr m)]"

section \<open>The iteration macros\<close>

text \<open>
  As in \<open>List_Head\<close> the loops have fuel and run a body on a state from which \<open>hp\<close> reads the
  store. \<open>prefetch\<close> is a hint without effect. The entry variants hand the body the entry
  \<open>tpos\<close>, at the member's offset \<open>off\<close> before the node.
\<close>

fun hnode_loop :: "nat \<Rightarrow> ('s \<Rightarrow> cells) \<Rightarrow> 's body \<Rightarrow> ptr \<Rightarrow> 's \<Rightarrow> 's res" where
  "hnode_loop 0 hp body pos s = Inl Diverge"
| "hnode_loop (Suc k) hp body pos s =
     (if pos = NULL then Inr s
      else bindR (body pos s) (\<lambda>r. case r of Stop s' \<Rightarrow> Inr s' | Go s' \<Rightarrow>
        bindR (cell pos (hp s')) (\<lambda>p. hnode_loop k hp body p s')))"

fun hsafe_loop :: "nat \<Rightarrow> ('s \<Rightarrow> cells) \<Rightarrow> 's body \<Rightarrow> ptr \<Rightarrow> 's \<Rightarrow> 's res" where
  "hsafe_loop 0 hp body pos s = Inl Diverge"
| "hsafe_loop (Suc k) hp body pos s =
     (if pos = NULL then Inr s
      else bindR (cell pos (hp s)) (\<lambda>n.
        bindR (body pos s) (\<lambda>r. case r of Stop s' \<Rightarrow> Inr s' | Go s' \<Rightarrow>
          hsafe_loop k hp body n s')))"

definition hlist_for_each :: "nat \<Rightarrow> ('s \<Rightarrow> cells) \<Rightarrow> ptr \<Rightarrow> 's body \<Rightarrow> 's \<Rightarrow> 's res" where
  "hlist_for_each fuel hp head body s =
     bindR (cell head (hp s)) (\<lambda>first. hnode_loop fuel hp body first s)"

definition hlist_for_each_safe :: "nat \<Rightarrow> ('s \<Rightarrow> cells) \<Rightarrow> ptr \<Rightarrow> 's body \<Rightarrow> 's \<Rightarrow> 's res" where
  "hlist_for_each_safe fuel hp head body s =
     bindR (cell head (hp s)) (\<lambda>first. hsafe_loop fuel hp body first s)"

definition hlist_for_each_entry :: "nat \<Rightarrow> ('s \<Rightarrow> cells) \<Rightarrow> ptr \<Rightarrow> ptr \<Rightarrow> 's body \<Rightarrow> 's \<Rightarrow> 's res" where
  "hlist_for_each_entry fuel hp off head body s =
     bindR (cell head (hp s)) (\<lambda>first. hnode_loop fuel hp (\<lambda>pos. body (container_of pos off)) first s)"

definition hlist_for_each_entry_continue ::
  "nat \<Rightarrow> ('s \<Rightarrow> cells) \<Rightarrow> ptr \<Rightarrow> ptr \<Rightarrow> 's body \<Rightarrow> 's \<Rightarrow> 's res" where
  "hlist_for_each_entry_continue fuel hp off pos body s =
     bindR (cell pos (hp s)) (\<lambda>n. hnode_loop fuel hp (\<lambda>pos. body (container_of pos off)) n s)"

definition hlist_for_each_entry_from ::
  "nat \<Rightarrow> ('s \<Rightarrow> cells) \<Rightarrow> ptr \<Rightarrow> ptr \<Rightarrow> 's body \<Rightarrow> 's \<Rightarrow> 's res" where
  "hlist_for_each_entry_from fuel hp off pos body s =
     hnode_loop fuel hp (\<lambda>pos. body (container_of pos off)) pos s"

definition hlist_for_each_entry_safe ::
  "nat \<Rightarrow> ('s \<Rightarrow> cells) \<Rightarrow> ptr \<Rightarrow> ptr \<Rightarrow> 's body \<Rightarrow> 's \<Rightarrow> 's res" where
  "hlist_for_each_entry_safe fuel hp off head body s =
     bindR (cell head (hp s)) (\<lambda>first. hsafe_loop fuel hp (\<lambda>pos. body (container_of pos off)) first s)"

section \<open>What a store holds\<close>

text \<open>
  \<open>hpath m q ns\<close>: from cell \<open>q\<close> the nodes \<open>ns\<close> follow each other, each with the cell that
  points at it in its \<open>pprev\<close>. The cell of the last one is NULL in a whole list.
\<close>

fun hpath :: "cells \<Rightarrow> ptr \<Rightarrow> ptr list \<Rightarrow> bool" where
  "hpath m q [] \<longleftrightarrow> True"
| "hpath m q (n # ns) \<longleftrightarrow> n \<noteq> NULL \<and> m q = Some n \<and> m (pprev_of n) = Some q \<and> hpath m n ns"

text \<open>Room for the nodes \<open>U\<close> and the head, in cells of their own\<close>

definition arena :: "ptr set \<Rightarrow> ptr \<Rightarrow> cells \<Rightarrow> bool" where
  "arena U h m \<longleftrightarrow> NULL \<notin> U \<and> h \<notin> U \<and> h \<notin> pprev_of ` U \<and> U \<inter> pprev_of ` U = {}
     \<and> h \<in> dom m \<and> U \<subseteq> dom m \<and> pprev_of ` U \<subseteq> dom m"

definition hlist :: "ptr set \<Rightarrow> cells \<Rightarrow> ptr \<Rightarrow> ptr list \<Rightarrow> bool" where
  "hlist U m h ns \<longleftrightarrow> arena U h m \<and> distinct ns \<and> set ns \<subseteq> U
     \<and> hpath m h ns \<and> m (last (h # ns)) = Some NULL"

lemma hpath_append: "hpath m q (xs @ ys) \<longleftrightarrow> hpath m q xs \<and> hpath m (last (q # xs)) ys"
  by (induction xs arbitrary: q) auto

lemma hpath_frame:
  assumes "\<forall>c \<in> set (butlast (q # ns)) \<union> pprev_of ` set ns. m' c = m c" and "hpath m q ns"
  shows "hpath m' q ns"
  using assms by (induction ns arbitrary: q) auto

lemma pprev_of_inj [simp]: "pprev_of a = pprev_of b \<longleftrightarrow> a = b"
  by (simp add: pprev_of_def)

lemma pprev_of_ne [simp]: "pprev_of n \<noteq> n" "n \<noteq> pprev_of n"
  by (simp_all add: pprev_of_def)

lemma arenaD:
  assumes "arena U h m" and "n \<in> U"
  shows "n \<noteq> NULL" and "n \<noteq> h" and "pprev_of n \<noteq> h" and "m n \<noteq> None" and "m (pprev_of n) \<noteq> None"
    and "k \<in> U \<Longrightarrow> pprev_of k \<noteq> n"
  using assms by (auto simp: arena_def)

lemma arena_dom: "arena U h m \<Longrightarrow> dom m' = dom m \<Longrightarrow> arena U h m'"
  by (simp add: arena_def)

lemma arena_ne: "arena U h m \<Longrightarrow> c \<in> insert h U \<Longrightarrow> k \<in> U \<Longrightarrow> c \<noteq> pprev_of k"
  by (auto simp: arena_def)

text \<open>The cell that points at what follows \<open>xs\<close>\<close>

lemma last_cell:
  assumes "h \<notin> U" and "distinct (xs @ ys)" and "set (xs @ ys) \<subseteq> U"
  shows "last (h # xs) \<in> insert h U" and "last (h # xs) \<notin> set (butlast (h # xs))"
    and "last (h # xs) \<notin> set ys"
proof -
  have d: "distinct (h # xs @ ys)" and s: "set (h # xs) \<subseteq> insert h U"
    using assms by auto
  have l: "last (h # xs) \<in> set (h # xs)" by (rule last_in_set) simp
  then show "last (h # xs) \<in> insert h U" using s by blast
  have "distinct (butlast (h # xs) @ [last (h # xs)])" 
    using d by (subst append_butlast_last_id) auto
  then show "last (h # xs) \<notin> set (butlast (h # xs))" by simp
  show "last (h # xs) \<notin> set ys" using d l by auto
qed

text \<open>
  What a change leaves alone when it touches, of the plain cells, only the one at the seam and
  the node's own, and, of the \<open>pprev\<close> cells, only the node's own and the next one's.
\<close>

definition same_but :: "ptr set \<Rightarrow> ptr \<Rightarrow> ptr \<Rightarrow> ptr \<Rightarrow> ptr list \<Rightarrow> cells \<Rightarrow> cells \<Rightarrow> bool" where
  "same_but U h q n ys m m' \<longleftrightarrow> dom m' = dom m
     \<and> (\<forall>c \<in> insert h U. c \<noteq> q \<longrightarrow> c \<noteq> n \<longrightarrow> m' c = m c)
     \<and> (\<forall>k \<in> U. k \<noteq> n \<longrightarrow> k \<notin> set (take 1 ys) \<longrightarrow> m' (pprev_of k) = m (pprev_of k))"

lemma same_but_paths:
  assumes d: "h \<notin> U" "distinct (xs @ ys)" "set (xs @ ys) \<subseteq> U"
    and p: "hpath m h xs" "hpath m n ys \<or> hpath m (last (h # xs)) ys" "ys \<noteq> [] \<Longrightarrow> m (last ys) = Some NULL"
    and sb: "same_but U h (last (h # xs)) n ys m m'"
    and n: "n \<notin> set xs" "n \<notin> set ys" "n \<noteq> h"
  shows "hpath m' h xs" and "ys = y # zs \<Longrightarrow> hpath m' y zs"
    and "ys \<noteq> [] \<Longrightarrow> m' (last ys) = Some NULL"
proof -
  note lc = last_cell[OF d]
  have P: "c \<in> insert h U \<Longrightarrow> c \<noteq> last (h # xs) \<Longrightarrow> c \<noteq> n \<Longrightarrow> m' c = m c" for c
    using sb by (auto simp: same_but_def)
  have Q: "k \<in> U \<Longrightarrow> k \<noteq> n \<Longrightarrow> k \<notin> set (take 1 ys) \<Longrightarrow> m' (pprev_of k) = m (pprev_of k)" for k
    using sb by (auto simp: same_but_def)
  show "hpath m' h xs"
  proof (rule hpath_frame[OF _ p(1)], safe)
    fix c assume c: "c \<in> set (butlast (h # xs))"
    then have "c \<in> set (h # xs)" by (rule in_set_butlastD)
    moreover have "c \<noteq> last (h # xs)" using c lc(2) by metis
    ultimately show "m' c = m c" using d n by (intro P) auto
  next
    fix k assume "k \<in> set xs"
    moreover have "set (take 1 ys) \<subseteq> set ys" by (rule set_take_subset)
    ultimately show "m' (pprev_of k) = m (pprev_of k)" using d n by (intro Q) auto
  qed
  show "hpath m' y zs" if ys: "ys = y # zs"
  proof (rule hpath_frame, safe)
    show "hpath m y zs" using p(2) ys by auto
    fix c assume "c \<in> set (butlast (y # zs))"
    then have "c \<in> set ys" using ys by (metis in_set_butlastD)
    moreover from this have "c \<noteq> last (h # xs)" using lc(3) by metis
    ultimately show "m' c = m c" using d n by (intro P) auto
  next
    fix k assume "k \<in> set zs"
    then show "m' (pprev_of k) = m (pprev_of k)" using d n ys by (intro Q) auto
  qed
  show "m' (last ys) = Some NULL" if ys: "ys \<noteq> []"
  proof -
    have "last ys \<in> set ys" using ys by simp
    moreover from this have "last ys \<noteq> last (h # xs)" using lc(3) by metis
    ultimately have "m' (last ys) = m (last ys)" using d n by (intro P) auto
    then show ?thesis using p(3) ys by simp
  qed
qed

lemma hlist_link:
  assumes l: "hlist U m h (xs @ ys)" and n: "n \<in> U" "n \<notin> set xs" "n \<notin> set ys"
    and sb: "same_but U h (last (h # xs)) n ys m m'"
    and new: "m' (last (h # xs)) = Some n" "m' (pprev_of n) = Some (last (h # xs))"
      "m' n = Some (case ys of [] \<Rightarrow> NULL | y # _ \<Rightarrow> y)"
      "\<And>y zs. ys = y # zs \<Longrightarrow> m' (pprev_of y) = Some n"
  shows "hlist U m' h (xs @ n # ys)"
proof -
  have a: "arena U h m" and d: "distinct (xs @ ys)" "set (xs @ ys) \<subseteq> U"
    and p: "hpath m h xs" "hpath m (last (h # xs)) ys" "ys \<noteq> [] \<Longrightarrow> m (last ys) = Some NULL"
    using l by (auto simp: hlist_def hpath_append)
  have nh: "n \<noteq> h" "n \<noteq> NULL" "h \<notin> U" using a n(1) by (auto simp: arena_def)
  note sp = same_but_paths[OF nh(3) d p(1) disjI2[OF p(2)] p(3) sb n(2,3) nh(1)]
  have "hpath m' n ys \<and> m' (last (n # ys)) = Some NULL"
    using sp(2,3) new(3,4) p by (cases ys) auto
  moreover have "arena U h m'" using a sb by (simp add: arena_dom same_but_def)
  ultimately show ?thesis
    using sp(1) new nh d n unfolding hlist_def hpath_append by auto
qed

lemma hlist_unlink:
  assumes l: "hlist U m h (xs @ n # ys)" and sb: "same_but U h (last (h # xs)) n ys m m'"
    and new: "m' (last (h # xs)) = Some (case ys of [] \<Rightarrow> NULL | y # _ \<Rightarrow> y)"
      "\<And>y zs. ys = y # zs \<Longrightarrow> m' (pprev_of y) = Some (last (h # xs))"
  shows "hlist U m' h (xs @ ys)"
proof -
  have a: "arena U h m" and d: "distinct (xs @ ys)" "set (xs @ ys) \<subseteq> U"
    and n: "n \<notin> set xs" "n \<notin> set ys" "n \<in> U"
    and p: "hpath m h xs" "hpath m n ys" "ys \<noteq> [] \<Longrightarrow> m (last ys) = Some NULL"
    using l by (auto simp: hlist_def hpath_append)
  have nh: "n \<noteq> h" "h \<notin> U" using a n(3) by (auto simp: arena_def)
  note sp = same_but_paths[OF nh(2) d p(1) disjI1[OF p(2)] p(3) sb n(1,2) nh(1)]
  have "hpath m' (last (h # xs)) ys \<and> m' (last (last (h # xs) # ys)) = Some NULL"
    using sp(2,3) new p by (cases ys) auto
  moreover have "arena U h m'" using a sb by (simp add: arena_dom same_but_def)
  moreover have "last (h # xs @ ys) = last (last (h # xs) # ys)" by simp
  ultimately show ?thesis
    using sp(1) d unfolding hlist_def hpath_append by metis
qed


section \<open>What the operations do to the list\<close>

lemma cell_Some: "m c = Some v \<Longrightarrow> cell c m = Inr v"
  by (simp add: cell_def)

lemma set_cell_ok: "m c \<noteq> None \<Longrightarrow> set_cell c v m = Inr (m(c \<mapsto> v))"
  by (simp add: set_cell_def)

lemmas cell_simps = cell_Some set_cell_ok seqR.simps bindR_Inr

text \<open>The cells around a place in the list\<close>

lemma seam:
  assumes "hlist U m h (xs @ ys)"
  shows "m (last (h # xs)) = Some (case ys of [] \<Rightarrow> NULL | y # _ \<Rightarrow> y)"
    and "ys = y # zs \<Longrightarrow> y \<in> U" and "ys = y # zs \<Longrightarrow> y \<noteq> NULL"
    and "ys = y # zs \<Longrightarrow> m (pprev_of y) = Some (last (h # xs))"
    and "last (h # xs) \<in> insert h U" and "last (h # xs) \<notin> set ys"
  using assms last_cell[of h U xs ys]
  by (cases ys; auto simp: hlist_def hpath_append arena_def)+

lemma hlist_del_gen:
  assumes l: "hlist U m h (xs @ n # ys)"
  shows "\<exists>m1. raw_hlist_del n m = Inr m1 \<and> dom m1 = dom m
    \<and> (\<forall>a b. hlist U (m1(n \<mapsto> a, pprev_of n \<mapsto> b)) h (xs @ ys))"
proof -
  let ?q = "last (h # xs)"
  let ?y = "case ys of [] \<Rightarrow> NULL | y # _ \<Rightarrow> y"
  have a: "arena U h m" and d: "distinct (xs @ n # ys)" "set (xs @ n # ys) \<subseteq> U"
    using l by (auto simp: hlist_def)
  note ne = arena_ne[OF a]
  note q = seam[OF l, simplified list.case]
  have l': "hlist U m h ((xs @ [n]) @ ys)" using l by simp
  note r = seam[OF l']
  let ?m = "case ys of [] \<Rightarrow> m(?q \<mapsto> NULL) | y # _ \<Rightarrow> m(?q \<mapsto> y, pprev_of y \<mapsto> ?q)"
  have qn: "?q \<noteq> n" "?q \<noteq> pprev_of k" if "k \<in> U" for k using q(6) ne[OF q(5) that] by auto
  have *: "?q \<noteq> n" using q(6) by auto
  have ev: "raw_hlist_del n m = Inr ?m"
  proof (cases ys)
    case Nil
    then show ?thesis using q r * by (simp add: raw_hlist_del_def cell_simps)
  next
    case (Cons y zs)
    then show ?thesis using q r * by (simp add: raw_hlist_del_def cell_simps)
  qed
  moreover have "dom ?m = dom m" using q r by (cases ys) auto
  moreover have "hlist U (?m(n \<mapsto> a, pprev_of n \<mapsto> b)) h (xs @ ys)" for a b
  proof (rule hlist_unlink[OF l])
    show "same_but U h ?q n ys m (?m(n \<mapsto> a, pprev_of n \<mapsto> b))"
      using q r d ne qn a unfolding same_but_def by (cases ys) (auto dest: arenaD)
  qed (use q r d ne qn * in \<open>cases ys; auto\<close>)+
  ultimately show ?thesis by blast
qed


lemma hlist_alloc:
  assumes "hlist U m h ns" and "n \<in> U"
  shows "m n \<noteq> None" and "m (pprev_of n) \<noteq> None" and "n \<noteq> NULL" and "n \<noteq> h"
  using assms by (auto simp: hlist_def arena_def)

lemma hlist_del_law:
  assumes "hlist U m h (xs @ n # ys)"
  shows "\<exists>m'. hlist_del n m = Inr m' \<and> hlist U m' h (xs @ ys)"
proof -
  obtain m1 where m1: "raw_hlist_del n m = Inr m1" "dom m1 = dom m"
      "\<And>a b. hlist U (m1(n \<mapsto> a, pprev_of n \<mapsto> b)) h (xs @ ys)"
    using hlist_del_gen[OF assms] by metis
  have "m1 n \<noteq> None" "m1 (pprev_of n) \<noteq> None"
    using m1(2) hlist_alloc[OF assms, of n] assms by (auto simp: hlist_def dom_def set_eq_iff)
  then show ?thesis using m1(1,3) by (auto simp: hlist_del_def cell_simps)
qed

lemma hlist_del_init_law:
  assumes "hlist U m h (xs @ n # ys)" and "h \<noteq> NULL"
  shows "\<exists>m'. hlist_del_init n m = Inr m' \<and> hlist U m' h (xs @ ys) \<and> hlist_unhashed n m' = Inr True"
proof -
  obtain m1 where m1: "raw_hlist_del n m = Inr m1" "dom m1 = dom m"
      "\<And>a b. hlist U (m1(n \<mapsto> a, pprev_of n \<mapsto> b)) h (xs @ ys)"
    using hlist_del_gen[OF assms(1)] by metis
  have "m1 n \<noteq> None" "m1 (pprev_of n) \<noteq> None"
    using m1(2) hlist_alloc[OF assms(1), of n] assms(1) by (auto simp: hlist_def dom_def set_eq_iff)
  moreover have "last (h # xs) \<in> insert h U" "NULL \<notin> U"
    using seam(5)[OF assms(1)] assms(1) by (simp_all add: hlist_def arena_def)
  then have "last (h # xs) \<noteq> NULL" using assms(2) by (metis insert_iff)
  moreover have "m (pprev_of n) = Some (last (h # xs))" using seam(4)[OF assms(1) refl] .
  ultimately show ?thesis using m1(1,3)
    by (simp add: hlist_del_init_def INIT_HLIST_NODE_def hlist_unhashed_def cell_simps)
qed

lemma hlist_add_head_law:
  assumes l: "hlist U m h ys" and n: "n \<in> U" "n \<notin> set ys"
  shows "\<exists>m'. hlist_add_head n h m = Inr m' \<and> hlist U m' h (n # ys)"
proof -
  have a: "arena U h m" and d: "distinct ys" "set ys \<subseteq> U" using l by (auto simp: hlist_def)
  note ne = arena_ne[OF a]
  have l': "hlist U m h ([] @ ys)" using l by simp
  note q = seam[OF l', simplified]
  note al = hlist_alloc[OF l n(1)]
  have nh: "h \<noteq> n" "h \<noteq> pprev_of k" if "k \<in> U" for k using al ne[OF _ that] by auto
  let ?m = "(case ys of [] \<Rightarrow> m(n \<mapsto> NULL) | y # _ \<Rightarrow> m(n \<mapsto> y, pprev_of y \<mapsto> n))(h \<mapsto> n, pprev_of n \<mapsto> h)"
  have "hlist_add_head n h m = Inr ?m"
    using q al n nh by (cases ys) (auto simp: hlist_add_head_def cell_simps)
  moreover have "hlist U ?m h ([] @ n # ys)"
  proof (rule hlist_link[OF l'])
    show "same_but U h (last [h]) n ys m ?m"
      using q d n ne nh al unfolding same_but_def by (cases ys) auto
  qed (use l q d n ne nh al in \<open>cases ys; auto\<close>)+
  ultimately show ?thesis by simp
qed

lemma hlist_add_before_law:
  assumes l: "hlist U m h (xs @ y # zs)" and n: "n \<in> U" "n \<notin> set (xs @ y # zs)"
  shows "\<exists>m'. hlist_add_before n y m = Inr m' \<and> hlist U m' h (xs @ n # y # zs)"
proof -
  let ?q = "last (h # xs)"
  have a: "arena U h m" and d: "distinct (xs @ y # zs)" "set (xs @ y # zs) \<subseteq> U" using l by (auto simp: hlist_def)
  note ne = arena_ne[OF a]
  note q = seam[OF l]
  note al = hlist_alloc[OF l]
  have "?q \<in> set (h # xs)" by (rule last_in_set) simp
  then have qn: "?q \<noteq> n" using n al(4)[OF n(1)] by auto
  have qp: "?q \<noteq> pprev_of k" if "k \<in> U" for k using ne[OF q(5) that] by auto
  let ?m = "m(pprev_of n \<mapsto> ?q, n \<mapsto> y, pprev_of y \<mapsto> n, ?q \<mapsto> n)"
  have "hlist_add_before n y m = Inr ?m"
    using q al n qn d ne qp by (auto simp: hlist_add_before_def cell_simps)
  moreover have "hlist U ?m h (xs @ n # y # zs)"
  proof (rule hlist_link[OF l])
    show "same_but U h ?q n (y # zs) m ?m"
      using qn qp[symmetric] d ne q(1,2) al n unfolding same_but_def
      by (auto simp del: last.simps simp: q(2))
  qed (use q d n ne qn qp qp[symmetric] al in \<open>auto simp del: last.simps\<close>)
  ultimately show ?thesis by blast
qed

lemma hlist_add_after_law:
  assumes l: "hlist U m h (xs @ p # ys)" and n: "n \<in> U" "n \<notin> set (xs @ p # ys)"
  shows "\<exists>m'. hlist_add_after p n m = Inr m' \<and> hlist U m' h (xs @ p # n # ys)"
proof -
  have a: "arena U h m" and d: "distinct (xs @ p # ys)" "set (xs @ p # ys) \<subseteq> U" using l by (auto simp: hlist_def)
  have l': "hlist U m h ((xs @ [p]) @ ys)" using l by simp
  note ne = arena_ne[OF a]
  note q = seam[OF l', unfolded last.simps last_snoc, simplified]
  note al = hlist_alloc[OF l]
  have pk: "p \<noteq> pprev_of k" "n \<noteq> pprev_of k" if "k \<in> U" for k using ne[OF _ that] d n by auto
  let ?m = "(case ys of [] \<Rightarrow> m(n \<mapsto> NULL, p \<mapsto> n, pprev_of n \<mapsto> p)
     | y # _ \<Rightarrow> m(n \<mapsto> y, p \<mapsto> n, pprev_of n \<mapsto> p, pprev_of y \<mapsto> n))"
  have pn: "p \<noteq> n" using n by auto
  have "hlist_add_after p n m = Inr ?m"
    using q al n pn d pk by (cases ys) (auto simp: hlist_add_after_def cell_simps)
  moreover have "hlist U ?m h ((xs @ [p]) @ n # ys)"
  proof (rule hlist_link[OF l'])
    show "same_but U h (last (h # xs @ [p])) n ys m ?m"
      using q d n ne pn pk al unfolding same_but_def by (cases ys) auto
  qed (use q d n ne pn pk al in \<open>cases ys; auto\<close>)+
  ultimately show ?thesis by auto
qed


lemma INIT_HLIST_HEAD_law:
  assumes "arena U h m"
  shows "\<exists>m'. INIT_HLIST_HEAD h m = Inr m' \<and> hlist U m' h []"
proof -
  have h: "m h \<noteq> None" using assms by (auto simp: arena_def)
  then have "dom (m(h \<mapsto> NULL)) = dom m" by auto
  then show ?thesis using h arena_dom[OF assms] by (auto simp: INIT_HLIST_HEAD_def hlist_def cell_simps)
qed

lemma hlist_empty_law: "hlist U m h ns \<Longrightarrow> hlist_empty h m = Inr (ns = [])"
  by (cases ns) (auto simp: hlist_def hlist_empty_def cell_simps arena_def)

text \<open>A loop whose body leaves the store alone visits the nodes in order.\<close>

lemma hnode_loop_visits:
  assumes "hpath m q ns" and "m (last (q # ns)) = Some NULL"
    and "\<And>x t. hp t = m \<Longrightarrow> body x t = Inr (Go (f x t)) \<and> hp (f x t) = m" and "hp s = m"
    and "length ns < fuel"
  shows "hnode_loop fuel hp body (case ns of [] \<Rightarrow> NULL | n # _ \<Rightarrow> n) s = Inr (fold f ns s)"
  using assms(1,2,4,5)
proof (induction ns arbitrary: q s fuel)
  case Nil
  then show ?case by (cases fuel) auto
next
  case (Cons n ns)
  obtain k where k: "fuel = Suc k" using Cons.prems(4) by (cases fuel) auto
  have b: "body n s = Inr (Go (f n s))" "hp (f n s) = m" using assms(3)[OF Cons.prems(3)] by auto
  have "m n = Some (case ns of [] \<Rightarrow> NULL | n # _ \<Rightarrow> n)"
    using Cons.prems by (cases ns) auto
  then show ?case
    using Cons.IH[of n "f n s" k] Cons.prems b k by (simp add: cell_Some)
qed

lemma hlist_for_each_visits:
  assumes l: "hlist U m h ns" and "\<And>x t. hp t = m \<Longrightarrow> body x t = Inr (Go (f x t)) \<and> hp (f x t) = m"
    and "hp s = m" and "length ns < fuel"
  shows "hlist_for_each fuel hp h body s = Inr (fold f ns s)"
proof -
  have "hlist U m h ([] @ ns)" using l by simp
  from seam(1)[OF this] have "cell h m = Inr (case ns of [] \<Rightarrow> NULL | n # _ \<Rightarrow> n)" by (simp add: cell_Some)
  moreover have "hpath m h ns" "m (last (h # ns)) = Some NULL" using l by (auto simp: hlist_def)
  ultimately show ?thesis
    using hnode_loop_visits[of m h ns hp body f s fuel] assms by (simp add: hlist_for_each_def)
qed

section \<open>The hash list implements a sequence\<close>

datatype hop =
  Add_head ptr | Add_before ptr ptr | Add_after ptr ptr | Del ptr | Del_init ptr

fun hop_run :: "ptr \<Rightarrow> hop \<Rightarrow> cells \<Rightarrow> cells res" where
  "hop_run h (Add_head n) = hlist_add_head n h"
| "hop_run h (Add_before n y) = hlist_add_before n y"
| "hop_run h (Add_after p n) = hlist_add_after p n"
| "hop_run h (Del n) = hlist_del n"
| "hop_run h (Del_init n) = hlist_del_init n"

text \<open>What the operations mean for a sequence; \<open>None\<close> is a use outside the contract.\<close>

fun hop_spec :: "ptr set \<Rightarrow> hop \<Rightarrow> ptr list \<Rightarrow> ptr list option" where
  "hop_spec U (Add_head n) ns = (if n \<in> U \<and> n \<notin> set ns then Some (n # ns) else None)"
| "hop_spec U (Add_before n y) ns =
     (if n \<in> U \<and> n \<notin> set ns \<and> y \<in> set ns
      then Some (takeWhile (\<lambda>x. x \<noteq> y) ns @ n # dropWhile (\<lambda>x. x \<noteq> y) ns) else None)"
| "hop_spec U (Add_after p n) ns =
     (if n \<in> U \<and> n \<notin> set ns \<and> p \<in> set ns
      then Some (takeWhile (\<lambda>x. x \<noteq> p) ns @ p # n # tl (dropWhile (\<lambda>x. x \<noteq> p) ns)) else None)"
| "hop_spec U (Del n) ns = (if n \<in> set ns then Some (remove1 n ns) else None)"
| "hop_spec U (Del_init n) ns = (if n \<in> set ns then Some (remove1 n ns) else None)"

fun hop_specs :: "ptr set \<Rightarrow> hop list \<Rightarrow> ptr list \<Rightarrow> ptr list option" where
  "hop_specs U [] ns = Some ns"
| "hop_specs U (c # cs) ns = Option.bind (hop_spec U c ns) (hop_specs U cs)"

lemma split_at:
  assumes "y \<in> set ns"
  obtains xs zs where "ns = xs @ y # zs" and "takeWhile (\<lambda>x. x \<noteq> y) ns = xs"
    and "dropWhile (\<lambda>x. x \<noteq> y) ns = y # zs" and "remove1 y ns = xs @ zs"
proof -
  obtain xs zs where ns: "ns = xs @ y # zs" "y \<notin> set xs" using split_list_first[OF assms] by blast
  have "\<forall>x \<in> set xs. x \<noteq> y" using ns(2) by auto
  then show ?thesis using ns that by (simp add: takeWhile_append2 dropWhile_append2 remove1_append)
qed

lemma hop_run_refines:
  assumes l: "hlist U m h ns" and h: "h \<noteq> NULL" and sp: "hop_spec U c ns = Some ns'"
  shows "\<exists>m'. hop_run h c m = Inr m' \<and> hlist U m' h ns'"
proof (cases c)
  case (Add_head n)
  then show ?thesis using hlist_add_head_law[OF l] sp by (auto split: if_splits)
next
  case (Add_before n y)
  with sp have n: "n \<in> U" "n \<notin> set ns" "y \<in> set ns" by (auto split: if_splits)
  from n(3) show ?thesis
    by (rule split_at) (use hlist_add_before_law[of U m h _ y _ n] l n sp Add_before in auto)
next
  case (Add_after p n)
  with sp have n: "n \<in> U" "n \<notin> set ns" "p \<in> set ns" by (auto split: if_splits)
  from n(3) show ?thesis
    by (rule split_at) (use hlist_add_after_law[of U m h _ p _ n] l n sp Add_after in auto)
next
  case (Del n)
  with sp have n: "n \<in> set ns" by (auto split: if_splits)
  from n obtain xs zs where "ns = xs @ n # zs" "remove1 n ns = xs @ zs" by (rule split_at)
  then show ?thesis using hlist_del_law[of U m h xs n zs] l sp Del n by auto
next
  case (Del_init n)
  with sp have n: "n \<in> set ns" by (auto split: if_splits)
  from n obtain xs zs where "ns = xs @ n # zs" "remove1 n ns = xs @ zs" by (rule split_at)
  then show ?thesis using hlist_del_init_law[of U m h xs n zs] h l sp Del_init n by auto
qed

lemma hop_runs_refine:
  assumes "hlist U m h ns" and "h \<noteq> NULL" and "hop_specs U cs ns = Some ns'"
  shows "\<exists>m'. seqR (map (hop_run h) cs) m = Inr m' \<and> hlist U m' h ns'"
  using assms
proof (induction cs arbitrary: m ns)
  case Nil then show ?case by simp
next
  case (Cons c cs)
  then obtain ns1 where "hop_spec U c ns = Some ns1" "hop_specs U cs ns1 = Some ns'"
    by (auto simp: bind_eq_Some_conv)
  then show ?case using hop_run_refines[OF Cons.prems(1,2)] Cons.IH Cons.prems(2) by fastforce
qed

text \<open>C23: the hash list of \<open>list.h\<close> implements a sequence of nodes. From a head initialised with
  \<open>INIT_HLIST_HEAD\<close>, any run of \<open>hlist_add_head\<close>, \<open>hlist_add_before\<close>, \<open>hlist_add_after\<close>,
  \<open>hlist_del\<close> and \<open>hlist_del_init\<close> within their contract ends without a fault in a store that
  holds the sequence the operations mean, with every \<open>pprev\<close> right; \<open>hlist_for_each\<close> then visits
  exactly that sequence, ends within its length, and \<open>hlist_empty\<close> says whether it is empty.\<close>

theorem hlist_implements_sequence:
  assumes "arena U h m" and "h \<noteq> NULL" and "hop_specs U cs [] = Some ns"
  shows "\<exists>m'. seqR (INIT_HLIST_HEAD h # map (hop_run h) cs) m = Inr m' \<and> hlist U m' h ns
    \<and> hlist_empty h m' = Inr (ns = [])
    \<and> hlist_for_each (Suc (length ns)) fst h (\<lambda>x (m, vs). Inr (Go (m, vs @ [x]))) (m', []) = Inr (m', ns)"
proof -
  obtain m0 where m0: "INIT_HLIST_HEAD h m = Inr m0" "hlist U m0 h []"
    using INIT_HLIST_HEAD_law[OF assms(1)] by blast
  obtain m' where m': "seqR (map (hop_run h) cs) m0 = Inr m'" "hlist U m' h ns"
    using hop_runs_refine[OF m0(2) assms(2,3)] by blast
  have "hlist_for_each (Suc (length ns)) fst h (\<lambda>x (m, vs). Inr (Go (m, vs @ [x]))) (m', [])
      = Inr (fold (\<lambda>x (m, vs). (m, vs @ [x])) ns (m', []))"
    by (rule hlist_for_each_visits[OF m'(2)]) auto
  moreover have "fold (\<lambda>x (m, vs). (m, vs @ [x])) ns (m', us) = (m', us @ ns)" for us
    by (induction ns arbitrary: us) auto
  ultimately show ?thesis using m0 m' hlist_empty_law[OF m'(2)] by simp
qed

theorem hlist_implements_sequence_witness:
  "\<exists>m'. seqR (INIT_HLIST_HEAD 0x10 # map (hop_run 0x10) [Add_head 0x20, Add_after 0x20 0x30,
        Add_before 0x40 0x30, Del 0x20]) (\<lambda>c. if c \<in> {0x10, 0x20, 0x28, 0x30, 0x38, 0x40, 0x48} then Some 7 else None)
      = Inr m' \<and> hlist {0x20, 0x30, 0x40} m' 0x10 [0x40, 0x30]"
  using hlist_implements_sequence[where U = "{0x20, 0x30, 0x40}" and h = "0x10"
      and m = "\<lambda>c. if c \<in> {0x10, 0x20, 0x28, 0x30, 0x38, 0x40, 0x48} then Some 7 else None"
      and cs = "[Add_head 0x20, Add_after 0x20 0x30, Add_before 0x40 0x30, Del 0x20]" and ns = "[0x40, 0x30]"]
  by (auto simp: arena_def pprev_of_def dom_def)

end
