(* ===== verification/Tm.thy ===== *)
theory Tm
  imports C_String
begin

text \<open>
  \<open>lgu/tm/tm.c\<close>: time strings and the uptime. \<open>localtime\<close> depends on the time zone and
  \<open>sysinfo\<close> on the system, so their answers are arguments; \<open>strftime\<close> is the conversions that the
  format of \<open>tm_time2str\<close> uses, in the C locale.
\<close>

section \<open>\<open>strftime\<close>\<close>

record tm =
  tm_sec :: nat
  tm_min :: nat
  tm_hour :: nat
  tm_mday :: nat
  tm_mon :: nat
  tm_year :: nat
  tm_wday :: nat
  tm_gmtoff :: int

definition wday_name :: "nat \<Rightarrow> string" where
  "wday_name n = [''Sun'', ''Mon'', ''Tue'', ''Wed'', ''Thu'', ''Fri'', ''Sat''] ! n"

definition mon_name :: "nat \<Rightarrow> string" where
  "mon_name n = [''Jan'', ''Feb'', ''Mar'', ''Apr'', ''May'', ''Jun'', ''Jul'', ''Aug'', ''Sep'', ''Oct'', ''Nov'', ''Dec''] ! n"

definition dec2 :: "nat \<Rightarrow> string" where
  "dec2 n = [hex_digit (n div 10), hex_digit (n mod 10)]"

definition zone :: "int \<Rightarrow> string" where
  "zone off = (if off < 0 then ''-'' else ''+'') @ dec2 (nat (\<bar>off\<bar> div 3600)) @ dec2 (nat (\<bar>off\<bar> div 60 mod 60))"

text \<open>\<open>%a %d %b %Y %T %z\<close>; the year counts from 1900.\<close>

fun conversion :: "char \<Rightarrow> tm \<Rightarrow> string" where
  "conversion c t =
     (if c = CHR ''a'' then wday_name (tm_wday t)
      else if c = CHR ''d'' then dec2 (tm_mday t)
      else if c = CHR ''b'' then mon_name (tm_mon t)
      else if c = CHR ''Y'' then dec (1900 + tm_year t)
      else if c = CHR ''T'' then dec2 (tm_hour t) @ '':'' @ dec2 (tm_min t) @ '':'' @ dec2 (tm_sec t)
      else if c = CHR ''z'' then zone (tm_gmtoff t)
      else [CHR ''%'', c])"

fun expand :: "string \<Rightarrow> tm \<Rightarrow> string" where
  "expand [] t = []"
| "expand [c] t = [c]"
| "expand (c # d # cs) t = (if c = CHR ''%'' then conversion d t @ expand cs t else c # expand (d # cs) t)"

text \<open>The number of characters written; 0 if they and the final 0 do not fit.\<close>

definition strftime :: "u64 \<Rightarrow> string \<Rightarrow> tm \<Rightarrow> nat \<times> string" where
  "strftime len fmt t = (let s = expand fmt t in if length s < unat len then (length s, s) else (0, []))"

section \<open>The operations\<close>

text \<open>
  \<open>result\<close>: whether the buffer is not NULL. The value is the string in the buffer, or \<open>None\<close> for
  NULL. \<open>localtime\<close> may give NULL, which \<open>strftime\<close> does not take.
\<close>

definition tm_strftime ::
  "(int \<Rightarrow> tm option) \<Rightarrow> int \<Rightarrow> string option \<Rightarrow> bool \<Rightarrow> u64 \<Rightarrow> string option res" where
  "tm_strftime localtime ts fmt result len =
     (if \<not> result \<or> len \<le> 0 \<or> fmt = None then Inr None
      else (case localtime ts of
          None \<Rightarrow> Inl SegFault
        | Some lp \<Rightarrow> (let (n, s) = strftime len (the fmt) lp in if n = 0 then Inr None else Inr (Some s))))"

definition tm_time2str :: "(int \<Rightarrow> tm option) \<Rightarrow> int \<Rightarrow> bool \<Rightarrow> u64 \<Rightarrow> string option res" where
  "tm_time2str localtime ts result len = tm_strftime localtime ts (Some ''%a, %d %b %Y %T %z'') result len"

definition TM_TIMESTR_LEN :: u64 where
  "TM_TIMESTR_LEN = 32"

text \<open>\<open>sysinfo\<close> fails with \<open>None\<close>, else it gives the uptime.\<close>

definition tm_uptime :: "int option \<Rightarrow> int" where
  "tm_uptime sysinfo = (case sysinfo of None \<Rightarrow> 0 | Some uptime \<Rightarrow> uptime)"

section \<open>The recommended length\<close>

definition tm_valid :: "tm \<Rightarrow> bool" where
  "tm_valid t \<longleftrightarrow> tm_sec t \<le> 60 \<and> tm_min t < 60 \<and> tm_hour t < 24 \<and> 1 \<le> tm_mday t \<and> tm_mday t \<le> 31
     \<and> tm_mon t < 12 \<and> tm_wday t < 7 \<and> \<bar>tm_gmtoff t\<bar> < 24 * 3600"

lemma length_names: "n < 7 \<Longrightarrow> length (wday_name n) = 3" "n < 12 \<Longrightarrow> length (mon_name n) = 3"
  by (auto simp: wday_name_def mon_name_def less_Suc_eq numeral_eq_Suc)

lemma length_dec2 [simp]: "length (dec2 n) = 2"
  by (simp add: dec2_def)

lemma length_zone [simp]: "length (zone off) = 5"
  by (simp add: zone_def)

lemma dec_pos: "0 < length (dec n)"
  by (subst dec.simps) simp

lemma length_dec_less: "length (dec n) \<le> k \<longleftrightarrow> n < 10 ^ k" if "0 < k"
  using that
proof (induction n arbitrary: k rule: dec.induct)
  case (1 n)
  show ?case
  proof (cases "n < 10")
    case True
    then have "n < 10 ^ k" using 1(2) self_le_power[of "10 :: nat" k] by simp
    then show ?thesis using True 1(2) by (subst dec.simps) simp
  next
    case False
    then have len: "length (dec n) = Suc (length (dec (n div 10)))" by (subst dec.simps) simp
    show ?thesis
    proof (cases "k = 1")
      case True
      then show ?thesis using len dec_pos[of "n div 10"] False by simp
    next
      case k: False
      then obtain j where j: "k = Suc j" "0 < j" using 1(2) by (cases k) auto
      then show ?thesis using 1(1)[OF False j(2)] len by (simp add: div_less_iff_less_mult mult.commute)
    qed
  qed
qed

lemma length_time_string:
  assumes "tm_valid t"
  shows "length (expand ''%a, %d %b %Y %T %z'' t) = 27 + length (dec (1900 + tm_year t))"
  using assms by (simp add: tm_valid_def length_names)



end
