(* ===== verification/Program.thy ===== *)
theory Program
  imports Initops Stdmsg Fio_Lock
begin

text \<open>
  \<open>main.c\<close> up to the self tests: the command line, the lock that keeps a second instance out,
  going to the background, the init hooks. The state is the globals of the program, what it
  printed, and the kernel of \<open>Fio_Lock\<close>. What \<open>getopt_long\<close> returns, whether the lock file can
  be opened and what \<open>setsid\<close> and \<open>daemon\<close> do is an argument.
\<close>

section \<open>The state\<close>

text \<open>\<open>unlock_at_exit\<close>: \<open>atexit(unlock_process)\<close> was called.\<close>

record prog =
  stdmsg_lv :: int
  opt_background :: u32
  process_lock_fd :: int
  unlock_at_exit :: bool
  printed :: "(stream \<times> string) list"
  kern :: kernel

definition initial_prog :: "kernel \<Rightarrow> prog" where
  "initial_prog k = \<lparr>stdmsg_lv = stdmsg_lv_dfl, opt_background = 0, process_lock_fd = -1,
     unlock_at_exit = False, printed = [], kern = k\<rparr>"

definition say :: "(stream \<times> string) list \<Rightarrow> prog \<Rightarrow> prog" where
  "say ms s = s\<lparr>printed := printed s @ ms\<rparr>"

section \<open>The command line\<close>

definition print_help :: "string \<Rightarrow> prog \<Rightarrow> prog" where
  "print_help path = say [(Stdout, path @ '' [--help|-h]'' @ [CHR 0x0A]), (Stdout, [CHR 0x0A])]"

text \<open>
  The loop over what \<open>getopt_long\<close> returns until it returns -1, each a character; an option it
  does not know is \<open>?\<close>. \<open>False\<close>: the loop returned -1.
\<close>

fun option_loop :: "string \<Rightarrow> char list \<Rightarrow> prog \<Rightarrow> bool \<times> prog" where
  "option_loop argv0 [] s = (True, s)"
| "option_loop argv0 (c # cs) s =
     (if c = CHR ''b'' then option_loop argv0 cs (s\<lparr>opt_background := 1\<rparr>)
      else if c = CHR ''q'' then option_loop argv0 cs (s\<lparr>stdmsg_lv := stdmsg_lv_dec (stdmsg_lv s)\<rparr>)
      else if c = CHR ''v'' then option_loop argv0 cs (s\<lparr>stdmsg_lv := stdmsg_lv_inc (stdmsg_lv s)\<rparr>)
      else if c = CHR ''h'' then (False, print_help argv0 s)
      else (False, print_help argv0 s))"

text \<open>\<open>rest\<close>: the elements of \<open>argv\<close> from \<open>optind\<close> on\<close>

definition argparse :: "string \<Rightarrow> char list \<Rightarrow> string list \<Rightarrow> prog \<Rightarrow> int \<times> prog" where
  "argparse argv0 opts rest s =
     (let (go, s) = option_loop argv0 opts s in
      if \<not> go then (-1, s)
      else if rest \<noteq> [] then
        (-1, print_help argv0 (say ([(Stderr, ''non-option ARGV-elements: '')]
               @ map (\<lambda>a. (Stderr, a @ '' '')) rest @ [(Stderr, [CHR 0x0A])]) s))
      else (0, s))"

section \<open>One instance at a time\<close>

text \<open>\<open>path\<close>: the configured \<open>CONFIG_TEMPLATE_LOCK_PATH\<close>; \<open>p\<close>: this process\<close>

definition trylock_process :: "string \<Rightarrow> bool \<Rightarrow> pid \<Rightarrow> prog \<Rightarrow> int \<times> prog" where
  "trylock_process path can p s =
     (let (fd, k) = fio_trylock can p path (kern s); s = s\<lparr>process_lock_fd := fd, kern := k\<rparr> in
      if process_lock_fd s < 0
      then (-1, say (ERR (''Another instance is locking '' @ [CHR 0x27] @ path @ [CHR 0x27]) (stdmsg_lv s)) s)
      else (0, s))"

definition unlock_process :: "pid \<Rightarrow> prog \<Rightarrow> prog" where
  "unlock_process p s =
     (if process_lock_fd s \<ge> 0
      then s\<lparr>kern := snd (fio_unlock p (process_lock_fd s) (kern s)), process_lock_fd := -1\<rparr> else s)"

definition keep_single :: "string \<Rightarrow> bool \<Rightarrow> pid \<Rightarrow> prog \<Rightarrow> int \<times> prog" where
  "keep_single path can p s =
     (let (r, s) = trylock_process path can p s in
      if r \<noteq> 0 then (-1, s) else (0, s\<lparr>unlock_at_exit := True\<rparr>))"

text \<open>The end of a process by \<open>exit\<close> or a return of \<open>main\<close>\<close>

definition process_exit :: "pid \<Rightarrow> prog \<Rightarrow> prog" where
  "process_exit p s =
     (let s = (if unlock_at_exit s then unlock_process p s else s) in s\<lparr>kern := sys_exit p (kern s)\<rparr>)"

section \<open>The main program\<close>

text \<open>
  \<open>m_daemon\<close>: the process \<open>daemon\<close> goes on in, \<open>None\<close> when it fails. The parent ends by \<open>_exit\<close>,
  which runs no exit handlers.
\<close>

record 'p env =
  m_argv0 :: string
  m_opts :: "char list"
  m_rest :: "string list"
  m_lock_path :: string
  m_can_open :: bool
  m_setsid :: bool
  m_daemon :: "pid option"
  m_strerror :: string
  m_hooks :: "('p, prog) initops list"

text \<open>How the start ends: in a return of \<open>main\<close> or at the tests, each in the process given.\<close>

datatype start = Returned pid int | Testing pid

definition background :: "'p env \<Rightarrow> pid \<Rightarrow> prog \<Rightarrow> start \<times> prog" where
  "background w p s =
     (let s = say (DBG ''main'' ''Run as background service'' (stdmsg_lv s)) s in
      if \<not> m_setsid w
      then (Returned p (-1), say (ERR (''Cannot setsid '' @ [CHR 0x27] @ m_strerror w @ [CHR 0x27]) (stdmsg_lv s)) s)
      else (case m_daemon w of
          None \<Rightarrow> (Returned p (-1), say (ERR (''Cannot put into background '' @ [CHR 0x27] @ m_strerror w @ [CHR 0x27]) (stdmsg_lv s)) s)
        | Some c \<Rightarrow> (Testing c, s\<lparr>kern := sys_exit p (sys_fork p c (kern s)),
                                   stdmsg_lv := stdmsg_lv_set (of_int (level_val STDMSG_LV_NONE)) (stdmsg_lv s)\<rparr>)))"

definition main_start :: "'p env \<Rightarrow> pid \<Rightarrow> prog \<Rightarrow> start \<times> prog" where
  "main_start w p s =
     (let (r, s) = argparse (m_argv0 w) (m_opts w) (m_rest w) s in
      if r \<noteq> 0 then (Returned p (-1), s)
      else
        (let (r, s) = keep_single (m_lock_path w) (m_can_open w) p s in
         if r \<noteq> 0 then (Returned p (-1), s)
         else
           (case (if opt_background s \<noteq> 0 then background w p s else (Testing p, s)) of
              (Returned q v, s) \<Rightarrow> (Returned q v, s)
            | (Testing q, s) \<Rightarrow>
                (let (r, s) = initops_exec_init (m_hooks w) s in
                 if r \<noteq> 0 then (Returned q (-1), s)
                 else (Testing q, say (DBG ''main'' (''Running program: '' @ m_argv0 w) (stdmsg_lv s)) s)))))"

section \<open>The command line is read right\<close>

lemma option_loop_result: "fst (option_loop argv0 opts s) \<longleftrightarrow> set opts \<subseteq> {CHR ''b'', CHR ''q'', CHR ''v''}"
  by (induction opts arbitrary: s) auto

lemma option_loop_level: "level_ok (stdmsg_lv s) \<Longrightarrow> level_ok (stdmsg_lv (snd (option_loop argv0 opts s)))"
  by (induction opts arbitrary: s) (auto simp: print_help_def say_def)

lemma option_loop_frame:
  "kern (snd (option_loop argv0 opts s)) = kern s"
  "process_lock_fd (snd (option_loop argv0 opts s)) = process_lock_fd s"
  "unlock_at_exit (snd (option_loop argv0 opts s)) = unlock_at_exit s"
  by (induction opts arbitrary: s) (auto simp: print_help_def say_def)

lemma option_loop_values:
  assumes "set opts \<subseteq> {CHR ''b'', CHR ''q'', CHR ''v''}"
  shows "printed (snd (option_loop argv0 opts s)) = printed s"
    and "opt_background (snd (option_loop argv0 opts s)) = (if CHR ''b'' \<in> set opts then 1 else opt_background s)"
    and "CHR ''q'' \<notin> set opts \<Longrightarrow> level_ok (stdmsg_lv s)
      \<Longrightarrow> stdmsg_lv (snd (option_loop argv0 opts s)) = min 5 (stdmsg_lv s + int (count_list opts CHR ''v''))"
    and "CHR ''v'' \<notin> set opts \<Longrightarrow> level_ok (stdmsg_lv s)
      \<Longrightarrow> stdmsg_lv (snd (option_loop argv0 opts s)) = max 0 (stdmsg_lv s - int (count_list opts CHR ''q''))"
  using assms
  by (induction opts arbitrary: s) (auto simp: level_ok_def stdmsg_lv_inc_def stdmsg_lv_dec_def)

lemma argparse_frame:
  "kern (snd (argparse argv0 opts rest s)) = kern s"
  "process_lock_fd (snd (argparse argv0 opts rest s)) = process_lock_fd s"
  "unlock_at_exit (snd (argparse argv0 opts rest s)) = unlock_at_exit s"
  by (auto simp: argparse_def Let_def case_prod_unfold option_loop_frame print_help_def say_def)

text \<open>C33: the command line gives exactly what was asked. \<open>argparse\<close> returns 0 if and only if all
  options are \<open>-b\<close>, \<open>-q\<close> or \<open>-v\<close> and nothing else is on the line, and else returns -1 with the help
  text; the message level never leaves 0 to 5; when 0 is returned nothing was printed, the
  background flag says whether \<open>-b\<close> was there, and without \<open>-q\<close> the level is raised once per \<open>-v\<close>
  up to 5, without \<open>-v\<close> lowered once per \<open>-q\<close> down to 0.\<close>

theorem argparse_exact:
  assumes "level_ok (stdmsg_lv s)" and "argparse argv0 opts rest s = (r, s')"
  shows "(r = 0 \<longleftrightarrow> set opts \<subseteq> {CHR ''b'', CHR ''q'', CHR ''v''} \<and> rest = [])
    \<and> (r \<noteq> 0 \<longrightarrow> r = -1 \<and> (Stdout, argv0 @ '' [--help|-h]'' @ [CHR 0x0A]) \<in> set (printed s'))
    \<and> level_ok (stdmsg_lv s')
    \<and> (r = 0 \<longrightarrow> printed s' = printed s
        \<and> opt_background s' = (if CHR ''b'' \<in> set opts then 1 else opt_background s)
        \<and> (CHR ''q'' \<notin> set opts \<longrightarrow> stdmsg_lv s' = min 5 (stdmsg_lv s + int (count_list opts CHR ''v'')))
        \<and> (CHR ''v'' \<notin> set opts \<longrightarrow> stdmsg_lv s' = max 0 (stdmsg_lv s - int (count_list opts CHR ''q''))))"
proof -
  obtain go s1 where l: "option_loop argv0 opts s = (go, s1)" by fastforce
  have hlp: "(Stdout, argv0 @ '' [--help|-h]'' @ [CHR 0x0A]) \<in> set (printed s1)" if "\<not> go"
    using that l
  proof (induction opts arbitrary: s)
    case (Cons c cs)
    then show ?case by (auto simp: print_help_def say_def split: if_splits)
  qed simp
  have res: "go \<longleftrightarrow> set opts \<subseteq> {CHR ''b'', CHR ''q'', CHR ''v''}"
    using option_loop_result[of argv0 opts s] l by simp
  have lev: "level_ok (stdmsg_lv s1)" using option_loop_level[OF assms(1), of argv0 opts] l by simp
  show ?thesis
  proof (cases go)
    case False
    then show ?thesis using assms(2) hlp res lev l by (auto simp: argparse_def)
  next
    case True
    then have ok: "set opts \<subseteq> {CHR ''b'', CHR ''q'', CHR ''v''}" using res by simp
    note v = option_loop_values[OF ok, where ?argv0.0 = argv0 and s = s, unfolded l snd_conv]
    have s': "s' = s1 \<and> r = 0 \<or> rest \<noteq> [] \<and> r = -1" "stdmsg_lv s' = stdmsg_lv s1"
      "rest \<noteq> [] \<Longrightarrow> (Stdout, argv0 @ '' [--help|-h]'' @ [CHR 0x0A]) \<in> set (printed s')" "rest = [] \<longleftrightarrow> r = 0"
      using assms(2) l True by (auto simp: argparse_def print_help_def say_def split: if_splits)
    then show ?thesis using v assms(1) ok lev by auto
  qed
qed

theorem argparse_exact_witness:
  "level_ok (stdmsg_lv (initial_prog \<lparr>k_fds = [], k_lock = [], k_next = 0, k_max = 8\<rparr>)) \<and> (case argparse ''prog'' ''vbv'' [] (initial_prog \<lparr>k_fds = [], k_lock = [], k_next = 0, k_max = 8\<rparr>) of
     (r, s') \<Rightarrow> r = 0 \<and> stdmsg_lv s' = 4 \<and> opt_background s' = 1)"
proof -
  have l: "level_ok (stdmsg_lv (initial_prog \<lparr>k_fds = [], k_lock = [], k_next = 0, k_max = 8\<rparr>))" by (simp add: initial_prog_def)
  obtain r s' where a: "argparse ''prog'' ''vbv'' [] (initial_prog \<lparr>k_fds = [], k_lock = [], k_next = 0, k_max = 8\<rparr>) = (r, s')" by fastforce
  from argparse_exact[OF l a] have "r = 0" "stdmsg_lv s' = 4" "opt_background s' = 1"
    by (auto simp: initial_prog_def stdmsg_lv_dfl_def)
  then show ?thesis using l a by simp
qed


section \<open>One instance\<close>

lemma keep_single_cases:
  assumes "keep_single path can p s = (r, s')" and "kernel_ok (kern s)" and "\<not> unlock_at_exit s"
  shows "kernel_ok (kern s')" and "pids (kern s') \<subseteq> insert p (pids (kern s))"
    and "if r = 0 then lock_holders path (kern s) = {} \<and> lock_holders path (kern s') = {(p, process_lock_fd s')}
        \<and> 0 \<le> process_lock_fd s' \<and> unlock_at_exit s'
      else r = -1 \<and> lock_holders path (kern s') = lock_holders path (kern s) \<and> \<not> unlock_at_exit s'"
    and "opt_background s' = opt_background s" and "stdmsg_lv s' = stdmsg_lv s"
proof -
  obtain fd k where t: "fio_trylock can p path (kern s) = (fd, k)" by fastforce
  note f = trylock_facts[OF assms(2) t]
  show "kernel_ok (kern s')" and "pids (kern s') \<subseteq> insert p (pids (kern s))"
    and "if r = 0 then lock_holders path (kern s) = {} \<and> lock_holders path (kern s') = {(p, process_lock_fd s')}
        \<and> 0 \<le> process_lock_fd s' \<and> unlock_at_exit s'
      else r = -1 \<and> lock_holders path (kern s') = lock_holders path (kern s) \<and> \<not> unlock_at_exit s'"
    and "opt_background s' = opt_background s" and "stdmsg_lv s' = stdmsg_lv s"
    using assms(1,3) t f by (auto simp: keep_single_def trylock_process_def say_def split: if_splits)
qed

text \<open>The hooks of the program leave its lock alone.\<close>

definition hooks_keep_lock :: "'p env \<Rightarrow> bool" where
  "hooks_keep_lock w \<longleftrightarrow> (\<forall>s. let s' = snd (initops_exec_init (m_hooks w) s) in
     kern s' = kern s \<and> process_lock_fd s' = process_lock_fd s \<and> unlock_at_exit s' = unlock_at_exit s)"

lemma main_start_cases:
  assumes st: "main_start w p (initial_prog K) = (st, s')" and K: "kernel_ok K" "p \<notin> pids K"
    and hooks: "hooks_keep_lock w" and fresh: "\<forall>c. m_daemon w = Some c \<longrightarrow> c \<notin> insert p (pids K)"
  shows "kernel_ok (kern s')"
    and "st = Testing q \<Longrightarrow> lock_holders (m_lock_path w) K = {} \<and> unlock_at_exit s'
      \<and> lock_holders (m_lock_path w) (kern s') = {(q, process_lock_fd s')}"
    and "st = Returned q v \<Longrightarrow>
      (if unlock_at_exit s' then lock_holders (m_lock_path w) K = {} \<and> lock_holders (m_lock_path w) (kern s') = {(q, process_lock_fd s')}
       else q = p \<and> lock_holders (m_lock_path w) (kern s') = lock_holders (m_lock_path w) K)"
proof -
  let ?P = "m_lock_path w" and ?s0 = "initial_prog K"
  obtain r1 s1 where a: "argparse (m_argv0 w) (m_opts w) (m_rest w) ?s0 = (r1, s1)" by fastforce
  have s1: "kern s1 = K" "\<not> unlock_at_exit s1"
    using argparse_frame[of "m_argv0 w" "m_opts w" "m_rest w" ?s0] a by (simp_all add: initial_prog_def)
  obtain r2 s2 where k: "keep_single ?P (m_can_open w) p s1 = (r2, s2)" by fastforce
  note ks = keep_single_cases[OF k, unfolded s1(1), OF K(1) s1(2)]
  have all: "kernel_ok (kern s') \<and> (case st of
      Testing q \<Rightarrow> lock_holders ?P K = {} \<and> unlock_at_exit s' \<and> lock_holders ?P (kern s') = {(q, process_lock_fd s')}
    | Returned q v \<Rightarrow> if unlock_at_exit s' then lock_holders ?P K = {} \<and> lock_holders ?P (kern s') = {(q, process_lock_fd s')}
        else q = p \<and> lock_holders ?P (kern s') = lock_holders ?P K)"
  proof (cases "r1 = 0 \<and> r2 = 0")
    case False
    then have "st = Returned p (-1) \<and> (s' = s1 \<or> s' = s2 \<and> r2 \<noteq> 0)"
      using st a k by (auto simp: main_start_def split: if_splits)
    then show ?thesis using s1 K ks by (auto split: if_splits)
  next
    case True
    then have h2: "lock_holders ?P K = {}" "lock_holders ?P (kern s2) = {(p, process_lock_fd s2)}"
        "unlock_at_exit s2" "kernel_ok (kern s2)" using ks by simp_all
    obtain st3 s3 where b: "(if opt_background s2 \<noteq> 0 then background w p s2 else (Testing p, s2)) = (st3, s3)"
      by fastforce
    have h3: "kernel_ok (kern s3) \<and> unlock_at_exit s3 \<and> (\<exists>q. (st3 = Testing q \<or> (\<exists>v. st3 = Returned q v))
        \<and> lock_holders ?P (kern s3) = {(q, process_lock_fd s3)})"
    proof (cases "opt_background s2 \<noteq> 0 \<and> m_setsid w \<and> m_daemon w \<noteq> None")
      case False
      then show ?thesis using b h2 by (auto simp: background_def say_def Let_def split: if_splits)
    next
      case True
      then obtain c where c: "m_daemon w = Some c" by auto
      then have "c \<notin> pids (kern s2)" using fresh ks(2) by blast
      note ho = fl.handover[OF h2(4,2) this]
      then show ?thesis using b True c h2(3) by (auto simp: background_def say_def)
    qed
    show ?thesis
    proof (cases st3)
      case (Returned q v)
      then show ?thesis using st a k b True h2 h3 by (auto simp: main_start_def)
    next
      case (Testing q)
      obtain r4 s4 where i: "initops_exec_init (m_hooks w) s3 = (r4, s4)" by fastforce
      have "kern s4 = kern s3" "process_lock_fd s4 = process_lock_fd s3" "unlock_at_exit s4 = unlock_at_exit s3"
        using hooks i unfolding hooks_keep_lock_def Let_def by (metis snd_conv)+
      then show ?thesis using st a k b True h2 h3 Testing i by (auto simp: main_start_def say_def split: if_splits)
    qed
  qed
  then show "kernel_ok (kern s')"
    and "st = Testing q \<Longrightarrow> lock_holders (m_lock_path w) K = {} \<and> unlock_at_exit s'
      \<and> lock_holders (m_lock_path w) (kern s') = {(q, process_lock_fd s')}"
    and "st = Returned q v \<Longrightarrow>
      (if unlock_at_exit s' then lock_holders (m_lock_path w) K = {} \<and> lock_holders (m_lock_path w) (kern s') = {(q, process_lock_fd s')}
       else q = p \<and> lock_holders (m_lock_path w) (kern s') = lock_holders (m_lock_path w) K)"
    by auto
qed

lemma process_exit_facts:
  assumes "kernel_ok (kern s)" and "unlock_at_exit s" and "lock_holders path (kern s) = {(p, process_lock_fd s)}"
  shows "kernel_ok (kern (process_exit p s))" and "lock_holders path (kern (process_exit p s)) = {}"
proof -
  have h: "(p, process_lock_fd s) \<in> lock_holders path (kern s)" using assms(3) by simp
  have "0 \<le> process_lock_fd s" using fl.holders_used[OF assms(1) h] by simp
  moreover note u = unlock_facts[OF assms(1) h]
  moreover note sys_exit_facts[OF u(1), where p = p]
  ultimately show "kernel_ok (kern (process_exit p s))" "lock_holders path (kern (process_exit p s)) = {}"
    using assms(2) by (auto simp: process_exit_def unlock_process_def)
qed

text \<open>
  A machine on which processes start the program, end it, or are killed. \<open>procs p\<close> is the state
  of process \<open>p\<close> while it runs the tests; its own view of the kernel is stale and is replaced
  when it acts.
\<close>

record system =
  s_kern :: kernel
  procs :: "pid \<Rightarrow> prog option"

inductive sys_step :: "string \<Rightarrow> system \<Rightarrow> system \<Rightarrow> bool" for path :: string where
  boot: "main_start w p (initial_prog (s_kern S)) = (Testing q, s) \<Longrightarrow> m_lock_path w = path
    \<Longrightarrow> hooks_keep_lock (w :: unit env) \<Longrightarrow> p \<notin> pids (s_kern S)
    \<Longrightarrow> \<forall>c. m_daemon w = Some c \<longrightarrow> c \<notin> insert p (pids (s_kern S))
    \<Longrightarrow> sys_step path S \<lparr>s_kern = kern s, procs = (procs S)(q \<mapsto> s)\<rparr>"
| refuse: "main_start w p (initial_prog (s_kern S)) = (Returned q v, s) \<Longrightarrow> m_lock_path w = path
    \<Longrightarrow> hooks_keep_lock (w :: unit env) \<Longrightarrow> p \<notin> pids (s_kern S)
    \<Longrightarrow> \<forall>c. m_daemon w = Some c \<longrightarrow> c \<notin> insert p (pids (s_kern S))
    \<Longrightarrow> sys_step path S (S\<lparr>s_kern := kern (process_exit q s)\<rparr>)"
| finish: "procs S p = Some s
    \<Longrightarrow> sys_step path S \<lparr>s_kern = kern (process_exit p (s\<lparr>kern := s_kern S\<rparr>)), procs = (procs S)(p := None)\<rparr>"
| killed: "procs S p = Some s
    \<Longrightarrow> sys_step path S \<lparr>s_kern = sys_exit p (s_kern S), procs = (procs S)(p := None)\<rparr>"

definition sys_start :: "string \<Rightarrow> system \<Rightarrow> bool" where
  "sys_start path S \<longleftrightarrow> kernel_ok (s_kern S) \<and> lock_holders path (s_kern S) = {} \<and> procs S = (\<lambda>p. None)"

text \<open>Who runs holds the lock, and nobody else does.\<close>

definition sys_inv :: "string \<Rightarrow> system \<Rightarrow> bool" where
  "sys_inv path S \<longleftrightarrow> kernel_ok (s_kern S)
     \<and> (procs S = (\<lambda>p. None) \<and> lock_holders path (s_kern S) = {}
        \<or> (\<exists>p s. procs S = [p \<mapsto> s] \<and> unlock_at_exit s \<and> lock_holders path (s_kern S) = {(p, process_lock_fd s)}))"

lemma running_holds:
  assumes "sys_inv path S" and "procs S p = Some s"
  shows "procs S = [p \<mapsto> s]" and "unlock_at_exit s" and "kernel_ok (s_kern S)"
    and "lock_holders path (s_kern S) = {(p, process_lock_fd s)}"
proof -
  from assms obtain q t where q: "procs S = [q \<mapsto> t]" "unlock_at_exit t" "kernel_ok (s_kern S)"
      "lock_holders path (s_kern S) = {(q, process_lock_fd t)}"
    unfolding sys_inv_def by fastforce
  have "q = p" using q(1) assms(2) by (simp split: if_splits)
  moreover from this have "t = s" using q(1) assms(2) by simp
  ultimately show "procs S = [p \<mapsto> s]" "unlock_at_exit s" "kernel_ok (s_kern S)"
    "lock_holders path (s_kern S) = {(p, process_lock_fd s)}" using q by simp_all
qed

lemma sys_step_inv:
  assumes "sys_step path S T" and "sys_inv path S"
  shows "sys_inv path T"
  using assms
proof (cases rule: sys_step.cases)
  case (boot w p q s)
  have "kernel_ok (s_kern S)" using assms(2) by (simp add: sys_inv_def)
  note c = main_start_cases[OF boot(2) this boot(5,4) boot(6)]
  show ?thesis using c(1) c(2)[OF refl] boot(1,3) assms(2) by (auto simp: sys_inv_def)
next
  case (refuse w p q v s)
  have ok: "kernel_ok (s_kern S)" using assms(2) by (simp add: sys_inv_def)
  note c = main_start_cases[OF refuse(2) ok refuse(5,4) refuse(6)]
  show ?thesis
  proof (cases "unlock_at_exit s")
    case True
    then show ?thesis
      using c(3)[OF refl] process_exit_facts[OF c(1) True, where path = path and p = q] refuse(1,3) assms(2)
      by (auto simp: sys_inv_def)
  next
    case False
    have nh: "e \<in> lock_holders path (s_kern S) \<Longrightarrow> fst e \<noteq> p" for e
      using fl.holders_used[OF ok, of "fst e" "snd e"] refuse(5) by auto
    have "lock_holders path (kern (process_exit q s)) = lock_holders path (s_kern S)"
    proof -
      have "q = p" "lock_holders path (kern s) = lock_holders path (s_kern S)"
        using c(3)[OF refl] False refuse(3) by auto
      moreover have "{e \<in> lock_holders path (s_kern S). fst e \<noteq> p} = lock_holders path (s_kern S)" using nh by blast
      ultimately show ?thesis using False sys_exit_facts(2)[OF c(1)] by (simp add: process_exit_def)
    qed
    moreover have "kernel_ok (kern (process_exit q s))"
      using False sys_exit_facts[OF c(1)] by (simp add: process_exit_def)
    ultimately show ?thesis using refuse(1) assms(2) by (auto simp: sys_inv_def)
  qed
next
  case (finish p s)
  note r = running_holds[OF assms(2) finish(2)]
  have "(procs S)(p := None) = (\<lambda>p. None)" by (simp add: r(1))
  moreover have "kernel_ok (kern (process_exit p (s\<lparr>kern := s_kern S\<rparr>)))"
      "lock_holders path (kern (process_exit p (s\<lparr>kern := s_kern S\<rparr>))) = {}"
    using r(2,3,4) by (intro process_exit_facts; simp)+
  ultimately show ?thesis unfolding finish(1) sys_inv_def by simp
next
  case (killed p s)
  note r = running_holds[OF assms(2) killed(2)]
  have "kernel_ok (sys_exit p (s_kern S))" "lock_holders path (sys_exit p (s_kern S)) = {}"
      and "(procs S)(p := None) = (\<lambda>p. None)"
    using r by (simp_all add: sys_exit_facts)
  then show ?thesis unfolding killed(1) sys_inv_def by simp
qed

interpretation one: machine_invariant "sys_start path" "sys_step path" "sys_inv path" for path
proof
  show "sys_inv path S" if "sys_start path S" for S
    using that by (auto simp: sys_start_def sys_inv_def)
qed (rule sys_step_inv)


text \<open>A start from an empty kernel, and a kill\<close>

definition empty_kernel :: kernel where
  "empty_kernel = \<lparr>k_fds = [], k_lock = [], k_next = 0, k_max = 8\<rparr>"

definition plain_env :: "unit env" where
  "plain_env = \<lparr>m_argv0 = ''t'', m_opts = ''b'', m_rest = [], m_lock_path = ''l'', m_can_open = True,
     m_setsid = True, m_daemon = Some 7, m_strerror = [], m_hooks = []\<rparr>"

lemma empty_hooks: "initops_exec_init ([] :: ('p, 's) initops list) s = (0, s)"
  by (simp add: initops_exec_init_def init_orders.simps initops_exec_init_by_order_def init_loop.simps)


end
