(* ===== verification/Selftest.thy ===== *)
theory Selftest
  imports Mempool Threadwq_Man Stdmsg
begin

text \<open>
  The self tests of \<open>main.c\<close>: a thread that takes job structures from the memory pool and adds
  them to the work queues, by itself (\<open>threadfunc2\<close>) or through a manager (\<open>threadfunc3\<close>), until
  the clock says it is enough; workers start the jobs, and when a grace period is over the
  finish callback gives the structure back to the pool. The pool, the queues and the callbacks
  are those of the other theories. What the workers do between two rounds of the thread, what
  \<open>malloc\<close> answers and what the clock shows is the argument \<open>tick\<close> of the round.
\<close>

section \<open>The state\<close>

text \<open>The globals of \<open>main.c\<close> that the callbacks use\<close>

record tenv =
  te_pool :: pool
  te_database :: "u32 list"
  te_start :: u64
  te_finish :: u64
  te_lv :: int
  te_printed :: "(stream \<times> string) list"

text \<open>
  Around them the queues, the job structures by address, the heads that wait for the end of a
  grace period, oldest first, and the counter \<open>wait\<close>. A callback acts on the globals and may
  fault.
\<close>

type_synonym genv = "tenv res"

record 'q selftest =
  st_env :: tenv
  st_tbl :: "('q, genv) threadwq list"
  st_jobs :: "ptr \<Rightarrow> genv threadwq_job option"
  st_rcu :: "ptr list"
  st_wait :: u64

definition TWQNUM :: u32 where
  "TWQNUM = 4"

definition TEST_TIME :: int where
  "TEST_TIME = 10"

section \<open>The callbacks\<close>

text \<open>The hooks of the workers; \<open>show\<close> is \<open>%p\<close>.\<close>

definition cb_init_worker :: "(ptr \<Rightarrow> string) \<Rightarrow> ptr \<Rightarrow> ptr \<Rightarrow> genv \<Rightarrow> 32 word \<times> genv" where
  "cb_init_worker pr twq unused g =
     (0, bindR g (\<lambda>e. Inr (e\<lparr>te_printed := te_printed e @ VBS ''cb_init_worker:24'' (''init twq '' @ pr twq) (te_lv e),
                             te_database := (replicate 16384 0)[16383 := 1]\<rparr>)))"

definition cb_exit_worker :: "(ptr \<Rightarrow> string) \<Rightarrow> ptr \<Rightarrow> ptr \<Rightarrow> genv \<Rightarrow> genv" where
  "cb_exit_worker pr twq unused g =
     bindR g (\<lambda>e. Inr (e\<lparr>te_printed := te_printed e @ VBS ''cb_exit_worker:32'' (''exit twq '' @ pr twq) (te_lv e)\<rparr>))"

text \<open>The search in \<open>database\<close>, with its bounds\<close>

function db_scan :: "u32 list \<Rightarrow> nat \<Rightarrow> nat res" where
  "db_scan db i =
     (if i < 16384 then
        (if length db \<le> i then Inl SegFault else if db ! i = 1 then Inr i else db_scan db (Suc i))
      else Inr i)"
  by pat_completeness auto
termination by (relation "measure (\<lambda>(db, i). 16384 - i)") auto

declare db_scan.simps [simp del]

text \<open>\<open>cb_start\<close> and \<open>cb_finish\<close>\<close>

definition main_cb_start :: "ptr \<Rightarrow> ptr \<Rightarrow> genv \<Rightarrow> genv" where
  "main_cb_start job priv g =
     bindR g (\<lambda>e. let e = e\<lparr>te_start := te_start e + 1\<rparr> in
       bindR (db_scan (te_database e) 0) (\<lambda>_. Inr e))"

definition main_cb_finish :: "ptr \<Rightarrow> ptr \<Rightarrow> genv \<Rightarrow> genv" where
  "main_cb_finish job priv g =
     bindR g (\<lambda>e. bindR (mempool_free job (te_pool e)) (\<lambda>p.
       Inr (e\<lparr>te_pool := p, te_finish := te_finish e + 1\<rparr>)))"

section \<open>The other threads\<close>

text \<open>
  The worker of queue \<open>i\<close> takes a job and starts it; a grace period ends and the library calls
  the oldest callback.
\<close>

datatype event = Take nat | Grace

fun other_thread :: "'q urcu \<Rightarrow> event \<Rightarrow> 'q selftest \<Rightarrow> 'q selftest res" where
  "other_thread U (Take i) s =
     (if length (st_tbl s) \<le> i then Inr s
      else
        (let twq = st_tbl s ! i; (job, q) = dequeue_one_job U (tq_lfq twq);
             s = s\<lparr>st_tbl := (st_tbl s)[i := twq\<lparr>tq_lfq := q\<rparr>]\<rparr> in
         if job = NULL then Inr s
         else
           bindR (start_job U (st_jobs s) job \<lparr>wk_lfq = q, wk_rcu = st_rcu s, wk_env = Inr (st_env s)\<rparr>) (\<lambda>w.
           bindR (wk_env w) (\<lambda>e. Inr (s\<lparr>st_rcu := wk_rcu w, st_env := e\<rparr>)))))"
| "other_thread U Grace s =
     (case st_rcu s of
        [] \<Rightarrow> Inr s
      | head # heads \<Rightarrow>
          bindR (exec_finish_rcu U (st_jobs s) head (Inr (st_env s))) (\<lambda>g.
          bindR g (\<lambda>e. Inr (s\<lparr>st_rcu := heads, st_env := e\<rparr>))))"

definition others_run :: "'q urcu \<Rightarrow> event list \<Rightarrow> 'q selftest \<Rightarrow> 'q selftest res" where
  "others_run U evs = seqR (map (other_thread U) evs)"

section \<open>The threads that add jobs\<close>

record tick =
  tk_events :: "event list"
  tk_malloc :: "slice_mem \<Rightarrow> malloc_result"
  tk_now :: int

text \<open>
  \<open>mempool_alloc(&mp)\<close>, and \<open>threadwq_job_init(job, cb_start, cb_finish, NULL)\<close>; the node of the
  new job is in no queue yet, so each queue's memory sees it initialised.
\<close>

definition take_slice :: "tick \<Rightarrow> 'q selftest \<Rightarrow> (ptr \<times> 'q selftest) res" where
  "take_slice tk s =
     bindR (mempool_alloc (tk_malloc tk (mem (te_pool (st_env s)))) (te_pool (st_env s))) (\<lambda>(job, p).
       Inr (job, s\<lparr>st_env := (st_env s)\<lparr>te_pool := p\<rparr>\<rparr>))"

definition init_job :: "'q urcu \<Rightarrow> ptr \<Rightarrow> 'q selftest \<Rightarrow> 'q selftest" where
  "init_job U job s =
     s\<lparr>st_jobs := (st_jobs s)(job \<mapsto> \<lparr>job_priv = NULL, cb_start = main_cb_start, cb_finish = main_cb_finish\<rparr>),
       st_tbl := map (\<lambda>twq. twq\<lparr>tq_lfq :=
         snd (threadwq_job_init U job main_cb_start main_cb_finish NULL (st_jobs s, tq_lfq twq))\<rparr>) (st_tbl s)\<rparr>"

text \<open>\<open>(ts_now.tv_sec - ts.tv_sec) > TEST_TIME\<close>\<close>

definition time_over :: "int \<Rightarrow> tick \<Rightarrow> bool" where
  "time_over ts tk \<longleftrightarrow> tk_now tk - ts > TEST_TIME"

text \<open>
  The loop of \<open>threadfunc2\<close>. The ticks are those that come before the loop ends; without one
  that ends it the loop would go on.
\<close>

fun threadfunc2 :: "'q urcu \<Rightarrow> int \<Rightarrow> tick list \<Rightarrow> u32 \<Rightarrow> 'q selftest \<Rightarrow> 'q selftest res" where
  "threadfunc2 U ts [] select_twq s = Inl Diverge"
| "threadfunc2 U ts (tk # tks) select_twq s =
     bindR (others_run U (tk_events tk) s) (\<lambda>s.
       let select_twq = select_twq + 1;
           select_twq = (if select_twq \<ge> TWQNUM then 0 else select_twq) in
       bindR (take_slice tk s) (\<lambda>(job, s).
         if job = NULL then
           (if time_over ts tk then Inr s
            else threadfunc2 U ts tks select_twq (s\<lparr>st_wait := st_wait s + 1\<rparr>))
         else
           (let s = init_job U job s in
            bindR (at_index (unat select_twq) (threadwq_add_job U (Adder 0) job) (st_tbl s)) (\<lambda>twq.
              let s = s\<lparr>st_tbl := (st_tbl s)[unat select_twq := twq]\<rparr> in
              if time_over ts tk then Inr s else threadfunc2 U ts tks select_twq s))))"

text \<open>
  The loop of \<open>threadfunc3\<close>, with the manager of test 3. The queues of the manager are the
  table. The result has the counter \<open>accl\<close>, too.
\<close>

fun threadfunc3 ::
  "'q urcu \<Rightarrow> int \<Rightarrow> tick list \<Rightarrow> u32 \<Rightarrow> ('q, genv) threadwq_man \<Rightarrow> 'q selftest
    \<Rightarrow> (u32 \<times> ('q, genv) threadwq_man \<times> 'q selftest) res" where
  "threadfunc3 U ts [] accl man s = Inl Diverge"
| "threadfunc3 U ts (tk # tks) accl man s =
     bindR (others_run U (tk_events tk) s) (\<lambda>s.
       bindR (take_slice tk s) (\<lambda>(job, s).
         if job = NULL then
           (if time_over ts tk then Inr (accl, man, s)
            else threadfunc3 U ts tks accl man (s\<lparr>st_wait := st_wait s + 1\<rparr>))
         else
           (let accl = accl + 1; s = init_job U job s;
                man = man\<lparr>man_core := (man_core man)\<lparr>twq_pool := st_tbl s\<rparr>\<rparr> in
            bindR (threadwq_man_add_job job man) (\<lambda>(ret, man).
              bug_on (ret \<noteq> 0)
                (let s = s\<lparr>st_tbl := twq_pool (man_core man)\<rparr> in
                 if time_over ts tk then Inr (accl, man, s) else threadfunc3 U ts tks accl man s)))))"

text \<open>\<open>test_threadwq\<close>: the same work without threads, a clock reading in each round\<close>

fun test_threadwq_loop :: "int \<Rightarrow> int list \<Rightarrow> tenv \<Rightarrow> tenv res" where
  "test_threadwq_loop ts [] e = Inl Diverge"
| "test_threadwq_loop ts (now # nows) e =
     bindR (main_cb_start NULL NULL (Inr e)) (\<lambda>e.
       if now - ts > TEST_TIME then Inr e else test_threadwq_loop ts nows e)"

definition test_threadwq :: "int \<Rightarrow> int list \<Rightarrow> tenv \<Rightarrow> tenv res" where
  "test_threadwq ts nows e = test_threadwq_loop ts nows (e\<lparr>te_start := 0, te_finish := 0\<rparr>)"

section \<open>The invariant of the test\<close>

definition queued :: "'q urcu \<Rightarrow> ('q \<Rightarrow> ptr list) \<Rightarrow> 'q selftest \<Rightarrow> ptr list" where
  "queued U items s = concat (map (jobs_of U items) (st_tbl s))"

definition in_flight :: "'q urcu \<Rightarrow> 'q selftest \<Rightarrow> ptr list" where
  "in_flight U s = map (\<lambda>h. h - rcu_head_off U) (st_rcu s)"

abbreviation the_job :: "genv threadwq_job" where
  "the_job \<equiv> \<lparr>job_priv = NULL, cb_start = main_cb_start, cb_finish = main_cb_finish\<rparr>"

text \<open>
  \<open>env_ok U H e\<close>: the client of the pool holds exactly the slices \<open>H\<close>, and the pool has no hooks.
  \<open>test_inv U items c n s\<close>: \<open>c\<close> jobs were in flight when the counters were reset,
  and \<open>n - c\<close> were added since.
\<close>

definition env_ok :: "'q urcu \<Rightarrow> ptr set \<Rightarrow> tenv \<Rightarrow> bool" where
  "env_ok U H e \<longleftrightarrow> (\<exists>fs. pool_inv (te_pool e) fs H \<and> (\<forall>p \<in> set fs. p + lfq_node_off U \<noteq> NULL))
     \<and> \<not> mp_locked (te_pool e) \<and> mp_ctor (te_pool e) = None \<and> mp_dtor (te_pool e) = None
     \<and> length (te_database e) = 16384"

definition queue_good :: "'q urcu \<Rightarrow> ('q \<Rightarrow> ptr list) \<Rightarrow> ('q, genv) threadwq \<Rightarrow> bool" where
  "queue_good U items twq \<longleftrightarrow> tq_mutex twq = None \<and> holds_jobs U items (tq_lfq twq) (jobs_of U items twq)"

definition jobs_ok :: "'q urcu \<Rightarrow> ptr list \<Rightarrow> (ptr \<Rightarrow> genv threadwq_job option) \<Rightarrow> bool" where
  "jobs_ok U js J \<longleftrightarrow> distinct js \<and> (\<forall>j \<in> set js. J j = Some the_job \<and> j + lfq_node_off U \<noteq> NULL)"

definition test_inv :: "'q urcu \<Rightarrow> ('q \<Rightarrow> ptr list) \<Rightarrow> nat \<Rightarrow> nat \<Rightarrow> 'q selftest \<Rightarrow> bool" where
  "test_inv U items c n s \<longleftrightarrow> length (st_tbl s) = 4 \<and> (\<forall>twq \<in> set (st_tbl s). queue_good U items twq)
     \<and> jobs_ok U (queued U items s @ in_flight U s) (st_jobs s)
     \<and> env_ok U (set (queued U items s @ in_flight U s)) (st_env s)
     \<and> length (queued U items s @ in_flight U s) \<le> n
     \<and> te_start (st_env s) = of_nat (n - length (queued U items s)) - of_nat c
     \<and> te_finish (st_env s) = of_nat (n - length (queued U items s @ in_flight U s))"

lemma test_invD:
  assumes "test_inv U items c n s"
  shows "length (st_tbl s) = 4" and "twq \<in> set (st_tbl s) \<Longrightarrow> queue_good U items twq"
    and "jobs_ok U (queued U items s @ in_flight U s) (st_jobs s)"
    and "env_ok U (set (queued U items s @ in_flight U s)) (st_env s)"
    and "length (queued U items s @ in_flight U s) \<le> n"
    and "te_start (st_env s) = of_nat (n - length (queued U items s)) - of_nat c"
    and "te_finish (st_env s) = of_nat (n - length (queued U items s @ in_flight U s))"
  using assms unfolding test_inv_def by blast+

lemma jobs_ok_mset: "mset js' = mset js \<Longrightarrow> jobs_ok U js J \<Longrightarrow> jobs_ok U js' J"
  using mset_eq_imp_distinct_iff[of js' js] mset_eq_setD[of js' js] by (auto simp: jobs_ok_def)

lemma mset_concat_upd:
  "i < length qs \<Longrightarrow> mset (concat (qs[i := ys])) + mset (qs ! i) = mset (concat qs) + mset ys"
  by (induction qs arbitrary: i) (auto split: nat.splits)

lemma queued_update:
  assumes "i < length (st_tbl s)"
  shows "mset (queued U items (s\<lparr>st_tbl := (st_tbl s)[i := twq]\<rparr>)) + mset (jobs_of U items (st_tbl s ! i))
    = mset (queued U items s) + mset (jobs_of U items twq)"
  using mset_concat_upd[of i "map (jobs_of U items) (st_tbl s)" "jobs_of U items twq"] assms
  by (simp add: queued_def map_update)

lemma queued_cong: "st_tbl s' = st_tbl s \<Longrightarrow> queued U items s' = queued U items s"
  by (simp add: queued_def)

lemma in_flight_cong: "st_rcu s' = st_rcu s \<Longrightarrow> in_flight U s' = in_flight U s"
  by (simp add: in_flight_def)

lemma queue_good_put: "queue_good U items twq' \<Longrightarrow> \<forall>twq \<in> set tbl. queue_good U items twq
    \<Longrightarrow> \<forall>twq \<in> set (tbl[i := twq']). queue_good U items twq"
  using set_update_subset_insert[of tbl i twq'] by blast

lemma db_scan_ok: "length db = 16384 \<Longrightarrow> \<exists>k. db_scan db i = Inr k"
  by (induction db i rule: db_scan.induct) (subst db_scan.simps, auto)

lemma main_cb_start_ok:
  assumes "length (te_database e) = 16384"
  shows "main_cb_start job priv (Inr e) = Inr (e\<lparr>te_start := te_start e + 1\<rparr>)"
  using db_scan_ok[OF assms, of 0] by (auto simp: main_cb_start_def Let_def)

section \<open>The other threads keep it\<close>

lemma take_keeps:
  assumes U: "lfq_fifo U items" and inv: "test_inv U items c n s"
  shows "\<exists>s'. other_thread U (Take i) s = Inr s' \<and> test_inv U items c n s'
    \<and> length (queued U items s') = length (queued U items s)
        - (if i < length (st_tbl s) \<and> jobs_of U items (st_tbl s ! i) \<noteq> [] then 1 else 0)"
proof (cases "i < length (st_tbl s)")
  case False
  then show ?thesis using inv by simp
next
  case i: True
  let ?t = "st_tbl s ! i"
  have good: "queue_good U items ?t" using test_invD(2)[OF inv] i by simp
  then have h: "holds_jobs U items (tq_lfq ?t) (jobs_of U items ?t)" by (simp add: queue_good_def)
  note D = test_invD[OF inv]
  show ?thesis
  proof (cases "jobs_of U items ?t")
    case Nil
    then obtain q where q: "dequeue_one_job U (tq_lfq ?t) = (NULL, q)" "holds_jobs U items q []"
      using dequeue_empty[OF U] h by metis
    let ?s = "s\<lparr>st_tbl := (st_tbl s)[i := ?t\<lparr>tq_lfq := q\<rparr>]\<rparr>"
    have jo: "jobs_of U items (?t\<lparr>tq_lfq := q\<rparr>) = []" using holds_jobs_of[of U items "?t\<lparr>tq_lfq := q\<rparr>" "[]"] q(2) by simp
    have qs: "queued U items ?s = queued U items s"
      using list_update_id[of "map (jobs_of U items) (st_tbl s)" i] i Nil jo by (simp add: queued_def map_update)
    have "queue_good U items (?t\<lparr>tq_lfq := q\<rparr>)" using jo q(2) good by (simp add: queue_good_def)
    then have "test_inv U items c n ?s"
      using D queue_good_put[of U items "?t\<lparr>tq_lfq := q\<rparr>" "st_tbl s" i] unfolding test_inv_def qs in_flight_def by auto
    moreover have "other_thread U (Take i) s = Inr ?s" using i q(1) by simp
    ultimately show ?thesis using qs Nil by (intro exI[of _ ?s]) simp
  next
    case (Cons j js)
    then obtain q where q: "dequeue_one_job U (tq_lfq ?t) = (j, q)" "holds_jobs U items q js" "j \<noteq> NULL"
      using dequeue_Cons[OF U] h by metis
    let ?t' = "?t\<lparr>tq_lfq := q\<rparr>"
    let ?s = "s\<lparr>st_tbl := (st_tbl s)[i := ?t'], st_rcu := st_rcu s @ [j + rcu_head_off U],
        st_env := (st_env s)\<lparr>te_start := te_start (st_env s) + 1\<rparr>\<rparr>"
    have jo: "jobs_of U items ?t' = js" using holds_jobs_of[of U items ?t' js] q(2) by simp
    have fl: "in_flight U ?s = in_flight U s @ [j]" by (simp add: in_flight_def)
    have "mset (queued U items ?s) + mset (j # js) = mset (queued U items s) + mset js"
      using queued_update[OF i, of U items ?t'] Cons jo queued_cong[of ?s "s\<lparr>st_tbl := (st_tbl s)[i := ?t']\<rparr>" U items]
      by simp
    then have m: "mset (queued U items s) = add_mset j (mset (queued U items ?s))" by simp
    then have all: "mset (queued U items ?s @ in_flight U ?s) = mset (queued U items s @ in_flight U s)"
      by (simp add: fl)
    have len: "length (queued U items s) = Suc (length (queued U items ?s))"
      using arg_cong[OF m, of size] by simp
    have jn: "j \<in> set (queued U items s @ in_flight U s)" using m by (metis UnCI set_append set_mset_mset union_single_eq_member add_mset_add_single union_commute)
    have J: "st_jobs s j = Some the_job" using D(3) jn by (simp add: jobs_ok_def)
    have db: "length (te_database (st_env s)) = 16384" using D(4) by (simp add: env_ok_def)
    have run: "other_thread U (Take i) s = Inr ?s"
      using i q J db by (simp add: start_job_def main_cb_start_ok)
    have "queue_good U items ?t'" using jo q(2) good by (simp add: queue_good_def)
    then have "\<forall>twq \<in> set (st_tbl ?s). queue_good U items twq"
      using queue_good_put[of U items ?t' "st_tbl s" i] D(2) by simp
    moreover have "jobs_ok U (queued U items ?s @ in_flight U ?s) (st_jobs ?s)"
      using jobs_ok_mset[OF all D(3)] by simp
    moreover have "env_ok U (set (queued U items ?s @ in_flight U ?s)) (st_env ?s)"
      using D(4) mset_eq_setD[OF all] by (simp add: env_ok_def)
    moreover have l2: "length (queued U items ?s @ in_flight U ?s) = length (queued U items s @ in_flight U s)"
      using arg_cong[OF all, of size] by (simp only: size_mset)
    have "te_start (st_env ?s) = of_nat (Suc (n - length (queued U items s))) - of_nat c" using D(6) by simp
    moreover have "Suc (n - length (queued U items s)) = n - length (queued U items ?s)" using D(5) len by simp
    ultimately have "test_inv U items c n ?s"
      using D(1,5,7) l2 unfolding test_inv_def by (simp del: of_nat_Suc)
    then show ?thesis using run len i Cons by (intro exI[of _ ?s]) simp
  qed
qed

lemma grace_keeps:
  assumes inv: "test_inv U items c n s"
  shows "\<exists>s'. other_thread U Grace s = Inr s' \<and> test_inv U items c n s'
    \<and> queued U items s' = queued U items s \<and> in_flight U s' = tl (in_flight U s)"
proof (cases "st_rcu s")
  case Nil
  then show ?thesis using inv by (simp add: in_flight_def)
next
  case (Cons head heads)
  note D = test_invD[OF inv]
  let ?j = "head - rcu_head_off U"
  have fl: "in_flight U s = ?j # in_flight U (s\<lparr>st_rcu := heads\<rparr>)" by (simp add: in_flight_def Cons)
  have J: "st_jobs s ?j = Some the_job" using D(3) fl by (simp add: jobs_ok_def)
  obtain fs where fs: "pool_inv (te_pool (st_env s)) fs (set (queued U items s @ in_flight U s))"
      "\<forall>p \<in> set fs. p + lfq_node_off U \<noteq> NULL"
    using D(4) by (auto simp: env_ok_def)
  have c: "\<not> mp_locked (te_pool (st_env s))" "dtor_ok (te_pool (st_env s))"
    using D(4) by (auto simp: env_ok_def dtor_ok_def)
  have jin: "?j \<in> set (queued U items s @ in_flight U s)" using fl by simp
  obtain p where p: "mempool_free ?j (te_pool (st_env s)) = Inr p"
      "pool_inv p (?j # fs) (set (queued U items s @ in_flight U s) - {?j})"
      "p = (te_pool (st_env s))\<lparr>mem := mem p\<rparr>"
    by (rule mempool_free_ok[OF fs(1) jin c])
  have conf: "mp_locked p = mp_locked (te_pool (st_env s))" "mp_ctor p = mp_ctor (te_pool (st_env s))"
    "mp_dtor p = mp_dtor (te_pool (st_env s))" by (subst p(3), simp)+
  let ?s = "s\<lparr>st_rcu := heads, st_env := (st_env s)\<lparr>te_pool := p, te_finish := te_finish (st_env s) + 1\<rparr>\<rparr>"
  have run: "other_thread U Grace s = Inr ?s"
    using Cons J p(1) by (simp add: exec_finish_rcu_def Let_def main_cb_finish_def)
  have q: "queued U items ?s = queued U items s" by (rule queued_cong) simp
  have fl': "in_flight U s = ?j # in_flight U ?s" using fl by (simp add: in_flight_def)
  have d: "distinct (queued U items s @ in_flight U s)" using D(3) by (simp add: jobs_ok_def)
  have jo: "jobs_ok U (queued U items ?s @ in_flight U ?s) (st_jobs ?s)"
    using D(3) fl' q by (auto simp: jobs_ok_def)
  have "set (queued U items s @ in_flight U s) - {?j} = set (queued U items ?s @ in_flight U ?s)"
    using d fl' q by auto
  moreover have "\<forall>p \<in> set (?j # fs). p + lfq_node_off U \<noteq> NULL" using fs(2) D(3) jin by (auto simp: jobs_ok_def)
  ultimately have "env_ok U (set (queued U items ?s @ in_flight U ?s)) (st_env ?s)"
    using p(2) conf D(4) unfolding env_ok_def by (intro conjI exI[of _ "?j # fs"]) auto
  moreover have "te_finish (st_env ?s) = of_nat (Suc (n - length (queued U items s @ in_flight U s)))" using D(7) by simp
  moreover have "Suc (n - length (queued U items s @ in_flight U s)) = n - length (queued U items ?s @ in_flight U ?s)"
    using D(5) fl' q by simp
  ultimately have "test_inv U items c n ?s"
    using D(1,2,5,6) jo fl' q unfolding test_inv_def by (simp del: of_nat_Suc)
  then show ?thesis using run q fl' by (intro exI[of _ ?s]) simp
qed

lemma others_keep:
  assumes "lfq_fifo U items" and "test_inv U items c n s"
  shows "\<exists>s'. others_run U evs s = Inr s' \<and> test_inv U items c n s'"
  using assms(2)
proof (induction evs arbitrary: s)
  case Nil
  then show ?case by (simp add: others_run_def)
next
  case (Cons ev evs)
  obtain s1 where "other_thread U ev s = Inr s1" "test_inv U items c n s1"
    using take_keeps[OF assms(1) Cons.prems] grace_keeps[OF Cons.prems] by (cases ev) blast+
  then show ?case using Cons.IH[of s1] by (simp add: others_run_def)
qed


section \<open>The adding threads keep it\<close>

text \<open>
  What is asked of the library and of \<open>malloc\<close>: initialising a node that is in no queue changes
  no queue; new memory is nobody's, and its node does not lie at address 0.
\<close>

definition node_init_ok :: "'q urcu \<Rightarrow> ('q \<Rightarrow> ptr list) \<Rightarrow> bool" where
  "node_init_ok U items \<longleftrightarrow> (\<forall>n q. n \<notin> set (items q) \<longrightarrow> items (lfq_node_init U n q) = items q)"

definition good_malloc :: "'q urcu \<Rightarrow> (slice_mem \<Rightarrow> malloc_result) \<Rightarrow> bool" where
  "good_malloc U f \<longleftrightarrow> (\<forall>m. fresh_block (f m) m \<and> (\<forall>p l g. f m = Some (p, l, g) \<longrightarrow> p + lfq_node_off U \<noteq> NULL))"

lemma alloc_slice_new:
  assumes "pool_inv s [] U" and "alloc_slice r s = Inr (p, s')" and "p \<noteq> NULL"
  shows "\<exists>l g. r = Some (p, l, g)"
  using assms list_empty_dlist[OF pool_invD(1)[OF assms(1)]]
  by (auto simp: alloc_slice_def bug_on_def split: if_splits option.splits)

lemma alloc_env:
  assumes e: "env_ok U H e" and f: "good_malloc U f"
  shows "\<exists>j p. mempool_alloc (f (mem (te_pool e))) (te_pool e) = Inr (j, p)
    \<and> (if j = NULL then env_ok U H (e\<lparr>te_pool := p\<rparr>)
       else j \<notin> H \<and> j + lfq_node_off U \<noteq> NULL \<and> env_ok U (insert j H) (e\<lparr>te_pool := p\<rparr>))"
proof -
  let ?s = "te_pool e" and ?r = "f (mem (te_pool e))"
  obtain fs where fs: "pool_inv ?s fs H" "\<forall>p \<in> set fs. p + lfq_node_off U \<noteq> NULL"
    and c: "\<not> mp_locked ?s" "mp_ctor ?s = None" "mp_dtor ?s = None" "length (te_database e) = 16384"
    using e by (auto simp: env_ok_def)
  have fr: "fresh_block ?r (mem ?s)" using f by (simp add: good_malloc_def)
  obtain j p where a: "alloc_slice ?r ?s = Inr (j, p)" "same_conf ?s p"
      "j = NULL \<Longrightarrow> fs = [] \<and> pool_inv p [] H"
      "j \<noteq> NULL \<Longrightarrow> pool_inv p (tl fs) (insert j H) \<and> j \<notin> H \<and> (fs \<noteq> [] \<longrightarrow> j = hd fs)"
    using alloc_slice_ok[OF fs(1) fr] by metis
  have pc: "\<not> mp_locked p" "mp_ctor p = None" "mp_dtor p = None" using a(2) c by (simp_all add: same_conf_def)
  have run: "mempool_alloc ?r ?s = Inr (j, p)" using mempool_alloc_eq[OF c(1) a(1,2)] pc(2) by simp
  have off: "j + lfq_node_off U \<noteq> NULL" if "j \<noteq> NULL"
  proof (cases fs)
    case Nil
    then have "pool_inv ?s [] H" using fs(1) by simp
    from alloc_slice_new[OF this a(1) that] obtain l g where "?r = Some (j, l, g)" by blast
    then show ?thesis using f unfolding good_malloc_def by blast
  next
    case (Cons x xs)
    then show ?thesis using fs(2) a(4)[OF that] by simp
  qed
  have "set (tl fs) \<subseteq> set fs" by (cases fs) auto
  then have tl: "\<forall>p \<in> set (tl fs). p + lfq_node_off U \<noteq> NULL" using fs(2) by blast
  show ?thesis
  proof (cases "j = NULL")
    case True
    then show ?thesis using run a(3) pc c(4) by (auto simp: env_ok_def intro!: exI[of _ "[]"])
  next
    case False
    then have "env_ok U (insert j H) (e\<lparr>te_pool := p\<rparr>)"
      using a(4) tl pc c(4) by (auto simp: env_ok_def)
    then show ?thesis using run a(4) off False by auto
  qed
qed

lemma map_jobs_init:
  assumes "node_init_ok U items" and "lfq_fifo U items" and "j \<notin> set (queued U items s)"
    and good: "\<forall>twq \<in> set (st_tbl s). queue_good U items twq"
  shows "map (jobs_of U items) (st_tbl (init_job U j s)) = map (jobs_of U items) (st_tbl s)"
    and "\<forall>twq \<in> set (st_tbl (init_job U j s)). queue_good U items twq"
proof -
  have same: "items (lfq_node_init U (j + lfq_node_off U) (tq_lfq twq)) = items (tq_lfq twq)"
    if t: "twq \<in> set (st_tbl s)" for twq
  proof -
    have "j \<notin> set (jobs_of U items twq)" using assms(3) t by (auto simp: queued_def)
    then have "j + lfq_node_off U \<notin> set (items (tq_lfq twq))" by (force simp: jobs_of_def)
    then show ?thesis using assms(1) by (simp add: node_init_ok_def)
  qed
  then show "map (jobs_of U items) (st_tbl (init_job U j s)) = map (jobs_of U items) (st_tbl s)"
    by (auto simp: init_job_def threadwq_job_init_def jobs_of_def)
  show "\<forall>twq \<in> set (st_tbl (init_job U j s)). queue_good U items twq"
    using good same by (auto simp: init_job_def threadwq_job_init_def queue_good_def holds_jobs_def jobs_of_def)
qed

lemma added:
  assumes inv: "test_inv U items c n s"
    and tbl: "map (jobs_of U items) (st_tbl s') = (map (jobs_of U items) (st_tbl s))[i := jobs_of U items (st_tbl s ! i) @ [j]]"
    and i: "i < 4" and good: "\<forall>twq \<in> set (st_tbl s'). queue_good U items twq"
    and same: "st_rcu s' = st_rcu s" "st_jobs s' = (st_jobs s)(j \<mapsto> the_job)"
      "te_start (st_env s') = te_start (st_env s)" "te_finish (st_env s') = te_finish (st_env s)"
    and env: "env_ok U (insert j (set (queued U items s @ in_flight U s))) (st_env s')"
    and j: "j \<notin> set (queued U items s @ in_flight U s)" "j + lfq_node_off U \<noteq> NULL"
  shows "test_inv U items c (Suc n) s'"
proof -
  note D = test_invD[OF inv]
  have fl: "in_flight U s' = in_flight U s" using same(1) by (rule in_flight_cong)
  have "mset (queued U items s') + mset (jobs_of U items (st_tbl s ! i)) = mset (queued U items s) + mset (jobs_of U items (st_tbl s ! i) @ [j])"
    using mset_concat_upd[of i "map (jobs_of U items) (st_tbl s)" "jobs_of U items (st_tbl s ! i) @ [j]"] i D(1)
    by (simp add: queued_def tbl)
  then have q: "mset (queued U items s') = mset (j # queued U items s)" by simp
  then have m: "mset (queued U items s' @ in_flight U s') = mset (j # queued U items s @ in_flight U s)" by (simp add: fl)
  have len: "length (queued U items s') = Suc (length (queued U items s))"
    "length (queued U items s' @ in_flight U s') = Suc (length (queued U items s @ in_flight U s))"
    using arg_cong[OF q, of size] arg_cong[OF m, of size] by simp_all
  have "length (st_tbl s') = 4" using arg_cong[OF tbl, of length] D(1) by simp
  moreover have "jobs_ok U (j # queued U items s @ in_flight U s) (st_jobs s')"
    using D(3) j same(2) by (auto simp: jobs_ok_def)
  then have "jobs_ok U (queued U items s' @ in_flight U s') (st_jobs s')" by (rule jobs_ok_mset[OF m])
  moreover have "set (queued U items s' @ in_flight U s') = insert j (set (queued U items s @ in_flight U s))"
    using mset_eq_setD[OF m] by simp
  then have "env_ok U (set (queued U items s' @ in_flight U s')) (st_env s')" using env by (simp only:)
  ultimately show ?thesis
    using good D(5,6,7) len same(3,4) unfolding test_inv_def by (simp only: diff_Suc_Suc Suc_le_mono)
qed

text \<open>One allocation, seen from the test\<close>

lemma take_slice_ok:
  assumes inv: "test_inv U items c n s" and f: "good_malloc U (tk_malloc tk)"
  shows "\<exists>j s'. take_slice tk s = Inr (j, s') \<and> st_tbl s' = st_tbl s \<and> st_rcu s' = st_rcu s \<and> st_jobs s' = st_jobs s
    \<and> st_wait s' = st_wait s \<and> te_start (st_env s') = te_start (st_env s) \<and> te_finish (st_env s') = te_finish (st_env s)
    \<and> (if j = NULL then test_inv U items c n s'
       else j \<notin> set (queued U items s @ in_flight U s) \<and> j + lfq_node_off U \<noteq> NULL
         \<and> env_ok U (insert j (set (queued U items s @ in_flight U s))) (st_env s'))"
proof -
  let ?H = "set (queued U items s @ in_flight U s)"
  obtain j p where a: "mempool_alloc (tk_malloc tk (mem (te_pool (st_env s)))) (te_pool (st_env s)) = Inr (j, p)"
      "if j = NULL then env_ok U ?H ((st_env s)\<lparr>te_pool := p\<rparr>)
       else j \<notin> ?H \<and> j + lfq_node_off U \<noteq> NULL \<and> env_ok U (insert j ?H) ((st_env s)\<lparr>te_pool := p\<rparr>)"
    using alloc_env[OF test_invD(4)[OF inv] f] by blast
  let ?s = "s\<lparr>st_env := (st_env s)\<lparr>te_pool := p\<rparr>\<rparr>"
  have q: "queued U items ?s = queued U items s" "in_flight U ?s = in_flight U s"
    by (simp_all add: queued_def in_flight_def)
  have "test_inv U items c n ?s" if "j = NULL"
    using inv a(2) that unfolding test_inv_def q by simp
  then show ?thesis using a by (intro exI[of _ j] exI[of _ ?s]) (auto simp: take_slice_def)
qed

section \<open>The loops\<close>

definition rounds :: "int \<Rightarrow> tick list \<Rightarrow> nat" where
  "rounds ts tks = Suc (length (takeWhile (\<lambda>tk. \<not> time_over ts tk) tks))"

lemma rounds_Cons: "rounds ts (tk # tks) = (if time_over ts tk then 1 else Suc (rounds ts tks))"
  by (simp add: rounds_def)

lemma wait_keeps: "test_inv U items c n (s\<lparr>st_wait := w\<rparr>) = test_inv U items c n s"
  by (simp add: test_inv_def queued_def in_flight_def)

lemma select_ok: "unat (if select + 1 \<ge> TWQNUM then 0 else select + 1 :: u32) < 4"
  by (simp add: TWQNUM_def word_le_nat_alt)

lemma add_one:
  assumes U: "lfq_fifo U items" "node_init_ok U items" and inv: "test_inv U items c n s"
    and s1: "st_tbl s1 = st_tbl s" "st_rcu s1 = st_rcu s" "st_jobs s1 = st_jobs s" "st_wait s1 = st_wait s"
      "te_start (st_env s1) = te_start (st_env s)" "te_finish (st_env s1) = te_finish (st_env s)"
    and j: "j \<noteq> NULL" "j \<notin> set (queued U items s @ in_flight U s)" "j + lfq_node_off U \<noteq> NULL"
    and env: "env_ok U (insert j (set (queued U items s @ in_flight U s))) (st_env s1)" and i: "i < 4"
  shows "\<exists>twq. at_index i (threadwq_add_job U t j) (st_tbl (init_job U j s1)) = Inr twq
    \<and> test_inv U items c (Suc n) ((init_job U j s1)\<lparr>st_tbl := (st_tbl (init_job U j s1))[i := twq]\<rparr>)"
proof -
  let ?s = "init_job U j s1"
  note D = test_invD[OF inv]
  have nq: "j \<notin> set (queued U items s1)" using j(2) queued_cong[OF s1(1), of U items] by simp
  have good: "\<forall>twq \<in> set (st_tbl s1). queue_good U items twq" using D(2) s1(1) by simp
  note mj = map_jobs_init[OF U(2,1) nq good]
  have len: "length (st_tbl ?s) = 4" using D(1) s1(1) by (simp add: init_job_def)
  let ?t = "st_tbl ?s ! i"
  have tin: "?t \<in> set (st_tbl ?s)" using i len by simp
  have jt: "jobs_of U items ?t = jobs_of U items (st_tbl s ! i)"
    using arg_cong[OF mj(1), of "\<lambda>l. l ! i"] i len D(1) s1(1) by simp
  have "j \<notin> set (jobs_of U items ?t)"
    using nq i len arg_cong[OF mj(1), of "\<lambda>l. set (concat l)"] tin by (auto simp: queued_def)
  then have "queue_ok U items {j} ?t" using mj(2) tin by (auto simp: queue_ok_def queue_good_def)
  from add_job_ok(1)[OF U(1) this _ j(1,3), of t]
  obtain twq where twq: "threadwq_add_job U t j ?t = Inr twq" "queue_ok U items ({j} - {j}) twq"
      "jobs_of U items twq = jobs_of U items ?t @ [j]" by auto
  have qg: "queue_good U items twq" using twq(2) by (simp add: queue_ok_def queue_good_def)
  let ?s' = "?s\<lparr>st_tbl := (st_tbl ?s)[i := twq]\<rparr>"
  have "test_inv U items c (Suc n) ?s'"
  proof (rule added[OF inv _ i])
    show "map (jobs_of U items) (st_tbl ?s') = (map (jobs_of U items) (st_tbl s))[i := jobs_of U items (st_tbl s ! i) @ [j]]"
      using mj(1) twq(3) jt s1(1) by (simp add: map_update)
    show "\<forall>twq\<in>set (st_tbl ?s'). queue_good U items twq"
      using queue_good_put[OF qg mj(2)] by simp
  qed (use s1 env j in \<open>simp_all add: init_job_def\<close>)
  then show ?thesis using twq(1) i len by (auto simp: at_index_def)
qed

lemma other_thread_wait: "other_thread U ev s = Inr s' \<Longrightarrow> st_wait s' = st_wait s"
  by (cases ev) (auto simp: Let_def bindR_eq_Inr split: if_splits prod.splits list.splits)

lemma others_wait: "others_run U evs s = Inr s' \<Longrightarrow> st_wait s' = st_wait s"
proof (induction evs arbitrary: s)
  case Nil
  then show ?case by (simp add: others_run_def)
next
  case (Cons ev evs)
  then obtain s1 where "other_thread U ev s = Inr s1" "others_run U evs s1 = Inr s'"
    by (auto simp: others_run_def bindR_eq_Inr)
  then show ?case using Cons.IH[of s1] other_thread_wait by metis
qed

lemma threadfunc2_runs:
  assumes U: "lfq_fifo U items" "node_init_ok U items"
    and "test_inv U items c n s" and "\<forall>tk \<in> set tks. good_malloc U (tk_malloc tk)"
    and "\<exists>tk \<in> set tks. time_over ts tk"
  shows "\<exists>s' m w. threadfunc2 U ts tks sel s = Inr s' \<and> test_inv U items c (n + m) s'
    \<and> st_wait s' = st_wait s + of_nat w \<and> m + w \<le> rounds ts tks \<and> rounds ts tks \<le> Suc (m + w)"
  using assms(3-)
proof (induction tks arbitrary: n s sel)
  case Nil
  then show ?case by simp
next
  case (Cons tk tks)
  obtain s1 where s1: "others_run U (tk_events tk) s = Inr s1" "test_inv U items c n s1"
    using others_keep[OF U(1) Cons.prems(1)] by blast
  have w1: "st_wait s1 = st_wait s" using others_wait[OF s1(1)] .
  have f: "good_malloc U (tk_malloc tk)" using Cons.prems(2) by simp
  let ?sel = "if sel + 1 \<ge> TWQNUM then 0 else sel + 1"
  obtain j s2 where t: "take_slice tk s1 = Inr (j, s2)" "st_tbl s2 = st_tbl s1" "st_rcu s2 = st_rcu s1"
      "st_jobs s2 = st_jobs s1" "st_wait s2 = st_wait s1" "te_start (st_env s2) = te_start (st_env s1)"
      "te_finish (st_env s2) = te_finish (st_env s1)"
      "if j = NULL then test_inv U items c n s2
       else j \<notin> set (queued U items s1 @ in_flight U s1) \<and> j + lfq_node_off U \<noteq> NULL
         \<and> env_ok U (insert j (set (queued U items s1 @ in_flight U s1))) (st_env s2)"
    using take_slice_ok[OF s1(2) f] by blast
  show ?case
  proof (cases "j = NULL")
    case True
    then have inv2: "test_inv U items c n s2" using t(8) by simp
    show ?thesis
    proof (cases "time_over ts tk")
      case over: True
      then have "threadfunc2 U ts (tk # tks) sel s = Inr s2" using s1 t True by (simp add: Let_def)
      then show ?thesis using inv2 over t(5) w1
        by (intro exI[of _ s2] exI[of _ 0] exI[of _ 0]) (simp add: rounds_Cons)
    next
      case False
      let ?s3 = "s2\<lparr>st_wait := st_wait s2 + 1\<rparr>"
      have "test_inv U items c n ?s3" using inv2 by (simp add: wait_keeps)
      from Cons.IH[OF this, of ?sel] Cons.prems False
      obtain s' m w where r: "threadfunc2 U ts tks ?sel ?s3 = Inr s'" "test_inv U items c (n + m) s'"
          "st_wait s' = st_wait ?s3 + of_nat w" "m + w \<le> rounds ts tks" "rounds ts tks \<le> Suc (m + w)" by auto
      have "threadfunc2 U ts (tk # tks) sel s = Inr s'" using s1 t True False r(1) by (simp add: Let_def)
      then show ?thesis using r t(5) w1 False
        by (intro exI[of _ s'] exI[of _ m] exI[of _ "Suc w"]) (simp add: rounds_Cons)
    qed
  next
    case False
    then have j: "j \<notin> set (queued U items s1 @ in_flight U s1)" "j + lfq_node_off U \<noteq> NULL"
        "env_ok U (insert j (set (queued U items s1 @ in_flight U s1))) (st_env s2)" using t(8) by simp_all
    obtain twq where q: "at_index (unat ?sel) (threadwq_add_job U (Adder 0) j) (st_tbl (init_job U j s2)) = Inr twq"
        "test_inv U items c (Suc n) ((init_job U j s2)\<lparr>st_tbl := (st_tbl (init_job U j s2))[unat ?sel := twq]\<rparr>)"
      using add_one[OF U s1(2) t(2-7) False j select_ok[of sel], of "Adder 0"] by blast
    let ?s3 = "(init_job U j s2)\<lparr>st_tbl := (st_tbl (init_job U j s2))[unat ?sel := twq]\<rparr>"
    have w3: "st_wait ?s3 = st_wait s" using t(5) w1 by (simp add: init_job_def)
    have step: "threadfunc2 U ts (tk # tks) sel s = (if time_over ts tk then Inr ?s3 else threadfunc2 U ts tks ?sel ?s3)"
      using s1 t False q(1) by (simp add: Let_def)
    show ?thesis
    proof (cases "time_over ts tk")
      case True
      then show ?thesis using step q(2) w3
        by (intro exI[of _ ?s3] exI[of _ 1] exI[of _ 0]) (simp add: rounds_Cons)
    next
      case no: False
      from Cons.IH[OF q(2), of ?sel] Cons.prems no
      obtain s' m w where r: "threadfunc2 U ts tks ?sel ?s3 = Inr s'" "test_inv U items c (Suc n + m) s'"
          "st_wait s' = st_wait ?s3 + of_nat w" "m + w \<le> rounds ts tks" "rounds ts tks \<le> Suc (m + w)" by auto
      then show ?thesis using step no w3
        by (intro exI[of _ s'] exI[of _ "Suc m"] exI[of _ w]) (simp add: rounds_Cons)
    qed
  qed
qed


definition man_ok :: "'q urcu \<Rightarrow> ('q, genv) threadwq_man \<Rightarrow> bool" where
  "man_ok U man \<longleftrightarrow> (\<exists>fuel others t. man_ops man = threadwq_man_ops_rr4idle (Suc fuel) others U t)
     \<and> twq_pool_nr (man_core man) = 4 \<and> unat (twq_idx (man_core man)) \<le> 4"

lemma add_one_man:
  assumes U: "lfq_fifo U items" "node_init_ok U items" and inv: "test_inv U items c n s" and man: "man_ok U man"
    and s1: "st_tbl s1 = st_tbl s" "st_rcu s1 = st_rcu s" "st_jobs s1 = st_jobs s" "st_wait s1 = st_wait s"
      "te_start (st_env s1) = te_start (st_env s)" "te_finish (st_env s1) = te_finish (st_env s)"
    and j: "j \<noteq> NULL" "j \<notin> set (queued U items s @ in_flight U s)" "j + lfq_node_off U \<noteq> NULL"
    and env: "env_ok U (insert j (set (queued U items s @ in_flight U s))) (st_env s1)"
  shows "\<exists>man'. threadwq_man_add_job j (man\<lparr>man_core := (man_core man)\<lparr>twq_pool := st_tbl (init_job U j s1)\<rparr>\<rparr>) = Inr (0, man')
    \<and> man_ok U man' \<and> test_inv U items c (Suc n) ((init_job U j s1)\<lparr>st_tbl := twq_pool (man_core man')\<rparr>)"
proof -
  let ?s = "init_job U j s1"
  let ?m = "(man_core man)\<lparr>twq_pool := st_tbl ?s\<rparr>"
  note D = test_invD[OF inv]
  have nq: "j \<notin> set (queued U items s1)" using j(2) queued_cong[OF s1(1), of U items] by simp
  have good: "\<forall>twq \<in> set (st_tbl s1). queue_good U items twq" using D(2) s1(1) by simp
  note mj = map_jobs_init[OF U(2,1) nq good]
  have len: "length (st_tbl ?s) = 4" using D(1) s1(1) by (simp add: init_job_def)
  have qs: "queues_of U items ?m = map (jobs_of U items) (st_tbl s)" using mj(1) s1(1) by (simp add: queues_of_def)
  have "queue_ok U items {j} twq" if "twq \<in> set (st_tbl ?s)" for twq
  proof -
    have "set (jobs_of U items twq) \<subseteq> set (concat (map (jobs_of U items) (st_tbl ?s)))" using that by auto
    then have "j \<notin> set (jobs_of U items twq)" using nq unfolding mj(1) queued_def by blast
    then show ?thesis using mj(2) that by (auto simp: queue_ok_def queue_good_def)
  qed
  then have r: "pool_ready U items 4 {j} ?m"
    using U(1) man len j(1,3) by (simp add: pool_ready_def man_ok_def)
  obtain fuel others t where ops: "man_ops man = threadwq_man_ops_rr4idle (Suc fuel) others U t"
    using man by (auto simp: man_ok_def)
  let ?i = "unat (twq_idx ?m) mod 4"
  obtain m' where m': "rr4idle_add_job (Suc fuel) others U t j ?m = Inr (0, m')"
      "queues_of U items m' = (queues_of U items ?m)[?i := queues_of U items ?m ! ?i @ [j]]"
      "pool_ready U items 4 ({j} - {j}) m'"
    using rr4idle_step[OF r, of j fuel others t] by auto
  let ?man' = "man\<lparr>man_core := m'\<rparr>"
  have "threadwq_man_add_job j (man\<lparr>man_core := ?m\<rparr>) = Inr (0, ?man')"
    using m'(1) by (simp add: threadwq_man_add_job_def ops threadwq_man_ops_rr4idle_def)
  moreover have "unat (twq_pool_nr m') = 4" using m'(3) by (simp add: pool_ready_def)
  then have "twq_pool_nr m' = 4" by (simp add: word_unat_eq_iff)
  then have "man_ok U ?man'" using ops m'(3) by (auto simp: man_ok_def pool_ready_def)
  moreover have "test_inv U items c (Suc n) (?s\<lparr>st_tbl := twq_pool m'\<rparr>)"
  proof (rule added[OF inv, where i = ?i])
    show "map (jobs_of U items) (st_tbl (?s\<lparr>st_tbl := twq_pool m'\<rparr>))
        = (map (jobs_of U items) (st_tbl s))[?i := jobs_of U items (st_tbl s ! ?i) @ [j]]"
      using m'(2) D(1) unfolding qs by (simp add: queues_of_def)
    show "\<forall>twq\<in>set (st_tbl (?s\<lparr>st_tbl := twq_pool m'\<rparr>)). queue_good U items twq"
      using m'(3) by (auto simp: pool_ready_def queue_ok_def queue_good_def)
  qed (use s1 env j in \<open>simp_all add: init_job_def\<close>)
  ultimately show ?thesis by (intro exI[of _ ?man']) simp
qed

lemma man_add_ops: "threadwq_man_add_job j man = Inr (r, man') \<Longrightarrow> man_ops man' = man_ops man"
  by (auto simp: threadwq_man_add_job_def bindR_eq_Inr)

lemma threadfunc3_runs:
  assumes U: "lfq_fifo U items" "node_init_ok U items"
    and "test_inv U items c n s" and "\<forall>tk \<in> set tks. good_malloc U (tk_malloc tk)"
    and "\<exists>tk \<in> set tks. time_over ts tk" and "man_ok U man"
  shows "\<exists>s' man' m w. threadfunc3 U ts tks accl man s = Inr (accl + of_nat m, man', s') \<and> test_inv U items c (n + m) s'
    \<and> man_ops man' = man_ops man
    \<and> st_wait s' = st_wait s + of_nat w \<and> m + w \<le> rounds ts tks \<and> rounds ts tks \<le> Suc (m + w)"
  using assms(3-)
proof (induction tks arbitrary: n s accl man)
  case Nil
  then show ?case by simp
next
  case (Cons tk tks)
  obtain s1 where s1: "others_run U (tk_events tk) s = Inr s1" "test_inv U items c n s1"
    using others_keep[OF U(1) Cons.prems(1)] by blast
  have w1: "st_wait s1 = st_wait s" using others_wait[OF s1(1)] .
  have f: "good_malloc U (tk_malloc tk)" using Cons.prems(2) by simp
  obtain j s2 where t: "take_slice tk s1 = Inr (j, s2)" "st_tbl s2 = st_tbl s1" "st_rcu s2 = st_rcu s1"
      "st_jobs s2 = st_jobs s1" "st_wait s2 = st_wait s1" "te_start (st_env s2) = te_start (st_env s1)"
      "te_finish (st_env s2) = te_finish (st_env s1)"
      "if j = NULL then test_inv U items c n s2
       else j \<notin> set (queued U items s1 @ in_flight U s1) \<and> j + lfq_node_off U \<noteq> NULL
         \<and> env_ok U (insert j (set (queued U items s1 @ in_flight U s1))) (st_env s2)"
    using take_slice_ok[OF s1(2) f] by blast
  show ?case
  proof (cases "j = NULL")
    case True
    then have inv2: "test_inv U items c n s2" using t(8) by simp
    show ?thesis
    proof (cases "time_over ts tk")
      case over: True
      then have "threadfunc3 U ts (tk # tks) accl man s = Inr (accl, man, s2)" using s1 t True by (simp add: Let_def)
      then show ?thesis using inv2 over t(5) w1
        by (intro exI[of _ s2] exI[of _ man] exI[of _ 0] exI[of _ 0]) (simp add: rounds_Cons)
    next
      case False
      let ?s3 = "s2\<lparr>st_wait := st_wait s2 + 1\<rparr>"
      have "test_inv U items c n ?s3" using inv2 by (simp add: wait_keeps)
      from Cons.IH[OF this _ _ Cons.prems(4), of accl] Cons.prems False
      obtain s' man' m w where r: "threadfunc3 U ts tks accl man ?s3 = Inr (accl + of_nat m, man', s')" "test_inv U items c (n + m) s'" "man_ops man' = man_ops man"
          "st_wait s' = st_wait ?s3 + of_nat w" "m + w \<le> rounds ts tks" "rounds ts tks \<le> Suc (m + w)" by auto
      have "threadfunc3 U ts (tk # tks) accl man s = Inr (accl + of_nat m, man', s')"
        using s1 t True False r(1) by (simp add: Let_def)
      then show ?thesis using r t(5) w1 False
        by (intro exI[of _ s'] exI[of _ man'] exI[of _ m] exI[of _ "Suc w"]) (simp add: rounds_Cons)
    qed
  next
    case False
    then have j: "j \<notin> set (queued U items s1 @ in_flight U s1)" "j + lfq_node_off U \<noteq> NULL"
        "env_ok U (insert j (set (queued U items s1 @ in_flight U s1))) (st_env s2)" using t(8) by simp_all
    obtain man1 where q: "threadwq_man_add_job j (man\<lparr>man_core := (man_core man)\<lparr>twq_pool := st_tbl (init_job U j s2)\<rparr>\<rparr>) = Inr (0, man1)"
        "man_ok U man1" "test_inv U items c (Suc n) ((init_job U j s2)\<lparr>st_tbl := twq_pool (man_core man1)\<rparr>)"
      using add_one_man[OF U s1(2) Cons.prems(4) t(2-7) False j] by blast
    have ops: "man_ops man1 = man_ops man" using man_add_ops[OF q(1)] by simp
    let ?s3 = "(init_job U j s2)\<lparr>st_tbl := twq_pool (man_core man1)\<rparr>"
    have w3: "st_wait ?s3 = st_wait s" using t(5) w1 by (simp add: init_job_def)
    have step: "threadfunc3 U ts (tk # tks) accl man s
        = (if time_over ts tk then Inr (accl + 1, man1, ?s3) else threadfunc3 U ts tks (accl + 1) man1 ?s3)"
      using s1 t False q(1) by (simp add: Let_def)
    show ?thesis
    proof (cases "time_over ts tk")
      case True
      then show ?thesis using step q(3) w3 ops
        by (intro exI[of _ ?s3] exI[of _ man1] exI[of _ 1] exI[of _ 0]) (simp add: rounds_Cons)
    next
      case no: False
      from Cons.IH[OF q(3) _ _ q(2), of "accl + 1"] Cons.prems no
      obtain s' man' m w where r: "threadfunc3 U ts tks (accl + 1) man1 ?s3 = Inr (accl + 1 + of_nat m, man', s')" "test_inv U items c (Suc n + m) s'" "man_ops man' = man_ops man1"
          "st_wait s' = st_wait ?s3 + of_nat w" "m + w \<le> rounds ts tks" "rounds ts tks \<le> Suc (m + w)" by auto
      then show ?thesis using step no w3 ops
        by (intro exI[of _ s'] exI[of _ man'] exI[of _ "Suc m"] exI[of _ w]) (simp add: rounds_Cons)
    qed
  qed
qed


section \<open>After the test\<close>

definition drained :: "'q urcu \<Rightarrow> ('q \<Rightarrow> ptr list) \<Rightarrow> 'q selftest \<Rightarrow> bool" where
  "drained U items s \<longleftrightarrow> queued U items s = [] \<and> in_flight U s = []"

lemma others_run_Cons: "others_run U (ev # evs) s = bindR (other_thread U ev s) (others_run U evs)"
  by (simp add: others_run_def)

text \<open>The workers can always finish what is left.\<close>

lemma can_drain:
  assumes U: "lfq_fifo U items" and "test_inv U items c n s"
  shows "\<exists>evs s'. others_run U evs s = Inr s' \<and> test_inv U items c n s' \<and> drained U items s'"
  using assms(2)
proof (induction "length (queued U items s)" arbitrary: s)
  case 0
  then show ?case
  proof (induction "length (in_flight U s)" arbitrary: s)
    case 0
    then show ?case by (intro exI[of _ "[]"] exI[of _ s]) (simp add: others_run_def drained_def)
  next
    case (Suc k)
    obtain s1 where s1: "other_thread U Grace s = Inr s1" "test_inv U items c n s1"
        "queued U items s1 = queued U items s" "in_flight U s1 = tl (in_flight U s)"
      using grace_keeps[OF Suc.prems(2)] by blast
    have "k = length (in_flight U s1)" "0 = length (queued U items s1)"
      using s1(3,4) Suc.hyps(2) Suc.prems(1) by simp_all
    from Suc.hyps(1)[OF this s1(2)] obtain evs s' where "others_run U evs s1 = Inr s'"
        "test_inv U items c n s'" "drained U items s'" by blast
    then show ?case using s1(1) by (intro exI[of _ "Grace # evs"] exI[of _ s']) (simp add: others_run_Cons)
  qed
next
  case (Suc k)
  then have "queued U items s \<noteq> []" by auto
  then obtain i where i: "i < length (st_tbl s)" "jobs_of U items (st_tbl s ! i) \<noteq> []"
    by (auto simp: queued_def in_set_conv_nth)
  then obtain s1 where s1: "other_thread U (Take i) s = Inr s1" "test_inv U items c n s1"
      "length (queued U items s1) = length (queued U items s) - 1"
    using take_keeps[OF U Suc.prems, of i] by auto
  have "k = length (queued U items s1)" using s1(3) Suc.hyps(2) by simp
  from Suc.hyps(1)[OF this s1(2)] obtain evs s' where "others_run U evs s1 = Inr s'"
      "test_inv U items c n s'" "drained U items s'" by blast
  then show ?case using s1(1) by (intro exI[of _ "Take i # evs"] exI[of _ s']) (simp add: others_run_Cons)
qed

lemma drained_counts:
  assumes "test_inv U items c n s" and "drained U items s"
  shows "te_start (st_env s) = of_nat n - of_nat c" and "te_finish (st_env s) = of_nat n"
    and "\<exists>k. \<forall>fuel > k. \<exists>p. mempool_exit fuel (te_pool (st_env s)) = Inr (None, p)"
proof -
  note D = test_invD[OF assms(1)]
  have e: "queued U items s = []" "in_flight U s = []" using assms(2) by (auto simp: drained_def)
  show "te_start (st_env s) = of_nat n - of_nat c" "te_finish (st_env s) = of_nat n" using D(6,7) e by simp_all
  obtain fs where "pool_inv (te_pool (st_env s)) fs {}" using D(4) e by (auto simp: env_ok_def)
  then show "\<exists>k. \<forall>fuel > k. \<exists>p. mempool_exit fuel (te_pool (st_env s)) = Inr (None, p)"
    using mempool_exit_ok by (intro exI[of _ "length fs"]) fastforce
qed

text \<open>
  \<open>accounts\<close>: of the rounds each added a job, \<open>m\<close> in all, or counted in \<open>wait\<close>, the last one
  possibly neither. Whatever the other threads then do nothing faults, and they can finish; then
  every job was started and finished, each once, and closing the pool reports no leak.
\<close>

definition accounts :: "'q urcu \<Rightarrow> ('q \<Rightarrow> ptr list) \<Rightarrow> nat \<Rightarrow> nat \<Rightarrow> 'q selftest \<Rightarrow> bool" where
  "accounts U items rs m s \<longleftrightarrow> (\<exists>w. st_wait s = of_nat w \<and> m + w \<le> rs \<and> rs \<le> Suc (m + w))
     \<and> (\<forall>evs. \<exists>s'. others_run U evs s = Inr s' \<and> (drained U items s' \<longrightarrow>
          te_start (st_env s') = of_nat m \<and> te_finish (st_env s') = of_nat m
        \<and> (\<exists>k. \<forall>fuel > k. \<exists>p. mempool_exit fuel (te_pool (st_env s')) = Inr (None, p))))
     \<and> (\<exists>evs s'. others_run U evs s = Inr s' \<and> drained U items s')"

lemma accountsI:
  assumes U: "lfq_fifo U items" and inv: "test_inv U items 0 m s"
    and w: "st_wait s = of_nat w" "m + w \<le> rs" "rs \<le> Suc (m + w)"
  shows "accounts U items rs m s"
proof -
  have "\<exists>s'. others_run U evs s = Inr s' \<and> (drained U items s' \<longrightarrow>
          te_start (st_env s') = of_nat m \<and> te_finish (st_env s') = of_nat m
        \<and> (\<exists>k. \<forall>fuel > k. \<exists>p. mempool_exit fuel (te_pool (st_env s')) = Inr (None, p)))" for evs
    using others_keep[OF U inv, of evs] drained_counts[where c = 0] by fastforce
  then show ?thesis using w can_drain[OF U inv] unfolding accounts_def by blast
qed

section \<open>A concrete start\<close>

text \<open>An empty pool in memory at 4096, four empty queues, and a \<open>malloc\<close> that has one block.\<close>

definition sample_queue :: "(ptr list, genv) threadwq" where
  "sample_queue = \<lparr>tq_exit = 0, tq_exit_ack = 0, tq_running = 1, tq_mutex = None, tq_waiter = False,
     tq_lfq = [], tq_ops = zero_ops, tq_busy = 0\<rparr>"

definition sample_pool :: pool where
  "sample_pool = \<lparr>mp_self = 4096, mp_magic = 0x54085408, mp_sz = 64, mp_name = ''name'', mp_ref = 0,
     mp_max = 8, mp_fail = 0, mp_ctor = None, mp_dtor = None, mp_locked = False,
     mem = \<lparr>lists = [4168 \<mapsto> \<lparr>lh_next = 4168, lh_prev = 4168\<rparr>], magics = (\<lambda>_. None)\<rparr>\<rparr>"

definition sample_test :: "ptr list selftest" where
  "sample_test =
     \<lparr>st_env = \<lparr>te_pool = sample_pool, te_database = replicate 16384 0, te_start = 0, te_finish = 0,
        te_lv = 2, te_printed = []\<rparr>,
      st_tbl = [sample_queue, sample_queue, sample_queue, sample_queue],
      st_jobs = (\<lambda>_. None), st_rcu = [], st_wait = 0\<rparr>"

definition sample_malloc :: "slice_mem \<Rightarrow> malloc_result" where
  "sample_malloc m = (if magics m 8192 = None \<and> lists m 8200 = None
     then Some (8192, \<lparr>lh_next = 0, lh_prev = 0\<rparr>, 0) else None)"

definition sample_man :: "(ptr list, genv) threadwq_man" where
  "sample_man = \<lparr>man_core = \<lparr>twq_pool = [], twq_pool_nr = 4, twq_idx = 0\<rparr>,
     man_ops = threadwq_man_ops_rr4idle (Suc 0) (\<lambda>m. m) list_urcu (Adder 0)\<rparr>"

lemma sample_pool_inv: "pool_inv sample_pool [] {}"
  by (simp add: pool_inv_def sample_pool_def dlist_def nx_def pv_def list_free_off_def sizeof_mempool_slice_def)

lemma sample_test_inv: "test_inv list_urcu (\<lambda>q. q) 0 0 sample_test"
proof -
  have "env_ok list_urcu {} (st_env sample_test)"
    using sample_pool_inv unfolding env_ok_def
    by (intro conjI exI[of _ "[]"]) (simp_all add: sample_test_def sample_pool_def)
  moreover have "queue_good list_urcu (\<lambda>q. q) sample_queue"
    by (simp add: queue_good_def holds_jobs_def jobs_of_def sample_queue_def)
  ultimately show ?thesis
    by (simp add: test_inv_def sample_test_def queued_def in_flight_def jobs_of_def jobs_ok_def sample_queue_def)
qed

lemma sample_world: "node_init_ok list_urcu (\<lambda>q. q)" "good_malloc list_urcu sample_malloc"
  "man_ok list_urcu sample_man"
  by (auto simp: node_init_ok_def list_urcu_def good_malloc_def sample_malloc_def fresh_block_def
      slice_list_off_def man_ok_def sample_man_def)

section \<open>Properties\<close>



text \<open>The test without threads counts its rounds.\<close>

lemma test_threadwq_counts:
  assumes "length (te_database e) = 16384" and "\<exists>now \<in> set nows. now - ts > TEST_TIME"
  shows "test_threadwq ts nows e
    = Inr (e\<lparr>te_start := of_nat (Suc (length (takeWhile (\<lambda>now. \<not> now - ts > TEST_TIME) nows))), te_finish := 0\<rparr>)"
proof -
  have "length (te_database e) = 16384 \<Longrightarrow> test_threadwq_loop ts nows e
    = Inr (e\<lparr>te_start := te_start e + of_nat (Suc (length (takeWhile (\<lambda>now. \<not> now - ts > TEST_TIME) nows)))\<rparr>)" for e
    using assms(2)
  proof (induction nows arbitrary: e)
    case (Cons now nows)
    show ?case
    proof (cases "now - ts > TEST_TIME")
      case True
      then show ?thesis using main_cb_start_ok[OF Cons.prems(1), of NULL NULL] by simp
    next
      case False
      then have "\<exists>now \<in> set nows. now - ts > TEST_TIME" using Cons.prems(2) by auto
      then show ?thesis
        using Cons.IH[of "e\<lparr>te_start := te_start e + 1\<rparr>"] main_cb_start_ok[OF Cons.prems(1), of NULL NULL]
          Cons.prems(1) False by (simp add: add.assoc)
    qed
  qed simp
  from this[of "e\<lparr>te_start := 0, te_finish := 0\<rparr>"] show ?thesis using assms(1) by (simp add: test_threadwq_def)
qed

end
