(* ===== verification/Test_Run.thy ===== *)
theory Test_Run
  imports Selftest C_String
begin

text \<open>
  The self tests of \<open>main.c\<close> from beginning to end: set-up of the queues, the adding thread of
  \<open>Selftest\<close>, the stop of the workers, the printed statistics, and the part of \<open>main\<close> around them,
  from \<open>mempool_init\<close> to \<open>mempool_exit\<close>. Finish callbacks may still be pending when a test is
  over; the theorem at the end says what becomes of them.
\<close>

section \<open>The world of one test\<close>

text \<open>
  \<open>w_raw\<close> and \<open>w_man\<close>: what the stack held. \<open>w_created\<close>: which workers could be created;
  \<open>w_thread\<close>: whether the adding thread could; \<open>w_rcu\<close>: whether \<open>create_all_cpu_call_rcu_data\<close>
  succeeds. \<open>w_ts\<close>, \<open>w_ticks\<close>, \<open>w_now\<close>: the clock and what happens in the rounds, as in
  \<open>threadfunc2\<close>. \<open>w_stop i\<close>: what the others do until worker \<open>i\<close> sees that it should end;
  \<open>w_late\<close>: how many callbacks come before the last line is printed. \<open>w_queue i\<close> is the address of
  a queue, \<open>w_show\<close> is \<open>%p\<close>.
\<close>

record 'q world =
  w_fuel :: nat
  w_raw :: "('q, genv) threadwq list"
  w_man :: "('q, genv) threadwq_man"
  w_created :: "nat \<Rightarrow> bool"
  w_rcu :: bool
  w_thread :: bool
  w_ts :: int
  w_ticks :: "tick list"
  w_now :: int
  w_stop :: "nat \<Rightarrow> event list"
  w_late :: nat
  w_queue :: "nat \<Rightarrow> ptr"
  w_show :: "ptr \<Rightarrow> string"

section \<open>The workers at their start and end\<close>

definition st_say :: "(stream \<times> string) list \<Rightarrow> 'q selftest \<Rightarrow> 'q selftest" where
  "st_say ms s = s\<lparr>st_env := (st_env s)\<lparr>te_printed := te_printed (st_env s) @ ms\<rparr>\<rparr>"

text \<open>\<open>thread_func\<close> up to \<open>twq->running = 1\<close>\<close>

definition worker_begins :: "'q world \<Rightarrow> nat \<Rightarrow> 'q selftest \<Rightarrow> 'q selftest res" where
  "worker_begins w i s = at_index i (\<lambda>twq.
     let s = st_say (VBS ''thread_func:212'' (''twq '' @ w_show w (w_queue w i) @ '' online'') (te_lv (st_env s))) s in
     case worker_init (tq_ops twq) of
       None \<Rightarrow> Inr s
     | Some f \<Rightarrow>
         (let (ret, g) = f (w_queue w i) (worker_init_priv (tq_ops twq)) (Inr (st_env s)) in
          bindR g (\<lambda>e. bug_on (ret \<noteq> 0) (Inr (s\<lparr>st_env := e\<rparr>))))) (st_tbl s)"

text \<open>\<open>thread_func\<close> from the end of its loop: the flush, the hook\<close>

definition flush :: "'q urcu \<Rightarrow> nat \<Rightarrow> nat \<Rightarrow> 'q selftest \<Rightarrow> 'q selftest res" where
  "flush U fuel i s = at_index i (\<lambda>twq.
     bindR (exec_pending_jobs fuel U (st_jobs s) \<lparr>wk_lfq = tq_lfq twq, wk_rcu = st_rcu s, wk_env = Inr (st_env s)\<rparr>)
       (\<lambda>(accl, wk). bindR (wk_env wk) (\<lambda>e.
          Inr (s\<lparr>st_tbl := (st_tbl s)[i := twq\<lparr>tq_lfq := wk_lfq wk\<rparr>], st_rcu := wk_rcu wk, st_env := e\<rparr>)))) (st_tbl s)"

definition worker_leaves :: "'q world \<Rightarrow> nat \<Rightarrow> 'q selftest \<Rightarrow> 'q selftest res" where
  "worker_leaves w i s = at_index i (\<lambda>twq.
     let s = st_say (VBS ''thread_func:265'' (''twq '' @ w_show w (w_queue w i) @ '' offline'') (te_lv (st_env s))) s in
     case worker_exit (tq_ops twq) of
       None \<Rightarrow> Inr s
     | Some f \<Rightarrow> bindR (f (w_queue w i) (worker_exit_priv (tq_ops twq)) (Inr (st_env s))) (\<lambda>e. Inr (s\<lparr>st_env := e\<rparr>))) (st_tbl s)"

section \<open>Before and after the adding thread\<close>

definition test_ops :: "'q world \<Rightarrow> genv threadwq_ops" where
  "test_ops w = THREQDWQ_OPS_INITIALIZER (Some (cb_init_worker (w_show w))) NULL (Some (cb_exit_worker (w_show w))) NULL"

text \<open>
  The first half of \<open>test_threadwq2\<close> and \<open>test_threadwq3\<close>. \<open>threadwq_exec_multi\<close> waits for each
  worker before it creates the next one, so their hooks run in the order of the table.
\<close>

definition set_up :: "'q urcu \<Rightarrow> 'q world \<Rightarrow> 'q selftest \<Rightarrow> 'q selftest res" where
  "set_up U w s =
     (let s = s\<lparr>st_env := (st_env s)\<lparr>te_start := 0, te_finish := 0\<rparr>, st_wait := 0\<rparr> in
      bindR (threadwq_init_multi U (w_fuel w) (\<lambda>i twq. twq) TWQNUM (w_raw w)) (\<lambda>(ret, tbl).
      bug_on (ret \<noteq> 0)
        (bindR (threadwq_set_ops_multi (test_ops w) TWQNUM tbl) (\<lambda>tbl.
         bindR (threadwq_exec_multi (w_fuel w) (\<lambda>i twq. twq\<lparr>tq_running := 1\<rparr>) (w_created w) TWQNUM tbl) (\<lambda>(ret, tbl).
         bug_on (ret \<noteq> 0)
           (seqR (map (worker_begins w) [0..<unat TWQNUM]) (s\<lparr>st_tbl := tbl\<rparr>)))))))"

text \<open>
  The second half: \<open>threadwq_exit_multi\<close>, with what the workers do before they acknowledge, the
  callbacks that come in time, and the last line. \<open>free_all_cpu_call_rcu_data\<close> calls none.
\<close>

definition push_offline :: "'q selftest \<Rightarrow> 'q selftest res" where
  "push_offline s = Inr (st_say (VBS ''kill_online_worker:82'' ''Push worker to offline'' (te_lv (st_env s))) s)"

definition stop_worker :: "'q urcu \<Rightarrow> 'q world \<Rightarrow> nat \<Rightarrow> 'q selftest \<Rightarrow> 'q selftest res" where
  "stop_worker U w i = seqR [push_offline, others_run U (w_stop w i), flush U (w_fuel w) i, worker_leaves w i]"

definition stop_workers :: "'q urcu \<Rightarrow> 'q world \<Rightarrow> 'q selftest \<Rightarrow> 'q selftest res" where
  "stop_workers U w s =
     bindR (seqR (map (stop_worker U w) [0..<unat TWQNUM]) s) (\<lambda>s.
     bindR (threadwq_exit_multi (w_fuel w) (\<lambda>i twq. twq\<lparr>tq_exit_ack := 1\<rparr>) TWQNUM (st_tbl s)) (\<lambda>tbl.
       Inr (s\<lparr>st_tbl := tbl\<rparr>)))"

definition nl :: string where
  "nl = [CHR 0x0A]"

definition last_line :: "'q selftest \<Rightarrow> 'q selftest" where
  "last_line s = st_say [(Stdout, CHR 0x09 # ''--> cnt='' @ dec (unat (te_start (st_env s)))
     @ '' free='' @ dec (unat (te_finish (st_env s))) @ '', wait='' @ dec (unat (st_wait s)) @ nl)] s"

definition end_test :: "'q urcu \<Rightarrow> 'q world \<Rightarrow> 'q selftest \<Rightarrow> 'q selftest res" where
  "end_test U w s = bindR (others_run U (replicate (w_late w) Grace) s) (\<lambda>s. Inr (last_line s))"

section \<open>The tests\<close>

text \<open>
  The events are complete operations, so the manager of test 3 never sees a mutex taken.
\<close>

text \<open>The difference of two \<open>time_t\<close> under \<open>%lu\<close>\<close>

definition elapsed :: "int \<Rightarrow> int \<Rightarrow> string" where
  "elapsed now ts = dec (unat (of_int (now - ts) :: u64))"

definition test_threadwq1 :: "int \<Rightarrow> int list \<Rightarrow> int \<Rightarrow> 'q selftest \<Rightarrow> 'q selftest res" where
  "test_threadwq1 ts nows now s =
     bindR (test_threadwq ts nows (st_env s)) (\<lambda>e.
       let s = s\<lparr>st_env := e, st_wait := 0\<rparr> in
       Inr (last_line (st_say [(Stdout, ''no thread:'' @ nl @ ''cnt='' @ dec (unat (te_start (st_env s)))
         @ '', wait/waste='' @ dec (unat (st_wait s)) @ '' time='' @ elapsed now ts @ nl)] s)))"

text \<open>The last lines of \<open>threadfunc2\<close> and \<open>threadfunc3\<close>\<close>

definition summary2 :: "'q world \<Rightarrow> 'q selftest \<Rightarrow> 'q selftest" where
  "summary2 w s = st_say [(Stdout, dec (unat TWQNUM) @ '' thread:'' @ nl @ ''cnt='' @ dec (unat (te_start (st_env s)))
     @ '', fail='' @ dec (unat (st_wait s)) @ '' time='' @ elapsed (w_now w) (w_ts w) @ nl)] s"

definition summary3 :: "'q world \<Rightarrow> u32 \<Rightarrow> 'q selftest \<Rightarrow> 'q selftest" where
  "summary3 w accl s = st_say [(Stdout, dec (unat TWQNUM) @ '' thread:'' @ nl @ ''cnt='' @ dec (unat (te_start (st_env s)))
     @ '', expect='' @ dec (unat accl) @ '', fail='' @ dec (unat (st_wait s)) @ '' time='' @ elapsed (w_now w) (w_ts w) @ nl)] s"

definition test_threadwq2 :: "'q urcu \<Rightarrow> 'q world \<Rightarrow> 'q selftest \<Rightarrow> 'q selftest res" where
  "test_threadwq2 U w s =
     bindR (set_up U w s) (\<lambda>s.
     bug_on (\<not> w_rcu w) (bug_on (\<not> w_thread w)
       (bindR (threadfunc2 U (w_ts w) (w_ticks w) 0 s) (\<lambda>s.
        bindR (stop_workers U w (summary2 w s))
          (end_test U w)))))"

definition test_threadwq3 :: "'q urcu \<Rightarrow> 'q world \<Rightarrow> 'q selftest \<Rightarrow> 'q selftest res" where
  "test_threadwq3 U w s =
     bindR (set_up U w s) (\<lambda>s.
     bindR (threadwq_man_init (Some (w_man w)) (Some (st_tbl s)) TWQNUM
              (Some (threadwq_man_ops_rr4idle (Suc (w_fuel w)) (\<lambda>m. m) U (Adder 0)))) (\<lambda>(ret, man).
     bug_on (ret \<noteq> 0) (bug_on (\<not> w_rcu w) (bug_on (\<not> w_thread w)
       (bindR (threadfunc3 U (w_ts w) (w_ticks w) 0 man s) (\<lambda>(accl, man, s).
        bindR (stop_workers U w (summary3 w accl s)) (\<lambda>s.
        bindR (threadwq_man_exit (Some man)) (\<lambda>man. end_test U w s))))))))"

section \<open>The end of \<open>main\<close>\<close>

text \<open>\<open>mp\<close> is the address of the pool, \<open>sz\<close> is \<open>sizeof(struct threadwq_job)\<close>.\<close>

definition main_tests ::
  "'q urcu \<Rightarrow> ptr \<Rightarrow> u32 \<Rightarrow> int \<Rightarrow> int list \<Rightarrow> int \<Rightarrow> 'q world \<Rightarrow> 'q world \<Rightarrow> 'q selftest \<Rightarrow> 'q selftest res"
where
  "main_tests U mp sz ts nows now w2 w3 s =
     bindR (mempool_init mp (Some ''name'') sz (65536 * 4) None None (te_pool (st_env s))) (\<lambda>(ret, p).
       seqR [test_threadwq1 ts nows now, test_threadwq2 U w2, test_threadwq3 U w3]
         (s\<lparr>st_env := (st_env s)\<lparr>te_pool := p\<rparr>\<rparr>))"

definition main_exit :: "nat \<Rightarrow> 'q selftest \<Rightarrow> ((u64 \<times> string) option \<times> 'q selftest) res" where
  "main_exit fuel s =
     bindR (mempool_exit fuel (te_pool (st_env s))) (\<lambda>(leak, p). Inr (leak, s\<lparr>st_env := (st_env s)\<lparr>te_pool := p\<rparr>\<rparr>))"


section \<open>The hooks stay in place\<close>

abbreviation ops_of :: "'q selftest \<Rightarrow> genv threadwq_ops list" where
  "ops_of s \<equiv> map tq_ops (st_tbl s)"

lemma ops_of_update: "tq_ops twq = ops_of s ! i \<Longrightarrow> map tq_ops ((st_tbl s)[i := twq]) = ops_of s"
  by (simp add: map_update)

lemma at_index_Inr: "at_index i f tbl = Inr x \<Longrightarrow> i < length tbl \<and> f (tbl ! i) = Inr x"
  by (simp add: at_index_def split: if_splits)

lemma other_thread_ops: "other_thread U ev s = Inr s' \<Longrightarrow> ops_of s' = ops_of s"
  by (cases ev) (auto simp: Let_def bindR_eq_Inr map_update list_update_same_conv split: if_splits prod.splits list.splits)

lemma others_ops: "others_run U evs s = Inr s' \<Longrightarrow> ops_of s' = ops_of s"
proof (induction evs arbitrary: s)
  case (Cons ev evs)
  then obtain s1 where "other_thread U ev s = Inr s1" "others_run U evs s1 = Inr s'"
    by (auto simp: others_run_Cons bindR_eq_Inr)
  then show ?case using Cons.IH[of s1] other_thread_ops by metis
qed (simp add: others_run_def)

lemma take_slice_tbl: "take_slice tk s = Inr (j, s') \<Longrightarrow> st_tbl s' = st_tbl s"
  by (auto simp: take_slice_def bindR_eq_Inr)

lemma init_job_ops [simp]: "ops_of (init_job U j s) = ops_of s"
  by (simp add: init_job_def)

lemma add_job_keeps_ops: "threadwq_add_job U t j twq = Inr twq' \<Longrightarrow> tq_ops twq' = tq_ops twq"
  by (auto simp: threadwq_add_job_def bug_on_def mutex_lock_def cond_signal_def mutex_unlock_def split: if_splits)

lemma rr4idle_loop_ops:
  "rr4idle_loop k (\<lambda>m. m) U t j idx m = Inr m' \<Longrightarrow> map tq_ops (twq_pool m') = map tq_ops (twq_pool m)"
proof (induction k arbitrary: idx)
  case (Suc k)
  then show ?case
    by (auto simp: Let_def bindR_eq_Inr on_pool_def at_index_def mutex_lock_def cond_signal_def mutex_unlock_def
        threadwq_add_job_locked_def bug_on_def map_update list_update_same_conv split: if_splits)
qed simp

lemma threadfunc2_ops: "threadfunc2 U ts tks sel s = Inr s' \<Longrightarrow> ops_of s' = ops_of s"
proof (induction tks arbitrary: sel s)
  case (Cons tk tks)
  let ?sel = "if sel + 1 \<ge> TWQNUM then 0 else sel + 1"
  obtain s1 where s1: "others_run U (tk_events tk) s = Inr s1" using Cons.prems by (auto simp: bindR_eq_Inr)
  obtain j s2 where s2: "take_slice tk s1 = Inr (j, s2)" using Cons.prems s1 by (auto simp: bindR_eq_Inr Let_def)
  have o: "ops_of s2 = ops_of s" using others_ops[OF s1] take_slice_tbl[OF s2] by simp
  show ?case
  proof (cases "j = NULL")
    case True
    then show ?thesis using Cons.prems s1 s2 o Cons.IH[of ?sel "s2\<lparr>st_wait := st_wait s2 + 1\<rparr>"]
      by (auto simp: Let_def split: if_splits)
  next
    case False
    let ?s = "init_job U j s2"
    obtain twq where twq: "at_index (unat ?sel) (threadwq_add_job U (Adder 0) j) (st_tbl ?s) = Inr twq"
      using Cons.prems s1 s2 False by (auto simp: Let_def bindR_eq_Inr)
    then have "tq_ops twq = ops_of ?s ! unat ?sel"
      using at_index_Inr[OF twq] add_job_keeps_ops by (metis nth_map)
    then have "ops_of (?s\<lparr>st_tbl := (st_tbl ?s)[unat ?sel := twq]\<rparr>) = ops_of s"
      using ops_of_update[of twq ?s] o by simp
    then show ?thesis using Cons.prems s1 s2 twq False
      Cons.IH[of ?sel "?s\<lparr>st_tbl := (st_tbl ?s)[unat ?sel := twq]\<rparr>"]
      by (auto simp: Let_def split: if_splits)
  qed
qed simp

lemma threadfunc3_ops:
  "threadfunc3 U ts tks accl man s = Inr (a, man', s') \<Longrightarrow> man_ops man = threadwq_man_ops_rr4idle k (\<lambda>m. m) U t
    \<Longrightarrow> ops_of s' = ops_of s"
proof (induction tks arbitrary: accl man s)
  case (Cons tk tks)
  obtain s1 where s1: "others_run U (tk_events tk) s = Inr s1" using Cons.prems by (auto simp: bindR_eq_Inr)
  obtain j s2 where s2: "take_slice tk s1 = Inr (j, s2)" using Cons.prems s1 by (auto simp: bindR_eq_Inr Let_def)
  have o: "ops_of s2 = ops_of s" using others_ops[OF s1] take_slice_tbl[OF s2] by simp
  show ?case
  proof (cases "j = NULL")
    case True
    then show ?thesis using Cons.prems s1 s2 o Cons.IH[of accl man "s2\<lparr>st_wait := st_wait s2 + 1\<rparr>"]
      by (auto simp: Let_def split: if_splits)
  next
    case False
    let ?m = "man\<lparr>man_core := (man_core man)\<lparr>twq_pool := st_tbl (init_job U j s2)\<rparr>\<rparr>"
    obtain r man1 where m: "threadwq_man_add_job j ?m = Inr (r, man1)"
      using Cons.prems s1 s2 False by (auto simp: Let_def bindR_eq_Inr)
    then have "map tq_ops (twq_pool (man_core man1)) = ops_of s"
      using Cons.prems(2) o init_job_ops[of U j s2]
      by (auto simp: threadwq_man_add_job_def threadwq_man_ops_rr4idle_def rr4idle_add_job_def bindR_eq_Inr
          simp del: init_job_ops dest!: rr4idle_loop_ops)
    moreover have "man_ops man1 = man_ops man" using man_add_ops[OF m] by simp
    ultimately show ?thesis using Cons.prems s1 s2 m False
      Cons.IH[of "accl + 1" man1 "(init_job U j s2)\<lparr>st_tbl := twq_pool (man_core man1)\<rparr>"]
      by (auto simp: Let_def bug_on_def split: if_splits)
  qed
qed simp

section \<open>The flush\<close>

lemma pending_loop_accl:
  "pending_loop k U J a j w = bindR (pending_loop k U J 0 j w) (\<lambda>(n, w). Inr (a + n, w))"
proof (induction k arbitrary: a j w)
  case (Suc k)
  show ?case
    by (cases "start_job U J j w")
      (auto simp: Let_def split_beta bindR_assoc Suc.IH[of "a + 1"] Suc.IH[of 1] add.assoc intro!: arg_cong[where f = "bindR _"])
qed simp

text \<open>A flush of a queue that has a job is the worker taking it, then the rest of the flush.\<close>

lemma exec_pending_step:
  assumes "dequeue_one_job U (wk_lfq w) = (j, q)" and "j \<noteq> NULL"
  shows "exec_pending_jobs (Suc k) U J w = bindR (start_job U J j (w\<lparr>wk_lfq := q\<rparr>)) (\<lambda>w.
    bindR (exec_pending_jobs k U J w) (\<lambda>(n, w). Inr (n + 1, w)))"
  using assms
  by (cases "start_job U J j (w\<lparr>wk_lfq := q\<rparr>)")
    (auto simp: exec_pending_jobs_def Let_def split_beta pending_loop_accl[of k U J 1] add.commute
      intro!: arg_cong[where f = "bindR _"])

lemma start_job_lfq: "start_job U J j w = Inr w' \<Longrightarrow> wk_lfq w' = wk_lfq w"
  by (auto simp: start_job_def split: option.splits)

lemma flush_step:
  assumes i: "i < length (st_tbl s)" and q: "dequeue_one_job U (tq_lfq (st_tbl s ! i)) = (j, q)" "j \<noteq> NULL"
    and s1: "other_thread U (Take i) s = Inr s1"
  shows "flush U (Suc k) i s = flush U k i s1"
proof -
  let ?t = "st_tbl s ! i"
  obtain w e where w: "start_job U (st_jobs s) j \<lparr>wk_lfq = q, wk_rcu = st_rcu s, wk_env = Inr (st_env s)\<rparr> = Inr w"
      "wk_env w = Inr e" "s1 = s\<lparr>st_tbl := (st_tbl s)[i := ?t\<lparr>tq_lfq := q\<rparr>], st_rcu := wk_rcu w, st_env := e\<rparr>"
    using s1 i q by (auto simp: bindR_eq_Inr)
  have "wk_lfq w = q" using start_job_lfq[OF w(1)] by simp
  then have "w = \<lparr>wk_lfq = tq_lfq (st_tbl s1 ! i), wk_rcu = st_rcu s1, wk_env = Inr (st_env s1)\<rparr>"
    using w(2,3) i by (cases w) simp
  then show ?thesis using exec_pending_step[of U "\<lparr>wk_lfq = tq_lfq ?t, wk_rcu = st_rcu s, wk_env = Inr (st_env s)\<rparr>" j q k "st_jobs s"] w i q
    by (auto simp: flush_def at_index_def bindR_assoc split_beta intro!: arg_cong[where f = "bindR _"])
qed


section \<open>Queues that are empty stay so\<close>

lemma take_queue:
  assumes U: "lfq_fifo U items" and inv: "test_inv U items c n s" and s': "other_thread U (Take i) s = Inr s'" and l: "l < 4"
  shows "jobs_of U items (st_tbl s' ! l) = (if l = i then tl (jobs_of U items (st_tbl s ! l)) else jobs_of U items (st_tbl s ! l))"
proof (cases "i < 4")
  case False
  then show ?thesis using s' test_invD(1)[OF inv] l by auto
next
  case True
  then have il: "i < length (st_tbl s)" using test_invD(1)[OF inv] by simp
  let ?t = "st_tbl s ! i"
  obtain j q where q: "dequeue_one_job U (tq_lfq ?t) = (j, q)" by fastforce
  have tbl: "st_tbl s' = (st_tbl s)[i := ?t\<lparr>tq_lfq := q\<rparr>]"
    using s' il q by (auto simp: Let_def bindR_eq_Inr split: if_splits)
  have h: "holds_jobs U items (tq_lfq ?t) (jobs_of U items ?t)"
    using test_invD(2)[OF inv] il by (simp add: queue_good_def)
  have "holds_jobs U items q (tl (jobs_of U items ?t))"
  proof (cases "jobs_of U items ?t")
    case Nil
    then show ?thesis using dequeue_empty[OF U, of "tq_lfq ?t"] h q by auto
  next
    case (Cons x xs)
    then show ?thesis using dequeue_Cons[OF U, of "tq_lfq ?t" x xs] h q by auto
  qed
  then have "jobs_of U items (?t\<lparr>tq_lfq := q\<rparr>) = tl (jobs_of U items ?t)"
    using holds_jobs_of[of U items "?t\<lparr>tq_lfq := q\<rparr>"] by simp
  then show ?thesis using tbl il l test_invD(1)[OF inv] by simp
qed

lemma others_empty:
  assumes U: "lfq_fifo U items" and "test_inv U items c n s" and "others_run U evs s = Inr s'" and l: "l < 4"
    and "jobs_of U items (st_tbl s ! l) = []"
  shows "jobs_of U items (st_tbl s' ! l) = []"
  using assms(2,3,5)
proof (induction evs arbitrary: s)
  case Nil
  then show ?case by (simp add: others_run_def)
next
  case (Cons ev evs)
  obtain s1 where s1: "other_thread U ev s = Inr s1" "test_inv U items c n s1"
    using take_keeps[OF U Cons.prems(1)] grace_keeps[OF Cons.prems(1)] by (cases ev) blast+
  have "jobs_of U items (st_tbl s1 ! l) = []"
  proof (cases ev)
    case (Take i)
    then show ?thesis using take_queue[OF U Cons.prems(1) _ l, of i s1] s1(1) Cons.prems(3) by auto
  next
    case Grace
    then have "st_tbl s1 = st_tbl s" using s1(1) by (auto simp: bindR_eq_Inr split: list.splits)
    then show ?thesis using Cons.prems(3) by simp
  qed
  then show ?case using Cons.IH[OF s1(2)] Cons.prems(2) s1(1) by (simp add: others_run_Cons)
qed

section \<open>A flush is the worker taking jobs\<close>

lemma flush_empty:
  assumes U: "lfq_fifo U items" and inv: "test_inv U items c n s" and i: "i < 4" "jobs_of U items (st_tbl s ! i) = []"
  shows "flush U k i s = other_thread U (Take i) s"
proof -
  have il: "i < length (st_tbl s)" using i test_invD(1)[OF inv] by simp
  then have "queue_good U items (st_tbl s ! i)" using test_invD(2)[OF inv] by simp
  then obtain q where "dequeue_one_job U (tq_lfq (st_tbl s ! i)) = (NULL, q)"
    using dequeue_empty[OF U] i(2) unfolding queue_good_def by metis
  then show ?thesis using il by (simp add: flush_def at_index_def exec_pending_jobs_def)
qed

lemma flush_takes:
  assumes U: "lfq_fifo U items" and "test_inv U items c n s" and "i < 4"
    and "length (jobs_of U items (st_tbl s ! i)) \<le> k"
  shows "\<exists>evs s'. flush U k i s = Inr s' \<and> others_run U evs s = Inr s' \<and> test_inv U items c n s'
    \<and> jobs_of U items (st_tbl s' ! i) = []"
  using assms(2-)
proof (induction k arbitrary: s)
  case 0
  obtain s1 where s1: "other_thread U (Take i) s = Inr s1" "test_inv U items c n s1"
    using take_keeps[OF U 0(1), of i] by blast
  then show ?case using flush_empty[OF U 0(1,2), of 0] take_queue[OF U 0(1) s1(1) 0(2)] 0(3)
    by (intro exI[of _ "[Take i]"] exI[of _ s1]) (simp add: others_run_def)
next
  case (Suc k)
  obtain s1 where s1: "other_thread U (Take i) s = Inr s1" "test_inv U items c n s1"
    using take_keeps[OF U Suc.prems(1), of i] by blast
  note t = take_queue[OF U Suc.prems(1) s1(1) Suc.prems(2)]
  show ?case
  proof (cases "jobs_of U items (st_tbl s ! i)")
    case Nil
    then show ?thesis using flush_empty[OF U Suc.prems(1,2) Nil] s1 t
      by (intro exI[of _ "[Take i]"] exI[of _ s1]) (simp add: others_run_def)
  next
    case (Cons j js)
    have il: "i < length (st_tbl s)" using Suc.prems(2) test_invD(1)[OF Suc.prems(1)] by simp
    then have "queue_good U items (st_tbl s ! i)" using test_invD(2)[OF Suc.prems(1)] by simp
    then obtain q where "dequeue_one_job U (tq_lfq (st_tbl s ! i)) = (j, q)" "j \<noteq> NULL"
      using dequeue_Cons[OF U] Cons unfolding queue_good_def by metis
    then have "flush U (Suc k) i s = flush U k i s1" using flush_step[OF il _ _ s1(1)] by blast
    moreover obtain evs s' where "flush U k i s1 = Inr s'" "others_run U evs s1 = Inr s'" "test_inv U items c n s'"
        "jobs_of U items (st_tbl s' ! i) = []"
      using Suc.IH[OF s1(2) Suc.prems(2)] t Cons Suc.prems(3) by auto
    ultimately show ?thesis using s1(1)
      by (intro exI[of _ "Take i # evs"] exI[of _ s']) (simp add: others_run_Cons)
  qed
qed


section \<open>Stopping the workers\<close>

text \<open>What prints and hooks change: nothing the invariant speaks of.\<close>

definition same_counts :: "'q selftest \<Rightarrow> 'q selftest \<Rightarrow> bool" where
  "same_counts s s' \<longleftrightarrow> (\<exists>e. s' = s\<lparr>st_env := e\<rparr> \<and> te_pool e = te_pool (st_env s) \<and> te_start e = te_start (st_env s)
     \<and> te_finish e = te_finish (st_env s) \<and> length (te_database e) = length (te_database (st_env s)))"

lemma same_countsI:
  "te_pool e = te_pool (st_env s) \<Longrightarrow> te_start e = te_start (st_env s) \<Longrightarrow> te_finish e = te_finish (st_env s)
    \<Longrightarrow> length (te_database e) = length (te_database (st_env s)) \<Longrightarrow> same_counts s (s\<lparr>st_env := e\<rparr>)"
  by (auto simp: same_counts_def)

lemma same_counts_say [simp]: "same_counts s (st_say ms s)" "st_tbl (st_say ms s) = st_tbl s" "st_wait (st_say ms s) = st_wait s"
  "st_rcu (st_say ms s) = st_rcu s"
  unfolding st_say_def by (simp_all add: same_countsI)

lemma same_counts_keeps:
  assumes "same_counts s s'"
  shows "test_inv U items c n s \<Longrightarrow> test_inv U items c n s'" and "st_tbl s' = st_tbl s" and "st_wait s' = st_wait s"
    and "st_rcu s' = st_rcu s"
  using assms by (auto simp: same_counts_def test_inv_def queued_def in_flight_def env_ok_def)

lemma worker_leaves_ok:
  assumes "i < length (st_tbl s)" and "ops_of s = replicate m (test_ops w)" and "length (te_database (st_env s)) = 16384"
  shows "\<exists>s'. worker_leaves w i s = Inr s' \<and> same_counts s s'"
proof -
  have "tq_ops (st_tbl s ! i) = test_ops w" using arg_cong[OF assms(2), of "\<lambda>l. l ! i"] assms(1)
      arg_cong[OF assms(2), of length] by simp
  then show ?thesis using assms(1)
    by (auto simp: worker_leaves_def at_index_def test_ops_def THREQDWQ_OPS_INITIALIZER_def cb_exit_worker_def st_say_def
        Let_def same_counts_def)
qed

lemma worker_begins_ok:
  assumes "i < length (st_tbl s)" and "ops_of s = replicate m (test_ops w)" and "length (te_database (st_env s)) = 16384"
  shows "\<exists>s'. worker_begins w i s = Inr s' \<and> same_counts s s'"
proof -
  have "tq_ops (st_tbl s ! i) = test_ops w" using arg_cong[OF assms(2), of "\<lambda>l. l ! i"] assms(1)
      arg_cong[OF assms(2), of length] by simp
  then show ?thesis using assms(1,3)
    by (auto simp: worker_begins_def at_index_def test_ops_def THREQDWQ_OPS_INITIALIZER_def cb_init_worker_def st_say_def
        Let_def same_counts_def)
qed

lemma test_inv_db: "test_inv U items c n s \<Longrightarrow> length (te_database (st_env s)) = 16384"
  by (auto simp: test_inv_def env_ok_def)

lemma queue_le: "i < length (st_tbl s) \<Longrightarrow> length (jobs_of U items (st_tbl s ! i)) \<le> length (queued U items s)"
  unfolding queued_def length_concat by (intro member_le_sum_list) auto

abbreviation emptied :: "'q urcu \<Rightarrow> ('q \<Rightarrow> ptr list) \<Rightarrow> nat \<Rightarrow> 'q selftest \<Rightarrow> bool" where
  "emptied U items k s \<equiv> \<forall>l < k. jobs_of U items (st_tbl s ! l) = []"

lemma stop_one:
  assumes U: "lfq_fifo U items" and inv: "test_inv U items c n s" and ops: "ops_of s = replicate 4 (test_ops w)"
    and i: "i < 4" and fuel: "n \<le> w_fuel w" and e: "emptied U items i s"
  shows "\<exists>s'. stop_worker U w i s = Inr s'
    \<and> test_inv U items c n s' \<and> ops_of s' = replicate 4 (test_ops w) \<and> st_wait s' = st_wait s \<and> emptied U items (Suc i) s'"
proof -
  obtain s0 where s0: "push_offline s = Inr s0" "same_counts s s0" by (simp add: push_offline_def)
  note k0 = same_counts_keeps[OF s0(2)]
  obtain s1 where s1: "others_run U (w_stop w i) s0 = Inr s1" "test_inv U items c n s1"
    using others_keep[OF U k0(1)[OF inv]] by blast
  have "length (queued U items s1) \<le> w_fuel w" using test_invD(5)[OF s1(2)] fuel by simp
  then have "length (jobs_of U items (st_tbl s1 ! i)) \<le> w_fuel w"
    using queue_le[of i s1 U items] test_invD(1)[OF s1(2)] i by simp
  from flush_takes[OF U s1(2) i this]
  obtain evs s2 where s2: "flush U (w_fuel w) i s1 = Inr s2" "others_run U evs s1 = Inr s2" "test_inv U items c n s2"
      "jobs_of U items (st_tbl s2 ! i) = []" by blast
  have o: "ops_of s2 = replicate 4 (test_ops w)" using others_ops[OF s1(1)] others_ops[OF s2(2)] k0(2) ops by simp
  have "i < length (st_tbl s2)" using i test_invD(1)[OF s2(3)] by simp
  then obtain s3 where s3: "worker_leaves w i s2 = Inr s3" "same_counts s2 s3"
    using worker_leaves_ok[OF _ o test_inv_db[OF s2(3)]] by blast
  note k3 = same_counts_keeps[OF s3(2)]
  have "jobs_of U items (st_tbl s2 ! l) = []" if "l < i" for l
    using others_empty[OF U s1(2) s2(2)] others_empty[OF U k0(1)[OF inv] s1(1)] e that i k0(2) by simp
  then have "emptied U items (Suc i) s3" using s2(4) k3(2) by (auto simp: less_Suc_eq)
  then show ?thesis using s0(1) s1(1) s2(1) s3(1) k3(1)[OF s2(3)] o k3(2,3) k0(3) others_wait[OF s1(1)] others_wait[OF s2(2)]
    by (intro exI[of _ s3]) (simp add: stop_worker_def)
qed

lemma stop_each:
  assumes U: "lfq_fifo U items" and inv: "test_inv U items c n s" and ops: "ops_of s = replicate 4 (test_ops w)"
    and fuel: "n \<le> w_fuel w" and k: "k \<le> 4"
  shows "\<exists>s'. seqR (map (stop_worker U w) [0..<k]) s = Inr s'
    \<and> test_inv U items c n s' \<and> ops_of s' = replicate 4 (test_ops w) \<and> st_wait s' = st_wait s \<and> emptied U items k s'"
  using k
proof (induction k)
  case 0
  then show ?case using inv ops by simp
next
  case (Suc k)
  then obtain s1 where "seqR (map (stop_worker U w) [0..<k]) s = Inr s1"
      "test_inv U items c n s1" "ops_of s1 = replicate 4 (test_ops w)" "st_wait s1 = st_wait s" "emptied U items k s1" by auto
  moreover from this obtain s2 where
      "stop_worker U w k s1 = Inr s2"
      "test_inv U items c n s2" "ops_of s2 = replicate 4 (test_ops w)" "st_wait s2 = st_wait s1" "emptied U items (Suc k) s2"
    using stop_one[OF U, of c n s1 w k] fuel Suc.prems by auto
  ultimately show ?case by (auto simp: seqR_append intro!: exI[of _ s2])
qed

lemma queued_empty:
  assumes "length (st_tbl s) = 4" shows "queued U items s = [] \<longleftrightarrow> emptied U items 4 s"
  using assms by (auto simp: queued_def all_set_conv_all_nth)

lemma TWQNUM_4 [simp]: "unat TWQNUM = 4"
  by (simp add: TWQNUM_def)

lemma exit_multi_ok:
  fixes tbl :: "('q, 'e) threadwq list"
  assumes "length tbl = 4" and "0 < fuel"
  shows "threadwq_exit_multi fuel (\<lambda>i twq. twq\<lparr>tq_exit_ack := 1\<rparr>) TWQNUM tbl
    = Inr (map (\<lambda>twq. twq\<lparr>tq_exit := tq_exit twq + 1, tq_waiter := False, tq_exit_ack := 1\<rparr>) tbl)"
proof -
  obtain k where "fuel = Suc k" using assms(2) by (cases fuel) auto
  then have run: "threadwq_exit fuel (\<lambda>twq. twq\<lparr>tq_exit_ack := 1\<rparr>) twq
      = Inr (twq\<lparr>tq_exit := tq_exit twq + 1, tq_waiter := False, tq_exit_ack := 1\<rparr>)" for twq :: "('q, 'e) threadwq"
    by (simp add: threadwq_exit_def)
  have "table_loop 0 (unat TWQNUM) (\<lambda>i twq. bindR (threadwq_exit fuel (\<lambda>twq. twq\<lparr>tq_exit_ack := 1\<rparr>) twq) (\<lambda>twq. Inr (False, twq))) tbl
    = Inr (None, take 0 tbl @ map (\<lambda>j. (tbl ! j)\<lparr>tq_exit := tq_exit (tbl ! j) + 1, tq_waiter := False, tq_exit_ack := 1\<rparr>) [0..<unat TWQNUM]
        @ drop (unat TWQNUM) tbl)"
    by (rule table_loop_all) (use assms run in auto)
  also have "map (\<lambda>j. (tbl ! j)\<lparr>tq_exit := tq_exit (tbl ! j) + 1, tq_waiter := False, tq_exit_ack := 1\<rparr>) [0..<unat TWQNUM]
      = map (\<lambda>twq. twq\<lparr>tq_exit := tq_exit twq + 1, tq_waiter := False, tq_exit_ack := 1\<rparr>) tbl"
    using assms(1) by (intro nth_equalityI) auto
  finally show ?thesis using assms(1) by (simp add: threadwq_exit_multi_def)
qed

lemma test_inv_tbl:
  assumes "test_inv U items c n s" and "\<And>twq. tq_lfq (f twq) = tq_lfq twq" and "\<And>twq. tq_mutex (f twq) = tq_mutex twq"
  shows "test_inv U items c n (s\<lparr>st_tbl := map f (st_tbl s)\<rparr>)"
    and "queued U items (s\<lparr>st_tbl := map f (st_tbl s)\<rparr>) = queued U items s"
proof -
  have j: "jobs_of U items (f twq) = jobs_of U items twq" for twq using assms(2) by (simp add: jobs_of_def)
  then show q: "queued U items (s\<lparr>st_tbl := map f (st_tbl s)\<rparr>) = queued U items s"
    by (simp add: queued_def comp_def)
  have "in_flight U (s\<lparr>st_tbl := map f (st_tbl s)\<rparr>) = in_flight U s" by (simp add: in_flight_def)
  then show "test_inv U items c n (s\<lparr>st_tbl := map f (st_tbl s)\<rparr>)"
    using assms(1) j assms(2,3) unfolding test_inv_def q by (simp add: queue_good_def)
qed

lemma stop_workers_ok:
  assumes U: "lfq_fifo U items" and inv: "test_inv U items c n s" and ops: "ops_of s = replicate 4 (test_ops w)"
    and fuel: "n \<le> w_fuel w" "0 < w_fuel w"
  shows "\<exists>s'. stop_workers U w s = Inr s' \<and> test_inv U items c n s' \<and> st_wait s' = st_wait s \<and> queued U items s' = []"
proof -
  obtain s1 where s1: "seqR (map (stop_worker U w) [0..<unat TWQNUM]) s = Inr s1"
      "test_inv U items c n s1" "st_wait s1 = st_wait s" "emptied U items 4 s1"
    using stop_each[OF U inv ops fuel(1), of 4] by auto
  note len = test_invD(1)[OF s1(2)]
  let ?f = "\<lambda>twq. twq\<lparr>tq_exit := tq_exit twq + 1, tq_waiter := False, tq_exit_ack := 1\<rparr>"
  have "stop_workers U w s = Inr (s1\<lparr>st_tbl := map ?f (st_tbl s1)\<rparr>)"
    using s1(1) exit_multi_ok[OF len fuel(2)] by (simp add: stop_workers_def)
  moreover have "queued U items s1 = []" using queued_empty[OF len] s1(4) by blast
  ultimately show ?thesis using test_inv_tbl[OF s1(2), of ?f] s1(3) by simp
qed

section \<open>The set-up\<close>

text \<open>Between two tests some callbacks may still be pending.\<close>

definition between :: "'q urcu \<Rightarrow> 'q selftest \<Rightarrow> bool" where
  "between U s \<longleftrightarrow> jobs_ok U (in_flight U s) (st_jobs s) \<and> env_ok U (set (in_flight U s)) (st_env s)"

lemma test_inv_between: "test_inv U items c n s \<Longrightarrow> queued U items s = [] \<Longrightarrow> between U s"
  by (simp add: test_inv_def between_def)

lemma set_up_table:
  assumes "length raw = 4" and "1 < fuel" and "\<forall>i < 4. created i"
  shows "bindR (threadwq_init_multi U fuel others TWQNUM raw) (\<lambda>(ret, tbl). bug_on (ret \<noteq> 0)
      (bindR (threadwq_set_ops_multi (test_ops w) TWQNUM tbl) (\<lambda>tbl.
        bindR (threadwq_exec_multi fuel (\<lambda>i twq. twq\<lparr>tq_running := 1\<rparr>) created TWQNUM tbl) (\<lambda>(ret, tbl). bug_on (ret \<noteq> 0) (k tbl)))))
    = k (map (\<lambda>twq. (snd (threadwq_init U twq))\<lparr>tq_ops := test_ops w, tq_running := 1\<rparr>) raw)"
proof -
  let ?init = "\<lambda>twq. snd (threadwq_init U twq)"
  have nth: "map (\<lambda>j. g (tbl ! j)) [0..<unat TWQNUM] = map g tbl" if "length tbl = 4" for g and tbl :: "('q, genv) threadwq list"
    using that by (intro nth_equalityI) auto
  have "table_loop 0 (unat TWQNUM) (\<lambda>i twq. let (ret, twq) = threadwq_init U twq in Inr (ret \<noteq> 0, twq)) raw
      = Inr (None, take 0 raw @ map (\<lambda>j. ?init (raw ! j)) [0..<unat TWQNUM] @ drop (unat TWQNUM) raw)"
    by (rule table_loop_all) (use assms in \<open>auto simp: threadwq_init_def\<close>)
  then have i: "threadwq_init_multi U fuel others TWQNUM raw = Inr (0, map ?init raw)"
    using nth[OF assms(1), of ?init] assms(1) by (simp add: threadwq_init_multi_def)
  let ?t = "map (\<lambda>twq. (?init twq)\<lparr>tq_ops := test_ops w\<rparr>) raw"
  have o: "threadwq_set_ops_multi (test_ops w) TWQNUM (map ?init raw) = Inr ?t"
    using threadwq_set_ops_multi_eq[of TWQNUM "map ?init raw" "test_ops w"] assms(1)
    by (simp add: test_ops_def THREQDWQ_OPS_INITIALIZER_def)
  obtain m where m: "fuel = Suc (Suc m)" using assms(2) by (metis less_iff_Suc_add add_Suc One_nat_def plus_nat.add_0)
  have r: "running_loop fuel (\<lambda>twq. twq\<lparr>tq_running := 1\<rparr>) twq = Inr (twq\<lparr>tq_running := 1\<rparr>)" if "twq \<in> set ?t" for twq
    using that m by (auto simp: threadwq_init_def)
  have "table_loop 0 (unat TWQNUM) (\<lambda>i twq. bindR (threadwq_exec fuel (\<lambda>twq. twq\<lparr>tq_running := 1\<rparr>) (created i) twq) (\<lambda>(ret, twq). Inr (ret \<noteq> 0, twq))) ?t
      = Inr (None, take 0 ?t @ map (\<lambda>j. (?t ! j)\<lparr>tq_running := 1\<rparr>) [0..<unat TWQNUM] @ drop (unat TWQNUM) ?t)"
  proof (rule table_loop_all)
    fix j assume "0 \<le> j" "j < unat TWQNUM"
    then show "bindR (threadwq_exec fuel (\<lambda>twq. twq\<lparr>tq_running := 1\<rparr>) (created j) (?t ! j)) (\<lambda>(ret, twq). Inr (ret \<noteq> 0, twq))
        = Inr (False, (?t ! j)\<lparr>tq_running := 1\<rparr>)"
      using r[of "?t ! j"] assms(1,3) by (simp add: threadwq_exec_def)
  qed (use assms in auto)
  then have "threadwq_exec_multi fuel (\<lambda>i twq. twq\<lparr>tq_running := 1\<rparr>) created TWQNUM ?t = Inr (0, map (\<lambda>twq. twq\<lparr>tq_running := 1\<rparr>) ?t)"
    using nth[of ?t "\<lambda>twq. twq\<lparr>tq_running := 1\<rparr>"] assms(1) by (simp add: threadwq_exec_multi_def)
  then show ?thesis using i o by (simp add: comp_def)
qed

lemma begin_each:
  assumes "test_inv U items c n s" and "ops_of s = replicate 4 (test_ops w)" and "k \<le> 4"
  shows "\<exists>s'. seqR (map (worker_begins w) [0..<k]) s = Inr s' \<and> test_inv U items c n s' \<and> ops_of s' = replicate 4 (test_ops w)
    \<and> st_wait s' = st_wait s \<and> st_rcu s' = st_rcu s"
  using assms(3)
proof (induction k)
  case 0
  then show ?case using assms by simp
next
  case (Suc k)
  then obtain s1 where s1: "seqR (map (worker_begins w) [0..<k]) s = Inr s1" "test_inv U items c n s1"
      "ops_of s1 = replicate 4 (test_ops w)" "st_wait s1 = st_wait s" "st_rcu s1 = st_rcu s" by auto
  have "k < length (st_tbl s1)" using Suc.prems test_invD(1)[OF s1(2)] by simp
  then obtain s2 where s2: "worker_begins w k s1 = Inr s2" "same_counts s1 s2"
    using worker_begins_ok[OF _ s1(3) test_inv_db[OF s1(2)]] by blast
  then show ?case using s1 same_counts_keeps[OF s2(2)] by (intro exI[of _ s2]) (simp add: seqR_append)
qed

lemma set_up_ok:
  assumes U: "lfq_fifo U items" and b: "between U s" and w: "length (w_raw w) = 4" "1 < w_fuel w" "\<forall>i < 4. w_created w i"
  shows "\<exists>s'. set_up U w s = Inr s' \<and> test_inv U items (length (st_rcu s)) (length (st_rcu s)) s'
    \<and> ops_of s' = replicate 4 (test_ops w) \<and> st_wait s' = 0 \<and> st_rcu s' = st_rcu s"
proof -
  let ?g = "\<lambda>twq. (snd (threadwq_init U twq))\<lparr>tq_ops := test_ops w, tq_running := 1\<rparr>"
  let ?s = "s\<lparr>st_env := (st_env s)\<lparr>te_start := 0, te_finish := 0\<rparr>, st_wait := 0, st_tbl := map ?g (w_raw w)\<rparr>"
  have h: "holds_jobs U items (tq_lfq (?g twq)) []" for twq :: "('a, genv) threadwq"
    using holds_jobs_init[OF U] by (simp add: threadwq_init_def)
  then have j: "jobs_of U items (?g twq) = []" for twq using holds_jobs_of[of U items "?g twq" "[]"] by blast
  then have q: "queued U items ?s = []" by (simp add: queued_def)
  have f: "in_flight U ?s = in_flight U s" "length (in_flight U s) = length (st_rcu s)" by (simp_all add: in_flight_def)
  have "\<forall>twq \<in> set (st_tbl ?s). queue_good U items twq" using h j by (auto simp: queue_good_def threadwq_init_def)
  then have inv: "test_inv U items (length (st_rcu s)) (length (st_rcu s)) ?s"
    using b w(1) unfolding test_inv_def q f(1) by (simp add: between_def f(2) env_ok_def)
  have ops: "ops_of ?s = replicate 4 (test_ops w)" using w(1) by (simp add: comp_def map_replicate_const)
  have "set_up U w s = seqR (map (worker_begins w) [0..<unat TWQNUM]) ?s"
    unfolding set_up_def Let_def by (subst set_up_table[OF w]) simp
  then show ?thesis using begin_each[OF inv ops, of 4] by simp
qed


section \<open>The whole tests\<close>

text \<open>
  Everything that \<open>BUG_ON\<close> asks of the system succeeds, and the clock goes on: \<open>world_ok\<close>.
\<close>

definition world_ok :: "'q urcu \<Rightarrow> 'q world \<Rightarrow> bool" where
  "world_ok U w \<longleftrightarrow> length (w_raw w) = 4 \<and> (\<forall>i < 4. w_created w i) \<and> w_rcu w \<and> w_thread w
     \<and> (\<forall>tk \<in> set (w_ticks w). good_malloc U (tk_malloc tk)) \<and> (\<exists>tk \<in> set (w_ticks w). time_over (w_ts w) tk)"

lemma rounds_le: "\<exists>tk \<in> set tks. time_over ts tk \<Longrightarrow> rounds ts tks \<le> length tks"
  by (induction tks) (auto simp: rounds_Cons)

lemma graces_keep:
  assumes "test_inv U items c n s"
  shows "\<exists>s'. others_run U (replicate k Grace) s = Inr s' \<and> test_inv U items c n s'
    \<and> queued U items s' = queued U items s \<and> length (st_rcu s') = length (st_rcu s) - k"
  using assms
proof (induction k arbitrary: s)
  case 0
  then show ?case by (simp add: others_run_def)
next
  case (Suc k)
  obtain s1 where s1: "other_thread U Grace s = Inr s1" "test_inv U items c n s1"
      "queued U items s1 = queued U items s" "in_flight U s1 = tl (in_flight U s)"
    using grace_keeps[OF Suc.prems] by blast
  have "length (st_rcu s1) = length (st_rcu s) - 1"
    using arg_cong[OF s1(4), of length] by (simp add: in_flight_def)
  then show ?case using Suc.IH[OF s1(2)] s1 by (auto simp: others_run_Cons)
qed

lemma end_test_ok:
  assumes "test_inv U items c n s" and "queued U items s = []"
  shows "\<exists>s'. end_test U w s = Inr s' \<and> test_inv U items c n s' \<and> queued U items s' = []"
proof -
  obtain s1 where s1: "others_run U (replicate (w_late w) Grace) s = Inr s1" "test_inv U items c n s1"
      "queued U items s1 = queued U items s" using graces_keep[OF assms(1)] by blast
  have "same_counts s1 (last_line s1)" by (simp add: last_line_def)
  note k = same_counts_keeps[OF this]
  have "queued U items (last_line s1) = queued U items s1" using k(2) by (rule queued_cong)
  then show ?thesis using s1 k(1)[OF s1(2)] assms(2) by (simp add: end_test_def)
qed

lemma test_threadwq2_ok:
  assumes U: "lfq_fifo U items" "node_init_ok U items" and b: "between U s" and w: "world_ok U w"
    and fuel: "length (st_rcu s) + length (w_ticks w) \<le> w_fuel w" "1 < w_fuel w"
  shows "\<exists>s' m. test_threadwq2 U w s = Inr s' \<and> test_inv U items (length (st_rcu s)) (length (st_rcu s) + m) s'
    \<and> queued U items s' = [] \<and> m \<le> rounds (w_ts w) (w_ticks w)"
proof -
  let ?c = "length (st_rcu s)"
  note W = w[unfolded world_ok_def]
  obtain s1 where s1: "set_up U w s = Inr s1" "test_inv U items ?c ?c s1" "ops_of s1 = replicate 4 (test_ops w)"
    using set_up_ok[OF U(1) b _ fuel(2)] W by blast
  obtain s2 m where s2: "threadfunc2 U (w_ts w) (w_ticks w) 0 s1 = Inr s2" "test_inv U items ?c (?c + m) s2"
      "m \<le> rounds (w_ts w) (w_ticks w)"
    using threadfunc2_runs[OF U s1(2), of "w_ticks w" "w_ts w" 0] W by (metis add_leD1)
  have n: "?c + m \<le> w_fuel w" using s2(3) rounds_le[of "w_ticks w" "w_ts w"] W fuel(1) by auto
  have stop: "\<exists>s'. stop_workers U w (st_say ms s2) = Inr s' \<and> test_inv U items ?c (?c + m) s' \<and> queued U items s' = []" for ms
    using stop_workers_ok[OF U(1) same_counts_keeps(1)[OF same_counts_say(1) s2(2)], where w = w] s1(3)
      threadfunc2_ops[OF s2(1)] n fuel(2) by auto
  obtain s3 where s3: "stop_workers U w (summary2 w s2) = Inr s3" "test_inv U items ?c (?c + m) s3" "queued U items s3 = []"
    using stop unfolding summary2_def by blast
  have "test_threadwq2 U w s = end_test U w s3" unfolding test_threadwq2_def using s1(1) s2(1) s3(1) W by simp
  then show ?thesis using end_test_ok[OF s3(2,3), of w] s2(3) by auto
qed

lemma test_threadwq3_ok:
  assumes U: "lfq_fifo U items" "node_init_ok U items" and b: "between U s" and w: "world_ok U w"
    and fuel: "length (st_rcu s) + length (w_ticks w) \<le> w_fuel w" "1 < w_fuel w"
  shows "\<exists>s' m. test_threadwq3 U w s = Inr s' \<and> test_inv U items (length (st_rcu s)) (length (st_rcu s) + m) s'
    \<and> queued U items s' = [] \<and> m \<le> rounds (w_ts w) (w_ticks w)"
proof -
  let ?c = "length (st_rcu s)" and ?ops = "threadwq_man_ops_rr4idle (Suc (w_fuel w)) (\<lambda>m. m) U (Adder 0)"
  note W = w[unfolded world_ok_def]
  obtain s1 where s1: "set_up U w s = Inr s1" "test_inv U items ?c ?c s1" "ops_of s1 = replicate 4 (test_ops w)"
    using set_up_ok[OF U(1) b _ fuel(2)] W by blast
  have nz: "\<not> TWQNUM \<le> 0" by (simp add: TWQNUM_def)
  obtain man where man: "threadwq_man_init (Some (w_man w)) (Some (st_tbl s1)) TWQNUM (Some ?ops) = Inr (0, man)"
      "man_ops man = ?ops" "twq_pool_nr (man_core man) = 4" "twq_idx (man_core man) = 0"
    using nz by (simp add: threadwq_man_init_def threadwq_man_ops_rr4idle_def rr_init_def TWQNUM_def)
  then have mok: "man_ok U man" by (auto simp: man_ok_def)
  obtain s2 man' m where s2: "threadfunc3 U (w_ts w) (w_ticks w) 0 man s1 = Inr (0 + of_nat m, man', s2)" "test_inv U items ?c (?c + m) s2"
      "m \<le> rounds (w_ts w) (w_ticks w)" "man_ops man' = man_ops man"
    using threadfunc3_runs[OF U s1(2) _ _ mok, of "w_ticks w" "w_ts w" 0] W by (metis add_leD1)
  have n: "?c + m \<le> w_fuel w" using s2(3) rounds_le[of "w_ticks w" "w_ts w"] W fuel(1) by auto
  have stop: "\<exists>s'. stop_workers U w (st_say ms s2) = Inr s' \<and> test_inv U items ?c (?c + m) s' \<and> queued U items s' = []" for ms
    using stop_workers_ok[OF U(1) same_counts_keeps(1)[OF same_counts_say(1) s2(2)], where w = w] s1(3)
      threadfunc3_ops[OF s2(1) man(2)] n fuel(2) by auto
  obtain s3 where s3: "stop_workers U w (summary3 w (0 + of_nat m) s2) = Inr s3" "test_inv U items ?c (?c + m) s3" "queued U items s3 = []"
    using stop unfolding summary3_def by blast
  obtain man'' where "threadwq_man_exit (Some man') = Inr man''"
    using man(2) s2(4) by (simp add: threadwq_man_exit_def threadwq_man_ops_rr4idle_def rr_exit_def)
  then have "test_threadwq3 U w s = end_test U w s3"
    unfolding test_threadwq3_def using s1(1) man(1) s2(1) s3(1) W by simp
  then show ?thesis using end_test_ok[OF s3(2,3), of w] s2(3) by auto
qed

section \<open>\<open>main\<close>\<close>

lemma test_threadwq1_ok:
  assumes "between U s" and "\<exists>now \<in> set nows. now - ts > TEST_TIME"
  shows "\<exists>s'. test_threadwq1 ts nows now s = Inr s' \<and> between U s' \<and> st_rcu s' = st_rcu s"
proof -
  have "length (te_database (st_env s)) = 16384" using assms(1) by (auto simp: between_def env_ok_def)
  from test_threadwq_counts[OF this assms(2)] show ?thesis
    using assms(1) by (simp add: test_threadwq1_def Let_def last_line_def st_say_def between_def in_flight_def env_ok_def)
qed

text \<open>The tests give back all but what is still pending.\<close>

lemma main_exit_ok:
  assumes "test_inv U items c n s" and "queued U items s = []"
  shows "\<exists>k. \<forall>fuel > k. \<exists>s'. main_exit fuel s = Inr
    (if st_rcu s = [] then None else Some (of_nat (length (st_rcu s)), mp_name (te_pool (st_env s))), s')"
proof -
  note D = test_invD[OF assms(1)]
  obtain fs where fs: "pool_inv (te_pool (st_env s)) fs (set (in_flight U s))"
    using D(4) assms(2) by (auto simp: env_ok_def)
  have "distinct (in_flight U s)" using D(3) assms(2) by (simp add: jobs_ok_def)
  then have c: "card (set (in_flight U s)) = length (st_rcu s)" using distinct_card[of "in_flight U s"] by (metis in_flight_def length_map)
  have e: "set (in_flight U s) = {} \<longleftrightarrow> st_rcu s = []" by (simp add: in_flight_def)
  have "\<exists>p. mempool_exit fuel (te_pool (st_env s)) = Inr
      (if st_rcu s = [] then None else Some (of_nat (length (st_rcu s)), mp_name (te_pool (st_env s))), p)"
    if "length fs < fuel" for fuel using mempool_exit_ok[OF fs that] unfolding c e by blast
  then show ?thesis by (intro exI[of _ "length fs"] allI impI) (fastforce simp: main_exit_def)
qed

text \<open>A manager and queues on the stack, and a system that works\<close>

definition sample_world_of :: "tick list \<Rightarrow> ptr list world" where
  "sample_world_of tks = \<lparr>w_fuel = 8, w_raw = replicate 4 sample_queue, w_man = sample_man, w_created = (\<lambda>_. True),
     w_rcu = True, w_thread = True, w_ts = 0, w_ticks = tks, w_now = 12, w_stop = (\<lambda>_. []), w_late = 0,
     w_queue = (\<lambda>i. 1048576 + 4096 * of_nat i), w_show = (\<lambda>_. ''queue'')\<rparr>"



end
