(* ===== verification/Spec2Isabelle.thy ===== *)
theory Spec2Isabelle
  imports Mempool Mempool_Threads Initops Threadwq_Worker Threadwq_Builds Threadwq_Man Man_Threads Stdmsg Atomic Hexdump Asciidump Fio_Easyrw
    Lock_Calls Hlist Tm Program Selftest Test_Run
begin

text \<open>
  Verification of the C program under \<open>src/template-v1/src\<close>: a template of a threaded Linux
  application. It has a library of helpers (\<open>lgu/\<close>), a memory pool (\<open>mempool/\<close>), hooks that run
  at start-up (\<open>initops/\<close>), queues of jobs with a worker thread each and managers that deal jobs to
  them (\<open>threadwq/\<close>), and \<open>main.c\<close>, which parses the command line, keeps a second instance out,
  runs the hooks and then three self tests that exercise pool, queues and manager together.

  \<^bold>\<open>How the parts interact.\<close> The pool links free slices with the intrusive list. A self test takes
  job structures from the pool, initialises them and adds them to a queue, directly or through a
  manager; the worker of the queue calls the start callback and leaves the finish callback to
  \<open>call_rcu\<close>; after a grace period that callback gives the structure back to the pool. The main
  program takes a file lock before anything else and gives it back at exit; its messages go through
  the level of \<open>stdmsg\<close>.

  \<^bold>\<open>Theories and sources.\<close>
  \<^item> \<open>C_Prelude\<close>: machine types, the four faults (\<open>SegFault\<close>, \<open>BugOn\<close>, \<open>Deadlock\<close>, \<open>Diverge\<close>), the
    result type, sequencing, loops with \<open>break\<close>; the locale \<open>machine_invariant\<close> for step relations.
  \<^item> \<open>C_String\<close>: \<open>strcat\<close> and \<open>snprintf\<close> into sized arrays, the conversions of \<open>printf\<close> in use.
  \<^item> \<open>Intrusive_List\<close>, \<open>List_Head\<close>: \<open>lgu/list/list.h\<close>, the circular list. A store maps addresses to
    the two pointers of a node, every operation is its sequence of loads and stores, and an access
    outside the store is a fault. \<open>dlist h L xs\<close> abstracts a store to a list. The locale
    \<open>intrusive_list\<close> is the contract the pool relies on, \<open>list_h\<close> its interpretation.
  \<^item> \<open>Hlist\<close>: the list with a single pointer head of the same file, over a store of pointer cells.
  \<^item> \<open>Mempool\<close>: \<open>mempool/mempool.c\<close>. The state is \<open>struct mempool\<close> with the memory of the slices:
    their nodes and their magic words. \<open>pool_inv s fs U\<close> says that the cache holds \<open>fs\<close> and the
    client \<open>U\<close>.
  \<^item> \<open>Mempool_Threads\<close>: \<open>mempool_alloc\<close>, \<open>mempool_free\<close> and \<open>mempool_recycle\<close> again, statement by
    statement (\<open>thread_step\<close>), with any number of threads inside the pool and only the spinlock
    between them. \<open>mt_inv\<close> says at each statement what holds of the pool and of the slice in hand.
  \<^item> \<open>Initops\<close>: \<open>initops/initops.c\<close>. The linker section is a list of hooks on the program state.
  \<^item> \<open>Threadwq\<close>: \<open>threadwq/threadwq.c\<close> as one thread executes it; \<open>Threadwq_Worker\<close>: the same code as
    a step relation in which the worker, the thread that starts and stops it and any number of
    threads that add jobs interleave, one access to shared state per step. \<open>twq_inv\<close> is its
    invariant: who holds the mutex, how far the worker and its starter are, where each job is.
    \<open>Threadwq_Builds\<close>: the two builds with \<open>THREADWQ_BLOCKED_ENQUEUE\<close> 0, which differ in \<open>wait4job\<close> and
    in that the adding threads signal without the mutex.
  \<^item> \<open>Threadwq_Man\<close>: \<open>threadwq_man.c\<close>, \<open>threadwq_man_rr.c\<close> and their headers: the manager, its table of
    functions, both policies; the locales \<open>job_policy\<close> and \<open>cyclic_policy\<close> with their
    interpretations \<open>rr\<close> and \<open>rr4idle\<close>.
  \<^item> \<open>Man_Threads\<close>: any number of threads in \<open>rr_add_job\<close> or \<open>rr4idle_add_job\<close> of one manager
    (\<open>caller_step\<close>), in front of a pool in which every queue is the machine of \<open>Threadwq_Worker\<close> with
    its worker, its starter and the library. \<open>man_inv\<close> is \<open>twq_inv\<close> of every queue, where each caller
    is, that a job is in one place, and the count of what was handed over.
  \<^item> \<open>Stdmsg\<close>, \<open>Atomic\<close>, \<open>Hexdump\<close>, \<open>Asciidump\<close>, \<open>Tm\<close>: the helpers of the same names under \<open>lgu/\<close>.
  \<^item> \<open>Fio_Easyrw\<close>: \<open>lgu/fio/fio_easyrw.c\<close>, with the answers of the operating system as an argument.
  \<^item> \<open>Fio_Lock\<close>: \<open>lgu/fio/fio_lock.c\<close> over a small kernel with descriptors, descriptions and
    \<open>flock\<close>; the locale \<open>file_lock\<close> and its interpretation \<open>fl\<close>. \<open>Lock_Calls\<close>: the same calls one system
    call at a time (\<open>lock_step\<close>), by processes that fork between calls and are killed anywhere.
  \<^item> \<open>Program\<close>: \<open>main.c\<close> up to the tests, and a step relation for processes that start, end or are
    killed. \<open>Selftest\<close>: the callbacks and loops of the self tests; \<open>Test_Run\<close>: the tests as a whole, and
    \<open>main\<close> from \<open>mempool_init\<close> to \<open>mempool_exit\<close>.

  \<^bold>\<open>What is shown.\<close> The pool refines a cache and a set of slices, serves a well-behaved client for ever
  without a fault, and reports exactly the slices that are missing at the end; with threads inside it at
  once no statement faults, no slice is in two hands, and run by one thread the statements are the
  operations. The queue runs every job once and in order; stopping it flushes it and can always finish;
  a wake-up can be lost, but not in the build in which the worker never waits. The managers lose no job, and how they deal them is stated for each; with
  concurrent callers no job is lost or doubled, every call can return, and stopping all queues of the
  pool starts every job that was handed over, although callers race on the index (\<open>rr_race\<close>). The rollback of the init hooks is
  characterised as it is, off by one. The list operations and every loop macro have their effect on
  the abstract list, with termination. The file lock excludes at every system call, and one process at a time runs the tests, whatever is
  killed. The
  self tests end when the clock says so, fault never, and account for every job; what
  \<open>mempool_exit\<close> reports at the end is exactly the callbacks that nothing waited for. The dumps can be read
  back. The two file readers agree, and the sizes at which one of them fails are stated exactly.

  \<^bold>\<open>Bounds and fuel.\<close> Addresses and \<open>size_t\<close> are 64-bit words, \<open>unsigned int\<close> a 32-bit word, and
  arithmetic on them wraps. The loops of \<open>list.h\<close> follow pointers and take fuel: more than the number
  of nodes left is enough, and each theorem asks for just that. So does the flush of a queue, with the
  number of jobs in it, and \<open>mempool_exit\<close>, with the length of the cache. The loops that poll another
  thread (\<open>running_loop\<close>, \<open>kill_online_worker\<close>, \<open>rr4idle_loop\<close>) take fuel because nothing in the code
  bounds them; that they can end is a theorem about the interleaving (\<open>threadwq_exit_can_finish\<close>,
  \<open>man_call_can_return\<close>). The
  loops of the self tests take the list of what happens in their rounds, and their theorems ask that the
  clock ends it. All other loops are total functions.

  \<^bold>\<open>Parameters.\<close> The lock-free queue and \<open>call_rcu\<close> of userspace-rcu are the record \<open>urcu\<close>, and
  \<open>lfq_fifo\<close> is what its documentation says of the queue; \<open>list_urcu\<close> is an instance. What
  \<open>malloc\<close>, \<open>stat\<close>, \<open>open\<close>, \<open>read\<close>, \<open>localtime\<close>, \<open>getopt_long\<close>, \<open>setsid\<close>, \<open>daemon\<close>,
  \<open>pthread_create\<close> and the clock answer are arguments of the operations.

  \<^bold>\<open>Not modelled.\<close> Makefiles, Kconfig files and the archives of imported packages hold no logic of the
  program; \<open>bug.h\<close> is the fault \<open>BugOn\<close> and \<open>lgu.h\<close> only includes. In the
  self tests, what the other threads do between two statements of the adding thread comes as complete
  events. In \<open>Program\<close> a start of the program up to the tests is one step; that the system calls of its
  lock may be torn apart is the subject of \<open>Lock_Calls\<close>. In \<open>Man_Threads\<close> each queue has a starting and
  stopping thread of its own, which covers the one thread that serves them in turn. The code under
  \<open>#if 0\<close> (two \<open>main\<close> functions for trying out a file) is not modelled. Memory is sequentially consistent, and the
  barriers of the code have no effect of their own.
\<close>

end
